(* ===== verification/Photon_Prelude.thy ===== *)
theory Photon_Prelude
  imports Main "HOL-Library.Word"
begin

unbundle bit_operations_syntax

text \<open>
  Machine integers, panics and the generic lemmas shared by every component.

  The crate is compiled for 64-bit targets, so \<^verbatim>\<open>usize\<close> is a 64-bit word; \<open>+\<close>, \<open>-\<close> and
  \<open>*\<close> wrap, as they do in a release build.  A \<^verbatim>\<open>Result<T, E>\<close> is a sum \<open>'e + 't\<close> with the
  error on the left, and a function that can panic returns \<open>panic + 'a\<close>.
\<close>

section \<open>Machine integers\<close>

type_synonym u8 = "8 word"
type_synonym u16 = "16 word"
type_synonym u32 = "32 word"
type_synonym u64 = "64 word"
type_synonym u128 = "128 word"
type_synonym usize = "64 word"

text \<open>\<^verbatim>\<open>u64::MAX\<close>: the cursor value that means that nothing has been published yet.\<close>

abbreviation u64_max :: u64 where
  "u64_max \<equiv> - 1"

text \<open>\<^verbatim>\<open>u32::saturating_add\<close> of the standard library.\<close>

definition u32_saturating_add :: "u32 \<Rightarrow> u32 \<Rightarrow> u32" where
  "u32_saturating_add a b = (if unat a + unat b < 2 ^ 32 then a + b else - 1)"

section \<open>Panics\<close>

datatype panic =
    CapacityTooSmall
  | WatermarkTooLarge
  | PublisherTaken string
  | TypeMismatch string
  | DowncastFailed
  | NoUpstreams
  | NoTracker
  | PrefaultAfterPublish
  | IndexOutOfBounds
  | ClosurePanic

type_synonym 'a may_panic = "panic + 'a"

section \<open>Proof collections\<close>

named_theorems u64_arith \<open>moving 64-bit word arithmetic to the naturals\<close>
named_theorems ring_frame \<open>what an operation leaves unchanged\<close>

section \<open>Words\<close>

lemma unat_u64_bound: "unat (a :: u64) < 2 ^ 64"
  using unsigned_less [of a, where 'a = nat] by simp

lemma unat_u64_bound': "unat (a :: u64) < 18446744073709551616"
  using unat_u64_bound [of a] by simp

lemma unat_u64_le: "unat (a :: u64) \<le> 18446744073709551615"
  using unat_u64_bound' [of a] by linarith

lemma unat_u64_max [simp]: "unat u64_max = 18446744073709551615"
  by (simp add: unsigned_minus_1_eq_mask mask_eq_exp_minus_1)

lemma unat_u64_add [u64_arith]:
  "unat a + unat b < 2 ^ 64 \<Longrightarrow> unat (a + b :: u64) = unat a + unat b"
  by (simp add: unat_word_ariths)

lemma unat_u64_Suc [u64_arith]:
  "unat a < 2 ^ 64 - 1 \<Longrightarrow> unat (a + 1 :: u64) = unat a + 1"
  by (simp add: unat_word_ariths)

lemma unat_u64_diff [u64_arith]:
  "unat b \<le> unat a \<Longrightarrow> unat (a - b :: u64) = unat a - unat b"
  by (simp add: unat_sub word_le_nat_alt)

lemma unat_u64_pred [u64_arith]:
  "0 < unat a \<Longrightarrow> unat (a - 1 :: u64) = unat a - 1"
  by (rule unat_minus_one) auto

lemma u64_eq_iff: "(a :: u64) = b \<longleftrightarrow> unat a = unat b"
  by (rule word_unat_eq_iff)

lemma u64_eq_max_iff: "(a :: u64) = u64_max \<longleftrightarrow> unat a = 2 ^ 64 - 1"
  by (simp add: word_unat_eq_iff)

lemma unat_of_nat_u64: "n < 2 ^ 64 \<Longrightarrow> unat (of_nat n :: u64) = n"
  by (simp add: unat_of_nat)

lemmas u64_order = word_le_nat_alt word_less_nat_alt

lemma unat_u64_stamp [u64_arith]:
  "unat s < 2 ^ 63 \<Longrightarrow> unat (s * 2 + 1 :: u64) = 2 * unat s + 1"
  by (simp add: unat_word_ariths mult.commute)

lemma unat_u64_stamp_done [u64_arith]:
  "unat s < 2 ^ 63 - 1 \<Longrightarrow> unat (s * 2 + 2 :: u64) = 2 * unat s + 2"
  by (simp add: unat_word_ariths mult.commute)

lemma u64_odd_iff: "(a :: u64) AND 1 \<noteq> 0 \<longleftrightarrow> odd (unat a)"
proof -
  have "unat (a mod 2) = unat a mod 2"
    by (simp add: unat_mod)
  then show ?thesis
    by (simp add: and_one_eq word_unat_eq_iff odd_iff_mod_2_eq_one)
qed

section \<open>Residues\<close>

lemma same_residue_gap:
  fixes s t c :: nat
  assumes "s mod c = t mod c" "s < t"
  shows "s + c \<le> t"
proof -
  have "c dvd t - s" using assms by (metis less_imp_le mod_eq_dvd_iff_nat)
  then show ?thesis using assms by (auto dest: dvd_imp_le)
qed

section \<open>Lists\<close>

lemma nth_list_update_mod:
  "i < length xs \<Longrightarrow> j < length xs \<Longrightarrow> xs[i := v] ! j = (if i = j then v else xs ! j)"
  by (simp add: nth_list_update)

end
