(* ===== verification/Ring_Index.thy ===== *)
theory Ring_Index
  imports Photon_Prelude
begin

text \<open>
  Slot indexing, \<^verbatim>\<open>RingIndex\<close> of \<^verbatim>\<open>src/src/ring.rs\<close>: a bitwise AND for power-of-two
  capacities and a reciprocal multiplication with one correction step for the others.  The
  main result is that both branches compute the remainder of the sequence number by the
  capacity, for every 64-bit sequence number and every capacity the constructor accepts.
\<close>

section \<open>The index and its operations\<close>

record ring_index =
  ri_capacity :: u64
  ri_mask :: u64
  ri_reciprocal :: u64
  ri_is_pow2 :: bool

text \<open>\<^verbatim>\<open>usize::is_power_of_two\<close> of the standard library.\<close>

definition is_power_of_two :: "usize \<Rightarrow> bool" where
  "is_power_of_two c \<longleftrightarrow> list_ex (\<lambda>k. c = 2 ^ k) [0..<64]"

definition RingIndex_new :: "usize \<Rightarrow> ring_index may_panic" where
  "RingIndex_new capacity =
     (if \<not> capacity \<ge> 2 then Inl CapacityTooSmall
      else
        let cap = capacity;
            is_pow2 = is_power_of_two capacity;
            mask = (if is_pow2 then cap - 1 else 0);
            reciprocal = ucast ((push_bit 64 1 :: u128) div ucast cap)
        in Inr \<lparr>ri_capacity = cap, ri_mask = mask, ri_reciprocal = reciprocal,
                ri_is_pow2 = is_pow2\<rparr>)"

definition RingIndex_slot :: "ring_index \<Rightarrow> u64 \<Rightarrow> usize" where
  "RingIndex_slot ri seq =
     (if ri_is_pow2 ri then seq AND ri_mask ri
      else
        let q = ucast (drop_bit 64 (ucast seq * ucast (ri_reciprocal ri) :: u128)) :: u64;
            r = seq - q * ri_capacity ri
        in if r \<ge> ri_capacity ri then r - ri_capacity ri else r)"



lemma barrett_le:
  fixes n d W :: nat
  assumes "0 < d" "0 < W"
  shows "n * (W div d) div W \<le> n div d"
proof -
  let ?q = "n * (W div d) div W"
  have "?q * W \<le> n * (W div d)" by simp
  then have "(?q * W) * d \<le> n * (W div d) * d" by (rule mult_le_mono1)
  also have "\<dots> = n * (W div d * d)" by (simp only: mult.assoc)
  also have "\<dots> \<le> n * W" by (rule mult_le_mono2) simp
  finally have "(?q * d) * W \<le> n * W" by (simp only: ac_simps)
  then have "?q * d \<le> n" using assms by simp
  then show ?thesis using assms by (simp add: less_eq_div_iff_mult_less_eq)
qed

lemma barrett_ge:
  fixes n d W :: nat
  assumes "0 < d" "n < W"
  shows "n div d \<le> n * (W div d) div W + 1"
proof -
  let ?p = "n div d" and ?m = "W div d"
  have "W = ?m * d + W mod d" by simp
  moreover have "W mod d < d" using assms by simp
  ultimately have "W \<le> (?m + 1) * d" by (metis add.commute add_le_cancel_left less_imp_le mult_Suc Suc_eq_plus1)
  then have "?p * W \<le> ?p * ((?m + 1) * d)" by (rule mult_le_mono2)
  also have "\<dots> = (?p * d) * (?m + 1)" by (simp only: ac_simps)
  also have "\<dots> \<le> n * (?m + 1)" by (rule mult_le_mono1) simp
  also have "\<dots> = n * ?m + n" by simp
  also have "\<dots> < n * ?m + W" using assms by simp
  finally have "(?p - 1) * W \<le> n * ?m" by (simp add: diff_mult_distrib)
  then have "?p - 1 \<le> n * ?m div W" using assms by (simp add: less_eq_div_iff_mult_less_eq)
  then show ?thesis by simp
qed

lemma barrett_mod:
  fixes n d W :: nat
  assumes "0 < d" "n < W"
  defines "q \<equiv> n * (W div d) div W"
  shows "q * d \<le> n" 
    and "(if d \<le> n - q * d then n - q * d - d else n - q * d) = n mod d"
proof -
  have le: "q \<le> n div d" and ge: "n div d \<le> q + 1"
    using barrett_le [of d W n] barrett_ge [of d n W] assms by auto
  have "q * d \<le> n div d * d" using le by simp
  then show sub: "q * d \<le> n" using div_times_less_eq_dividend [of n d] by linarith
  consider "q = n div d" | "n div d = q + 1" using le ge by linarith
  then show "(if d \<le> n - q * d then n - q * d - d else n - q * d) = n mod d"
  proof cases
    case 1
    then have "n - q * d = n mod d" by (simp add: minus_div_mult_eq_mod)
    then show ?thesis using assms(1) by (simp add: not_le)
  next
    case 2
    have "n = (q + 1) * d + n mod d" using 2 by (metis div_mult_mod_eq)
    then have "n - q * d = d + n mod d" by simp
    then show ?thesis by simp
  qed
qed

lemma unat_ucast_u128 [simp]: "unat (ucast (c :: u64) :: u128) = unat c"
  using unat_u64_bound' [of c] by (simp add: unsigned_ucast_eq take_bit_nat_eq_self)

lemma unat_reciprocal:
  assumes "2 \<le> unat (c :: u64)"
  shows "unat (ucast ((push_bit 64 1 :: u128) div ucast c) :: u64) = 2 ^ 64 div unat c"
proof -
  have "unat ((push_bit 64 1 :: u128) div ucast c) = 2 ^ 64 div unat c"
    by (simp add: unat_div push_bit_eq_mult)
  moreover have "2 ^ 64 div unat c < 2 ^ 64"
    using assms by (intro div_less_dividend) auto
  ultimately show ?thesis
    by (simp add: unsigned_ucast_eq take_bit_nat_eq_self)
qed

lemma unat_mulhi:
  "unat (ucast (drop_bit 64 (ucast a * ucast b :: u128)) :: u64) = unat (a :: u64) * unat (b :: u64) div 2 ^ 64"
proof -
  have bound: "unat a * unat b < 2 ^ 64 * 2 ^ 64"
    using unat_u64_bound [of a] unat_u64_bound [of b] by (intro mult_strict_mono) auto
  then have "unat (ucast a * ucast b :: u128) = unat a * unat b"
    by (simp add: unat_word_ariths)
  then have "unat (drop_bit 64 (ucast a * ucast b :: u128)) = unat a * unat b div 2 ^ 64"
    by (simp add: drop_bit_eq_div unat_div)
  moreover have "unat a * unat b div 2 ^ 64 < 2 ^ 64"
    using bound by (intro less_mult_imp_div_less) simp
  ultimately show ?thesis
    by (simp add: unsigned_ucast_eq take_bit_nat_eq_self)
qed

lemma is_power_of_two_iff: "is_power_of_two c \<longleftrightarrow> (\<exists>k<64. c = 2 ^ k)"
  by (auto simp: is_power_of_two_def list_ex_iff)

lemma unat_pow2: "k < 64 \<Longrightarrow> unat ((2 :: u64) ^ k) = 2 ^ k"
proof -
  assume "k < 64"
  then have "(2 :: nat) ^ k < 2 ^ 64" by (simp only: power_strict_increasing_iff)
  moreover have "(2 :: u64) ^ k = of_nat (2 ^ k)" by simp
  ultimately show ?thesis by (simp only: unat_of_nat_u64)
qed

lemma unat_and_pow2:
  assumes "k < 64"
  shows "unat ((s :: u64) AND (2 ^ k - 1)) = unat s mod 2 ^ k"
proof -
  have "s AND (2 ^ k - 1) = s mod 2 ^ k"
    by (simp flip: mask_eq_exp_minus_1 take_bit_eq_mask add: take_bit_eq_mod)
  then show ?thesis using assms by (simp add: unat_mod unat_pow2)
qed

section \<open>The remainder is exact\<close>

text \<open>The indices that the constructor returns.\<close>

definition ring_index_ok :: "ring_index \<Rightarrow> bool" where
  "ring_index_ok ri \<longleftrightarrow> RingIndex_new (ri_capacity ri) = Inr ri"

lemma RingIndex_new_Inr:
  assumes "RingIndex_new c = Inr ri"
  shows "ri_capacity ri = c" and "2 \<le> unat c" and "ring_index_ok ri"
  using assms
  by (auto simp: RingIndex_new_def ring_index_ok_def Let_def word_le_nat_alt split: if_splits)

lemma ring_index_ok_capacity: "ring_index_ok ri \<Longrightarrow> 2 \<le> unat (ri_capacity ri)"
  unfolding ring_index_ok_def by (rule RingIndex_new_Inr(2))

lemma RingIndex_slot_unat:
  assumes "RingIndex_new c = Inr ri"
  shows "unat (RingIndex_slot ri seq) = unat seq mod unat c"
proof -
  have c: "2 \<le> unat c"
    using assms by (auto simp: RingIndex_new_def Let_def word_le_nat_alt split: if_splits)
  have ri: "ri = \<lparr>ri_capacity = c, ri_mask = (if is_power_of_two c then c - 1 else 0),
        ri_reciprocal = ucast ((push_bit 64 1 :: u128) div ucast c), ri_is_pow2 = is_power_of_two c\<rparr>"
    using assms by (auto simp: RingIndex_new_def Let_def split: if_splits)
  show ?thesis
  proof (cases "is_power_of_two c")
    case True
    then obtain k where k: "k < 64" "c = 2 ^ k" by (auto simp: is_power_of_two_iff)
    then have "unat c = 2 ^ k" by (simp add: unat_pow2)
    then show ?thesis using True k by (simp add: ri RingIndex_slot_def unat_and_pow2)
  next
    case False
    define q where "q = (ucast (drop_bit 64 (ucast seq * ucast (ri_reciprocal ri) :: u128)) :: u64)"
    have q: "unat q = unat seq * (2 ^ 64 div unat c) div 2 ^ 64"
      using unat_reciprocal [OF c] by (simp add: q_def unat_mulhi ri)
    note m = barrett_mod [of "unat c" "unat seq" "2 ^ 64", folded q, OF _ unat_u64_bound]
    have qc: "unat q * unat c \<le> unat seq" using m(1) c by simp
    then have "unat (q * c) = unat q * unat c"
      using unat_u64_bound [of seq] by (simp add: unat_word_ariths)
    then have r: "unat (seq - q * c) = unat seq - unat q * unat c"
      using qc by (simp add: unat_u64_diff)
    have "RingIndex_slot ri seq = (if c \<le> seq - q * c then seq - q * c - c else seq - q * c)"
      using False by (simp add: RingIndex_slot_def Let_def q_def ri)
    then have "unat (RingIndex_slot ri seq) =
        (if unat c \<le> unat seq - unat q * unat c then unat seq - unat q * unat c - unat c else unat seq - unat q * unat c)"
      using r by (simp add: word_le_nat_alt unat_u64_diff)
    also have "\<dots> = unat seq mod unat c"
      using m(2) c by simp
    finally show ?thesis .
  qed
qed

lemma ring_slot_mod:
  "ring_index_ok ri \<Longrightarrow> unat (RingIndex_slot ri seq) = unat seq mod unat (ri_capacity ri)"
  unfolding ring_index_ok_def by (rule RingIndex_slot_unat)

lemma ring_slot_less:
  "ring_index_ok ri \<Longrightarrow> unat (RingIndex_slot ri seq) < unat (ri_capacity ri)"
  using ring_index_ok_capacity [of ri] by (simp add: ring_slot_mod)

section \<open>Properties\<close>

text \<open>
  C14: for every capacity that \<^verbatim>\<open>RingIndex::new\<close> accepts and every 64-bit sequence number,
  \<^verbatim>\<open>RingIndex::slot\<close> is the remainder of the sequence number by the capacity, whichever of
  the two code paths (AND, reciprocal multiply) is taken, and so a valid index into the slots.
\<close>

theorem RingIndex_slot_is_remainder:
  assumes "RingIndex_new capacity = Inr ri"
  shows "unat (RingIndex_slot ri seq) = unat seq mod unat capacity
       \<and> unat (RingIndex_slot ri seq) < unat capacity"
  using RingIndex_slot_unat [OF assms] RingIndex_new_Inr(2) [OF assms] by simp

theorem RingIndex_slot_is_remainder_witness:
  "unat (RingIndex_slot (projr (RingIndex_new 1000)) 123456789) = 789"
proof -
  have "RingIndex_new 1000 = Inr (projr (RingIndex_new 1000))"
    by (simp add: RingIndex_new_def Let_def)
  from RingIndex_slot_is_remainder [OF this, of 123456789] show ?thesis by simp
qed

end
