(* ===== verification/Slot.thy ===== *)
theory Slot
  imports Ring_Index
begin

text \<open>
  The seqlock slot of \<^verbatim>\<open>src/src/slot.rs\<close> and the \<^verbatim>\<open>Pod\<close> trait of \<^verbatim>\<open>src/src/pod.rs\<close>.

  Memory is a list of bytes.  The payload helpers of the \<^verbatim>\<open>atomic-slots\<close> feature are
  translated chunk by chunk, on a shared memory that records every access made to it.  A slot is polymorphic in its payload:
  the volatile implementation stores a whole value, the \<^verbatim>\<open>atomic-slots\<close> implementation
  stores its bytes.  The locale \<open>pod\<close> states what the \<^verbatim>\<open>Pod\<close> trait demands of a type
  (valid values and byte strings of its size correspond one to one) and is interpreted for
  the types of \<^verbatim>\<open>pod.rs\<close>; under it the two implementations agree.
\<close>

section \<open>Payload copies in naturally aligned chunks\<close>

definition load_chunk :: "u8 list \<Rightarrow> nat \<Rightarrow> nat \<Rightarrow> u8 list" where
  "load_chunk mem off w = take w (drop off mem)"

definition store_chunk :: "u8 list \<Rightarrow> nat \<Rightarrow> u8 list \<Rightarrow> u8 list" where
  "store_chunk mem off bs = take off mem @ bs @ drop (off + length bs) mem"

text \<open>The shared memory of a slot's payload and the atomic accesses made to it so far, each with its offset and its
  width.\<close>

type_synonym shared = "u8 list \<times> (nat \<times> nat) list"

definition shared_store :: "shared \<Rightarrow> nat \<Rightarrow> u8 list \<Rightarrow> shared" where
  "shared_store m off bs = (store_chunk (fst m) off bs, snd m @ [(off, length bs)])"

definition shared_load :: "shared \<Rightarrow> nat \<Rightarrow> nat \<Rightarrow> u8 list \<times> shared" where
  "shared_load m off w = (load_chunk (fst m) off w, fst m, snd m @ [(off, w)])"

text \<open>The \<^verbatim>\<open>while size - off >= 8\<close> loop: the memory after the whole stripes and the offset
  reached; then one of the smaller accesses.\<close>

function store_stripes :: "shared \<Rightarrow> u8 list \<Rightarrow> nat \<Rightarrow> nat \<Rightarrow> shared \<times> nat" where
  "store_stripes dst src sz off =
     (if sz - off \<ge> 8
      then store_stripes (shared_store dst off (load_chunk src off 8)) src sz (off + 8)
      else (dst, off))"
  by pat_completeness auto
termination
  by (relation "measure (\<lambda>(dst, src, sz, off). sz - off)") auto

definition store_tail :: "nat \<Rightarrow> u8 list \<Rightarrow> nat \<Rightarrow> shared \<times> nat \<Rightarrow> shared \<times> nat" where
  "store_tail w src sz = (\<lambda>(dst, off).
     if sz - off \<ge> w
     then (shared_store dst off (load_chunk src off w), off + w)
     else (dst, off))"

definition store_payload_on :: "shared \<Rightarrow> u8 list \<Rightarrow> nat \<Rightarrow> shared" where
  "store_payload_on dst src sz =
     fst (store_tail 1 src sz (store_tail 2 src sz (store_tail 4 src sz
       (store_stripes dst src sz 0))))"

function load_stripes :: "u8 list \<Rightarrow> shared \<Rightarrow> nat \<Rightarrow> nat \<Rightarrow> u8 list \<times> shared \<times> nat" where
  "load_stripes dst src sz off =
     (if sz - off \<ge> 8
      then case shared_load src off 8 of (v, src') \<Rightarrow> load_stripes (store_chunk dst off v) src' sz (off + 8)
      else (dst, src, off))"
  by pat_completeness auto
termination
  by (relation "measure (\<lambda>(dst, src, sz, off). sz - off)") auto

definition load_tail :: "nat \<Rightarrow> nat \<Rightarrow> u8 list \<times> shared \<times> nat \<Rightarrow> u8 list \<times> shared \<times> nat" where
  "load_tail w sz = (\<lambda>(dst, src, off).
     if sz - off \<ge> w
     then case shared_load src off w of (v, src') \<Rightarrow> (store_chunk dst off v, src', off + w)
     else (dst, src, off))"

definition load_payload_on :: "u8 list \<Rightarrow> shared \<Rightarrow> nat \<Rightarrow> u8 list \<times> shared" where
  "load_payload_on dst src sz =
     (case load_tail 1 sz (load_tail 2 sz (load_tail 4 sz (load_stripes dst src sz 0))) of
        (dst', src', off) \<Rightarrow> (dst', src'))"

declare store_stripes.simps [simp del] load_stripes.simps [simp del]

text \<open>The contents alone.\<close>

definition store_payload :: "u8 list \<Rightarrow> u8 list \<Rightarrow> nat \<Rightarrow> u8 list" where
  "store_payload dst src sz = fst (store_payload_on (dst, []) src sz)"

definition load_payload :: "u8 list \<Rightarrow> u8 list \<Rightarrow> nat \<Rightarrow> u8 list" where
  "load_payload dst src sz = fst (load_payload_on dst (src, []) sz)"

text \<open>A list of accesses in closed form, to compare the copies with.\<close>

function stripe_plan :: "nat \<Rightarrow> nat \<Rightarrow> (nat \<times> nat) list" where
  "stripe_plan sz off =
     (if sz - off \<ge> 8 then (off, 8) # stripe_plan sz (off + 8)
      else if sz - off \<ge> 4 then (off, 4) # stripe_plan sz (off + 4)
      else if sz - off \<ge> 2 then (off, 2) # stripe_plan sz (off + 2)
      else if sz - off \<ge> 1 then [(off, 1)]
      else [])"
  by pat_completeness auto
termination
  by (relation "measure (\<lambda>(sz, off). sz - off)") auto

declare stripe_plan.simps [simp del]

fun copy_chunks :: "u8 list \<Rightarrow> u8 list \<Rightarrow> (nat \<times> nat) list \<Rightarrow> u8 list" where
  "copy_chunks dst src [] = dst"
| "copy_chunks dst src ((off, w) # ps) =
     copy_chunks (store_chunk dst off (load_chunk src off w)) src ps"

lemma stripe_plan_unfold:
  "8 \<le> sz - off \<Longrightarrow> stripe_plan sz off = (off, 8) # stripe_plan sz (off + 8)"
  "\<not> 8 \<le> sz - off \<Longrightarrow> 4 \<le> sz - off \<Longrightarrow> stripe_plan sz off = (off, 4) # stripe_plan sz (off + 4)"
  "\<not> 4 \<le> sz - off \<Longrightarrow> 2 \<le> sz - off \<Longrightarrow> stripe_plan sz off = (off, 2) # stripe_plan sz (off + 2)"
  "\<not> 2 \<le> sz - off \<Longrightarrow> 1 \<le> sz - off \<Longrightarrow> stripe_plan sz off = [(off, 1)]"
  "\<not> 1 \<le> sz - off \<Longrightarrow> stripe_plan sz off = []"
  by (subst stripe_plan.simps; simp)+

lemma length_load_chunk [simp]: "off + w \<le> length src \<Longrightarrow> length (load_chunk src off w) = w"
  by (simp add: load_chunk_def)

lemma small_rest:
  fixes sz off :: nat
  assumes "\<not> 8 \<le> sz - off"
  obtains "sz \<le> off" | "sz = off + 1" | "sz = off + 2" | "sz = off + 3" | "sz = off + 4"
    | "sz = off + 5" | "sz = off + 6" | "sz = off + 7"
  using assms by linarith

lemma store_tails_eq:
  assumes "\<not> 8 \<le> sz - off" "sz \<le> length src"
  shows "fst (store_tail 1 src sz (store_tail 2 src sz (store_tail 4 src sz ((dst, as), off)))) =
    (copy_chunks dst src (stripe_plan sz off), as @ stripe_plan sz off)"
  by (rule small_rest [OF assms(1)]) (use assms(2) in \<open>simp_all add: store_tail_def shared_store_def stripe_plan.simps\<close>)

lemma store_payload_from:
  assumes "sz \<le> length src"
  shows "fst (store_tail 1 src sz (store_tail 2 src sz (store_tail 4 src sz (store_stripes (dst, as) src sz off)))) =
    (copy_chunks dst src (stripe_plan sz off), as @ stripe_plan sz off)"
  using assms
proof (induction sz off arbitrary: dst as rule: stripe_plan.induct)
  case (1 sz off)
  show ?case
  proof (cases "8 \<le> sz - off")
    case True
    then show ?thesis using "1.IH"(1) [OF True "1.prems"] "1.prems"
      by (simp add: store_stripes.simps [of "(dst, as)"] shared_store_def stripe_plan_unfold)
  next
    case False
    then have "store_stripes (dst, as) src sz off = ((dst, as), off)" by (simp add: store_stripes.simps)
    then show ?thesis using store_tails_eq [OF False "1.prems"] by simp
  qed
qed

lemma load_tails_eq:
  assumes "\<not> 8 \<le> sz - off"
  shows "\<exists>off'. load_tail 1 sz (load_tail 2 sz (load_tail 4 sz (dst, (src, as), off))) =
    (copy_chunks dst src (stripe_plan sz off), (src, as @ stripe_plan sz off), off')"
  by (rule small_rest [OF assms]) (simp_all add: load_tail_def shared_load_def stripe_plan.simps)

lemma load_payload_from:
  "\<exists>off'. load_tail 1 sz (load_tail 2 sz (load_tail 4 sz (load_stripes dst (src, as) sz off))) =
    (copy_chunks dst src (stripe_plan sz off), (src, as @ stripe_plan sz off), off')"
proof (induction sz off arbitrary: dst as rule: stripe_plan.induct)
  case (1 sz off)
  show ?case
  proof (cases "8 \<le> sz - off")
    case True
    then show ?thesis using "1.IH"(1) [OF True, of "store_chunk dst off (load_chunk src off 8)" "as @ [(off, 8)]"]
      by (simp add: load_stripes.simps [of dst] shared_load_def stripe_plan_unfold)
  next
    case False
    then have "load_stripes dst (src, as) sz off = (dst, (src, as), off)" by (simp add: load_stripes.simps)
    then show ?thesis using load_tails_eq [OF False] by simp
  qed
qed

lemma store_payload_on_eq:
  "sz \<le> length src \<Longrightarrow> store_payload_on (dst, as) src sz = (copy_chunks dst src (stripe_plan sz 0), as @ stripe_plan sz 0)"
  unfolding store_payload_on_def by (rule store_payload_from)

lemma load_payload_on_eq:
  "load_payload_on dst (src, as) sz = (copy_chunks dst src (stripe_plan sz 0), src, as @ stripe_plan sz 0)"
  using load_payload_from [of sz dst src as 0] by (auto simp: load_payload_on_def)

text \<open>A chunk list that tiles an interval copies exactly that interval.\<close>

fun tiles :: "nat \<Rightarrow> (nat \<times> nat) list \<Rightarrow> nat \<Rightarrow> bool" where
  "tiles a [] b \<longleftrightarrow> a = b"
| "tiles a ((off, w) # ps) b \<longleftrightarrow> off = a \<and> 0 < w \<and> w dvd off \<and> w \<in> {1, 2, 4, 8} \<and> tiles (a + w) ps b"

lemma tiles_le: "tiles a ps b \<Longrightarrow> a \<le> b"
  by (induction a ps b rule: tiles.induct) auto

lemma stripe_plan_tiles:
  assumes "off \<le> sz" "8 dvd off \<or> (sz - off < 8 \<and> 4 dvd off) \<or> (sz - off < 4 \<and> 2 dvd off) \<or> sz - off < 2"
  shows "tiles off (stripe_plan sz off) sz"
  using assms
proof (induction sz off rule: stripe_plan.induct)
  case (1 sz off)
  consider "8 \<le> sz - off" | "\<not> 8 \<le> sz - off" "4 \<le> sz - off" | "\<not> 4 \<le> sz - off" "2 \<le> sz - off"
    | "\<not> 2 \<le> sz - off" "1 \<le> sz - off" | "\<not> 1 \<le> sz - off" by linarith
  then show ?case
  proof cases
    case 1
    have "tiles (off + 8) (stripe_plan sz (off + 8)) sz"
      by (rule "1.IH"(1)) (use 1 "1.prems" in auto)
    then show ?thesis using 1 "1.prems" by (auto simp: stripe_plan_unfold)
  next
    case 2
    have d: "4 dvd off" using "1.prems" 2 by (auto elim: dvd_trans [rotated])
    have "tiles (off + 4) (stripe_plan sz (off + 4)) sz"
      by (rule "1.IH"(2)) (use 2 "1.prems" d in auto)
    then show ?thesis using 2 d by (auto simp: stripe_plan_unfold)
  next
    case 3
    have d: "2 dvd off" using "1.prems" 3 by (auto elim: dvd_trans [rotated])
    have "tiles (off + 2) (stripe_plan sz (off + 2)) sz"
      by (rule "1.IH"(3)) (use 3 "1.prems" d in auto)
    then show ?thesis using 3 d by (auto simp: stripe_plan_unfold)
  next
    case 4
    then show ?thesis using "1.prems" by (auto simp: stripe_plan_unfold)
  next
    case 5
    then show ?thesis using "1.prems" by (auto simp: stripe_plan_unfold)
  qed
qed

lemma payload_tiles: "tiles 0 (stripe_plan sz 0) sz"
  by (rule stripe_plan_tiles) auto

lemma tiles_bytes: "tiles a ps b \<Longrightarrow> concat (map (\<lambda>(off, w). [off..<off + w]) ps) = [a..<b]"
proof (induction a ps b rule: tiles.induct)
  case (2 a off w ps b)
  then show ?case using upt_add_eq_append [of a "a + w" "b - (a + w)"] tiles_le [of "a + w" ps b] by auto
qed simp

lemma length_store_chunk:
  "off + length bs \<le> length mem \<Longrightarrow> length (store_chunk mem off bs) = length mem"
  by (simp add: store_chunk_def)

lemma copy_chunks_tiles:
  assumes "tiles a ps b" "b \<le> length dst" "b \<le> length src"
  shows "copy_chunks dst src ps = take a dst @ take (b - a) (drop a src) @ drop b dst"
  using assms
proof (induction a ps b arbitrary: dst rule: tiles.induct)
  case (1 a b)
  then show ?case by simp
next
  case (2 a off w ps b)
  let ?d = "store_chunk dst a (load_chunk src a w)"
  have ab: "a + w \<le> b" using 2 tiles_le by auto
  have len: "length ?d = length dst"
    using 2 ab by (auto simp: store_chunk_def load_chunk_def)
  have "copy_chunks dst src ((off, w) # ps) = copy_chunks ?d src ps" using 2 by simp
  also have "\<dots> = take (a + w) ?d @ take (b - (a + w)) (drop (a + w) src) @ drop b ?d"
    using 2 len by auto
  also have "take (a + w) ?d = take a dst @ take w (drop a src)"
    using 2 ab by (auto simp: store_chunk_def load_chunk_def)
  also have "drop b ?d = drop b dst"
    using 2 ab by (auto simp: store_chunk_def load_chunk_def)
  also have "(take a dst @ take w (drop a src)) @ take (b - (a + w)) (drop (a + w) src) @ drop b dst
     = take a dst @ take (b - a) (drop a src) @ drop b dst"
    using ab take_add [of w "b - (a + w)" "drop a src"] by (simp add: add.commute)
  finally show ?case .
qed

lemma copy_payload:
  "sz \<le> length dst \<Longrightarrow> sz \<le> length src \<Longrightarrow> copy_chunks dst src (stripe_plan sz 0) = take sz src @ drop sz dst"
  using copy_chunks_tiles [OF payload_tiles, of sz dst src] by simp

lemma store_payload_exact:
  "sz \<le> length dst \<Longrightarrow> sz \<le> length src \<Longrightarrow> store_payload dst src sz = take sz src @ drop sz dst"
  by (simp add: store_payload_def store_payload_on_eq copy_payload)

lemma load_payload_exact:
  "sz \<le> length dst \<Longrightarrow> sz \<le> length src \<Longrightarrow> load_payload dst src sz = take sz src @ drop sz dst"
  by (simp add: load_payload_def load_payload_on_eq copy_payload)

lemma tiles_accesses:
  "tiles a ps b \<Longrightarrow> (off, w) \<in> set ps \<Longrightarrow> off + w \<le> b \<and> w dvd off \<and> w \<in> {1, 2, 4, 8}"
  by (induction a ps b rule: tiles.induct) (auto dest: tiles_le)

section \<open>The seqlock slot\<close>

text \<open>
  \<^verbatim>\<open>MaybeUninit::uninit()\<close> leaves arbitrary contents behind: they are an argument of
  \<open>Slot_new\<close>, and no result about the ring depends on them.  A closure argument is the
  result of its call, which may be a panic.
\<close>

record 'a slot =
  slot_stamp :: u64
  slot_value :: 'a

definition Slot_new :: "'a \<Rightarrow> 'a slot" where
  "Slot_new uninit = \<lparr>slot_stamp = 0, slot_value = uninit\<rparr>"

definition Slot_stamp_load :: "'a slot \<Rightarrow> u64" where
  "Slot_stamp_load s = slot_stamp s"

definition Slot_write :: "'a slot \<Rightarrow> u64 \<Rightarrow> 'a \<Rightarrow> 'a slot" where
  "Slot_write s seq v =
     (let writing = seq * 2 + 1;
          done_stamp = seq * 2 + 2;
          s1 = s\<lparr>slot_stamp := writing\<rparr>;
          s2 = s1\<lparr>slot_value := v\<rparr>
      in s2\<lparr>slot_stamp := done_stamp\<rparr>)"

definition Slot_write_with :: "'a slot \<Rightarrow> u64 \<Rightarrow> 'a may_panic \<Rightarrow> 'a slot may_panic" where
  "Slot_write_with s seq f =
     (case f of Inl e \<Rightarrow> Inl e | Inr tmp \<Rightarrow> Inr (Slot_write s seq tmp))"

text \<open>
  The decision of \<^verbatim>\<open>Slot::try_read\<close> as a function of what its three loads observed: the
  first stamp, the payload, and the second stamp.  The sequential reads below load all three
  from one state of the slot; the interleaving models load them at different times.
\<close>

definition try_read_obs :: "u64 \<Rightarrow> u64 \<Rightarrow> 'a \<Rightarrow> u64 \<Rightarrow> u64 + 'a option" where
  "try_read_obs seq s1 v s2 =
     (let expected = seq * 2 + 2
      in if s1 = expected then (if s1 = s2 then Inr (Some v) else Inr None)
         else if s1 AND 1 \<noteq> 0 then Inr None
         else Inl s1)"

definition Slot_try_read :: "'a slot \<Rightarrow> u64 \<Rightarrow> u64 + 'a option" where
  "Slot_try_read s seq = try_read_obs seq (slot_stamp s) (slot_value s) (slot_stamp s)"

definition Slot_write_atomic :: "u8 list slot \<Rightarrow> u64 \<Rightarrow> u8 list \<Rightarrow> u8 list slot" where
  "Slot_write_atomic s seq v =
     (let writing = seq * 2 + 1;
          done_stamp = seq * 2 + 2;
          s1 = s\<lparr>slot_stamp := writing\<rparr>;
          s2 = s1\<lparr>slot_value := store_payload (slot_value s1) v (length v)\<rparr>
      in s2\<lparr>slot_stamp := done_stamp\<rparr>)"

definition Slot_write_with_atomic ::
    "u8 list slot \<Rightarrow> u64 \<Rightarrow> u8 list may_panic \<Rightarrow> u8 list slot may_panic" where
  "Slot_write_with_atomic s seq f =
     (case f of Inl e \<Rightarrow> Inl e | Inr v \<Rightarrow> Inr (Slot_write_atomic s seq v))"

definition Slot_try_read_atomic ::
    "u8 list \<Rightarrow> u8 list slot \<Rightarrow> u64 \<Rightarrow> u64 + u8 list option" where
  "Slot_try_read_atomic buf s seq =
     try_read_obs seq (slot_stamp s) (load_payload buf (slot_value s) (length buf)) (slot_stamp s)"

section \<open>Plain old data\<close>

definition decode_slot :: "(u8 list \<Rightarrow> 'a) \<Rightarrow> u8 list slot \<Rightarrow> 'a slot" where
  "decode_slot fb s = \<lparr>slot_stamp = slot_stamp s, slot_value = fb (slot_value s)\<rparr>"

locale pod =
  fixes valid :: "'a \<Rightarrow> bool"
    and size_of :: nat
    and to_bytes :: "'a \<Rightarrow> u8 list"
    and from_bytes :: "u8 list \<Rightarrow> 'a"
  assumes length_to_bytes: "valid v \<Longrightarrow> length (to_bytes v) = size_of"
    and from_to_bytes: "valid v \<Longrightarrow> from_bytes (to_bytes v) = v"
    and to_from_bytes: "length bs = size_of \<Longrightarrow> to_bytes (from_bytes bs) = bs"
    and valid_from_bytes: "length bs = size_of \<Longrightarrow> valid (from_bytes bs)"
begin

lemma decode_write:
  assumes "length (slot_value s) = size_of" "valid v"
  shows "decode_slot from_bytes (Slot_write_atomic s seq (to_bytes v)) = Slot_write (decode_slot from_bytes s) seq v"
    and "length (slot_value (Slot_write_atomic s seq (to_bytes v))) = size_of"
  using assms
  by (simp_all add: decode_slot_def Slot_write_atomic_def Slot_write_def Let_def
      store_payload_exact length_to_bytes from_to_bytes)

lemma decode_try_read:
  assumes "length (slot_value s) = size_of" "length buf = size_of"
  shows "map_sum id (map_option from_bytes) (Slot_try_read_atomic buf s seq) =
         Slot_try_read (decode_slot from_bytes s) seq"
  using assms
  by (simp add: decode_slot_def Slot_try_read_atomic_def Slot_try_read_def try_read_obs_def
      load_payload_exact Let_def)

lemma bij_to_bytes: "bij_betw to_bytes {v. valid v} {bs. length bs = size_of}"
  by (rule bij_betw_byWitness [where f' = from_bytes])
     (auto simp: length_to_bytes from_to_bytes to_from_bytes valid_from_bytes)

end

definition to_le_bytes :: "'w::len word \<Rightarrow> u8 list" where
  "to_le_bytes w = map (\<lambda>i. ucast (drop_bit (8 * i) w)) [0..<LENGTH('w) div 8]"

primrec from_le_bytes :: "u8 list \<Rightarrow> 'w::len word" where
  "from_le_bytes [] = 0"
| "from_le_bytes (b # bs) = ucast b OR push_bit 8 (from_le_bytes bs)"

lemma bit_from_le_bytes:
  "bit (from_le_bytes bs :: 'w::len word) j \<longleftrightarrow>
     j < LENGTH('w) \<and> j < 8 * length bs \<and> bit (bs ! (j div 8)) (j mod 8)"
proof (induction bs arbitrary: j)
  case Nil
  then show ?case by simp
next
  case (Cons b bs)
  show ?case
  proof (cases "j < 8")
    case True
    then show ?thesis
      by (auto simp: bit_or_iff bit_push_bit_iff bit_unsigned_iff)
  next
    case False
    then obtain i where j: "j = i + 8" by (metis add.commute le_Suc_ex not_less)
    have nb: "\<not> bit b j" using False by (simp add: bit_word_iff_drop_bit_and)
    have "(i + 8) div 8 = Suc (i div 8)" by simp
    with Cons.IH [of i] j nb show ?thesis
      by (auto simp: bit_or_iff bit_push_bit_iff bit_unsigned_iff)
  qed
qed

lemma from_to_le_bytes:
  assumes "LENGTH('w::len) = 8 * n"
  shows "from_le_bytes (to_le_bytes (w :: 'w word)) = w"
proof (rule bit_word_eqI)
  fix j assume "j < LENGTH('w)"
  with assms have j: "j div 8 < LENGTH('w) div 8" by auto
  have "bit (from_le_bytes (to_le_bytes w) :: 'w word) j \<longleftrightarrow> bit (to_le_bytes w ! (j div 8)) (j mod 8)"
    using \<open>j < LENGTH('w)\<close> assms by (simp add: bit_from_le_bytes to_le_bytes_def)
  also have "\<dots> \<longleftrightarrow> bit w j"
    using j by (simp add: to_le_bytes_def bit_unsigned_iff bit_drop_bit_eq)
  finally show "bit (from_le_bytes (to_le_bytes w) :: 'w word) j = bit w j" .
qed

lemma to_from_le_bytes:
  assumes "LENGTH('w::len) = 8 * length bs"
  shows "to_le_bytes (from_le_bytes bs :: 'w word) = bs"
proof (rule nth_equalityI)
  show len: "length (to_le_bytes (from_le_bytes bs :: 'w word)) = length bs"
    using assms by (simp add: to_le_bytes_def)
  fix i assume "i < length (to_le_bytes (from_le_bytes bs :: 'w word))"
  then have i: "i < length bs" using len by simp
  show "to_le_bytes (from_le_bytes bs :: 'w word) ! i = bs ! i"
  proof (rule bit_word_eqI)
    fix k assume k: "k < LENGTH(8)"
    have "(8 * i + k) div 8 = i" "(8 * i + k) mod 8 = k" using k by auto
    moreover have "8 * i + k < LENGTH('w)" using assms i k by simp
    ultimately show "bit (to_le_bytes (from_le_bytes bs :: 'w word) ! i) k = bit (bs ! i) k"
      using i k assms
      by (simp add: to_le_bytes_def bit_unsigned_iff bit_drop_bit_eq bit_from_le_bytes)
  qed
qed

lemma length_to_le_bytes: "length (to_le_bytes (w :: 'w::len word)) = LENGTH('w) div 8"
  by (simp add: to_le_bytes_def)

lemma pod_word:
  assumes "LENGTH('w::len) = 8 * n"
  shows "pod (\<lambda>_ :: 'w word. True) n to_le_bytes from_le_bytes"
  by unfold_locales (use assms in \<open>auto simp: length_to_le_bytes from_to_le_bytes to_from_le_bytes\<close>)

interpretation pod_u8: pod "\<lambda>_ :: u8. True" 1 to_le_bytes from_le_bytes
  by (rule pod_word) simp

interpretation pod_u16: pod "\<lambda>_ :: u16. True" 2 to_le_bytes from_le_bytes
  by (rule pod_word) simp

interpretation pod_u32: pod "\<lambda>_ :: u32. True" 4 to_le_bytes from_le_bytes
  by (rule pod_word) simp

interpretation pod_u64: pod "\<lambda>_ :: u64. True" 8 to_le_bytes from_le_bytes
  by (rule pod_word) simp

interpretation pod_u128: pod "\<lambda>_ :: u128. True" 16 to_le_bytes from_le_bytes
  by (rule pod_word) simp

fun array_to_bytes :: "('a \<Rightarrow> u8 list) \<Rightarrow> 'a list \<Rightarrow> u8 list" where
  "array_to_bytes tb xs = concat (map tb xs)"

primrec array_from_bytes :: "nat \<Rightarrow> (u8 list \<Rightarrow> 'a) \<Rightarrow> nat \<Rightarrow> u8 list \<Rightarrow> 'a list" where
  "array_from_bytes sz fb 0 bs = []"
| "array_from_bytes sz fb (Suc n) bs = fb (take sz bs) # array_from_bytes sz fb n (drop sz bs)"

context pod
begin

lemma length_array_to_bytes:
  "list_all valid xs \<Longrightarrow> length (array_to_bytes to_bytes xs) = length xs * size_of"
  by (induction xs) (auto simp: length_to_bytes)

lemma array_from_to_bytes:
  "list_all valid xs \<Longrightarrow>
   array_from_bytes size_of from_bytes (length xs) (array_to_bytes to_bytes xs) = xs"
  by (induction xs) (auto simp: length_to_bytes from_to_bytes)

lemma array_to_from_bytes:
  "length bs = n * size_of \<Longrightarrow>
   array_to_bytes to_bytes (array_from_bytes size_of from_bytes n bs) = bs"
  by (induction n arbitrary: bs) (auto simp: to_from_bytes)

lemma array_from_bytes_valid:
  "length bs = n * size_of \<Longrightarrow>
   length (array_from_bytes size_of from_bytes n bs) = n \<and>
   list_all valid (array_from_bytes size_of from_bytes n bs)"
  by (induction n arbitrary: bs) (auto simp: valid_from_bytes)

lemma pod_array:
  "pod (\<lambda>xs. length xs = n \<and> list_all valid xs) (n * size_of)
     (array_to_bytes to_bytes) (array_from_bytes size_of from_bytes n)"
  by unfold_locales
     (use length_array_to_bytes array_from_to_bytes array_to_from_bytes array_from_bytes_valid
      in auto)

end

interpretation pod_unit: pod "\<lambda>_ :: unit. True" 0 "\<lambda>_. []" "\<lambda>_. ()"
  by unfold_locales auto

interpretation pod_u32_array: pod "\<lambda>xs :: u32 list. length xs = n \<and> list_all (\<lambda>_. True) xs" "n * 4"
    "array_to_bytes to_le_bytes" "array_from_bytes 4 from_le_bytes n" for n
  by (rule pod_u32.pod_array)

section \<open>Properties\<close>

text \<open>
  C28: the payload copies of \<^verbatim>\<open>atomic-slots\<close> copy exactly the payload and touch nothing else.  Every access that
  \<^verbatim>\<open>store_payload\<close> and \<^verbatim>\<open>load_payload\<close> make to the shared slot is naturally aligned, at most eight bytes wide and inside the
  payload, whatever its size, and together they touch every byte of the payload once, in ascending order.
\<close>

theorem store_payload_in_bounds:
  assumes "sz \<le> length dst" and "sz \<le> length src"
  shows "\<exists>as. store_payload_on (dst, []) src sz = (take sz src @ drop sz dst, as) \<and>
    load_payload_on dst (src, []) sz = (take sz src @ drop sz dst, src, as) \<and>
    (\<forall>(off, w) \<in> set as. off + w \<le> sz \<and> w dvd off \<and> w \<in> {1, 2, 4, 8}) \<and>
    concat (map (\<lambda>(off, w). [off..<off + w]) as) = [0..<sz]"
  using assms tiles_accesses [OF payload_tiles] tiles_bytes [OF payload_tiles]
  by (auto simp: store_payload_on_eq load_payload_on_eq copy_payload)

theorem store_payload_in_bounds_witness:
  "store_payload_on (replicate 16 0, []) (map of_nat [1..<12]) 11 =
     (map of_nat [1..<12] @ replicate 5 0, [(0, 8), (8, 2), (10, 1)])"
proof -
  have "fst (store_payload_on (replicate 16 0, []) (map of_nat [1..<12]) 11) =
      take 11 (map of_nat [1..<12]) @ drop 11 (replicate 16 0)"
    using store_payload_in_bounds [of 11 "replicate 16 0" "map of_nat [1..<12]"] by auto
  moreover have "snd (store_payload_on (replicate 16 0, []) (map of_nat [1..<12]) 11) = [(0, 8), (8, 2), (10, 1)]"
    by (simp add: store_payload_on_eq stripe_plan.simps)
  ultimately show ?thesis by (simp add: prod_eq_iff upt_rec)
qed

text \<open>
  C15: for every \<^verbatim>\<open>Pod\<close> type the \<^verbatim>\<open>atomic-slots\<close> slot refines the volatile slot: writing the
  bytes of a value and then decoding is writing the value, and a read of the bytes decodes to
  the read of the value, with the same stamps and the same error.
\<close>

theorem atomic_slot_refines_volatile:
  assumes "pod valid size_of to_bytes from_bytes"
    and "length (slot_value s) = size_of" and "length buf = size_of" and "valid v"
  shows "decode_slot from_bytes (Slot_write_atomic s seq (to_bytes v)) =
           Slot_write (decode_slot from_bytes s) seq v
       \<and> map_sum id (map_option from_bytes) (Slot_try_read_atomic buf s seq) =
           Slot_try_read (decode_slot from_bytes s) seq"
  using pod.decode_write(1) [OF assms(1,2,4)] pod.decode_try_read [OF assms(1-3)] by blast

theorem atomic_slot_refines_volatile_witness:
  "decode_slot from_le_bytes
       (Slot_write_atomic (Slot_new (replicate 8 0)) 3 (to_le_bytes (77 :: u64))) =
     Slot_write (decode_slot from_le_bytes (Slot_new (replicate 8 0))) 3 (77 :: u64)"
  using atomic_slot_refines_volatile [OF pod_u64.pod_axioms, where s = "Slot_new (replicate 8 0)" and
      buf = "replicate 8 0" and v = 77 and seq = 3]
  by (simp add: Slot_new_def)

end
