(* ===== verification/Shared_Ring.thy ===== *)
theory Shared_Ring
  imports Slot
begin

text \<open>
  \<^verbatim>\<open>SharedRing\<close> and the subscriber trackers of \<^verbatim>\<open>src/src/ring.rs\<close>.

  A tracker is an \<^verbatim>\<open>Arc<Padded<AtomicU64>>\<close>: a cell of a heap that the ring, its subscribers
  and dependency barriers share.  The heap is a list of cells and an address is a position in
  it; a cell keeps its value and its number of strong references, and a \<^verbatim>\<open>Weak\<close> to it can be
  upgraded as long as that number is positive.
\<close>

section \<open>The tracker heap\<close>

record arc_cell =
  arc_strong :: nat
  arc_value :: u64

type_synonym addr = nat
type_synonym heap = "arc_cell list"

definition arc_new :: "heap \<Rightarrow> u64 \<Rightarrow> addr \<times> heap" where
  "arc_new h v = (length h, h @ [\<lparr>arc_strong = 1, arc_value = v\<rparr>])"

definition arc_clone :: "heap \<Rightarrow> addr \<Rightarrow> heap" where
  "arc_clone h a = h[a := (h ! a)\<lparr>arc_strong := arc_strong (h ! a) + 1\<rparr>]"

definition arc_drop :: "heap \<Rightarrow> addr \<Rightarrow> heap" where
  "arc_drop h a = h[a := (h ! a)\<lparr>arc_strong := arc_strong (h ! a) - 1\<rparr>]"

definition arc_store :: "heap \<Rightarrow> addr \<Rightarrow> u64 \<Rightarrow> heap" where
  "arc_store h a v = h[a := (h ! a)\<lparr>arc_value := v\<rparr>]"

definition weak_upgrade :: "heap \<Rightarrow> addr \<Rightarrow> u64 option" where
  "weak_upgrade h a =
     (if a < length h \<and> arc_strong (h ! a) > 0 then Some (arc_value (h ! a)) else None)"

section \<open>The ring\<close>

record backpressure_state =
  bp_watermark :: u64
  bp_trackers :: "addr list"

record 'a shared_ring =
  sr_slots :: "'a slot list"
  sr_index :: ring_index
  sr_cursor :: u64
  sr_backpressure :: "backpressure_state option"
  sr_next_seq :: "u64 option"

definition SharedRing_new :: "'a \<Rightarrow> usize \<Rightarrow> 'a shared_ring may_panic" where
  "SharedRing_new uninit capacity =
     (case RingIndex_new capacity of
        Inl e \<Rightarrow> Inl e
      | Inr index \<Rightarrow>
          Inr \<lparr>sr_slots = map (\<lambda>_. Slot_new uninit) [0..<unat capacity],
               sr_index = index,
               sr_cursor = u64_max,
               sr_backpressure = None,
               sr_next_seq = None\<rparr>)"

definition SharedRing_new_bounded :: "'a \<Rightarrow> usize \<Rightarrow> usize \<Rightarrow> 'a shared_ring may_panic" where
  "SharedRing_new_bounded uninit capacity watermark =
     (if \<not> capacity \<ge> 2 then Inl CapacityTooSmall
      else if \<not> watermark < capacity then Inl WatermarkTooLarge
      else case RingIndex_new capacity of
        Inl e \<Rightarrow> Inl e
      | Inr index \<Rightarrow>
          Inr \<lparr>sr_slots = map (\<lambda>_. Slot_new uninit) [0..<unat capacity],
               sr_index = index,
               sr_cursor = u64_max,
               sr_backpressure = Some \<lparr>bp_watermark = watermark, bp_trackers = []\<rparr>,
               sr_next_seq = None\<rparr>)"

definition SharedRing_new_mpmc :: "'a \<Rightarrow> usize \<Rightarrow> 'a shared_ring may_panic" where
  "SharedRing_new_mpmc uninit capacity =
     (case RingIndex_new capacity of
        Inl e \<Rightarrow> Inl e
      | Inr index \<Rightarrow>
          Inr \<lparr>sr_slots = map (\<lambda>_. Slot_new uninit) [0..<unat capacity],
               sr_index = index,
               sr_cursor = u64_max,
               sr_backpressure = None,
               sr_next_seq = Some 0\<rparr>)"

definition SharedRing_capacity :: "'a shared_ring \<Rightarrow> u64" where
  "SharedRing_capacity r = ri_capacity (sr_index r)"

definition SharedRing_slots_byte_len :: "nat \<Rightarrow> 'a shared_ring \<Rightarrow> usize" where
  "SharedRing_slots_byte_len size_of_slot r = of_nat (length (sr_slots r)) * of_nat size_of_slot"

section \<open>Tracker registration and the slowest-cursor scan\<close>

definition SharedRing_register_tracker ::
    "'a shared_ring \<Rightarrow> heap \<Rightarrow> u64 \<Rightarrow> addr option \<times> 'a shared_ring \<times> heap" where
  "SharedRing_register_tracker r h initial =
     (case sr_backpressure r of
        None \<Rightarrow> (None, r, h)
      | Some bp \<Rightarrow>
          let (tracker, h') = arc_new h initial
          in (Some tracker,
              r\<lparr>sr_backpressure := Some (bp\<lparr>bp_trackers := bp_trackers bp @ [tracker]\<rparr>)\<rparr>, h'))"

definition SharedRing_register_tracker_at_head ::
    "'a shared_ring \<Rightarrow> heap \<Rightarrow> u64 \<times> addr option \<times> 'a shared_ring \<times> heap" where
  "SharedRing_register_tracker_at_head r h =
     (case sr_backpressure r of
        None \<Rightarrow>
          let head = sr_cursor r
          in (if head = u64_max then 0 else head + 1, None, r, h)
      | Some bp \<Rightarrow>
          let head = sr_cursor r;
              start = (if head = u64_max then 0 else head + 1);
              (tracker, h') = arc_new h start
          in (start, Some tracker,
              r\<lparr>sr_backpressure := Some (bp\<lparr>bp_trackers := bp_trackers bp @ [tracker]\<rparr>)\<rparr>, h'))"

text \<open>The \<^verbatim>\<open>retain\<close> closure: the running minimum, whether a live tracker was seen, and the
  trackers that stay.\<close>

fun scan_trackers :: "heap \<Rightarrow> addr list \<Rightarrow> u64 \<Rightarrow> bool \<Rightarrow> u64 \<times> bool \<times> addr list" where
  "scan_trackers h [] mn has_live = (mn, has_live, [])"
| "scan_trackers h (weak # ws) mn has_live =
     (case weak_upgrade h weak of
        Some val \<Rightarrow>
          let mn' = (if val < mn then val else mn);
              (m, l, kept) = scan_trackers h ws mn' True
          in (m, l, weak # kept)
      | None \<Rightarrow> scan_trackers h ws mn has_live)"

definition SharedRing_slowest_cursor :: "'a shared_ring \<Rightarrow> heap \<Rightarrow> u64 option \<times> 'a shared_ring" where
  "SharedRing_slowest_cursor r h =
     (case sr_backpressure r of
        None \<Rightarrow> (None, r)
      | Some bp \<Rightarrow>
          let (mn, has_live, kept) = scan_trackers h (bp_trackers bp) u64_max False;
              r' = r\<lparr>sr_backpressure := Some (bp\<lparr>bp_trackers := kept\<rparr>)\<rparr>
          in (if has_live then Some mn else None, r'))"

section \<open>The scan computes the minimum over the live trackers\<close>

definition live :: "heap \<Rightarrow> addr list \<Rightarrow> addr list" where
  "live h ws = filter (\<lambda>a. weak_upgrade h a \<noteq> None) ws"

definition tracker_value :: "heap \<Rightarrow> addr \<Rightarrow> nat" where
  "tracker_value h a = unat (arc_value (h ! a))"

lemma weak_upgrade_Some: "weak_upgrade h a = Some v \<Longrightarrow> v = arc_value (h ! a)"
  by (auto simp: weak_upgrade_def split: if_splits)

lemma scan_trackers_spec:
  "scan_trackers h ws mn b = (m, l, kept) \<Longrightarrow>
     kept = live h ws \<and> (l \<longleftrightarrow> b \<or> live h ws \<noteq> []) \<and> unat m \<le> unat mn \<and>
     (\<forall>a \<in> set (live h ws). unat m \<le> tracker_value h a) \<and>
     (m = mn \<or> (\<exists>a \<in> set (live h ws). unat m = tracker_value h a))"
proof (induction ws arbitrary: mn b m l kept)
  case Nil
  then show ?case by (simp add: live_def)
next
  case (Cons w ws)
  show ?case
  proof (cases "weak_upgrade h w")
    case None
    with Cons.prems have rec: "scan_trackers h ws mn b = (m, l, kept)" by simp
    have "live h (w # ws) = live h ws" using None by (simp add: live_def)
    then show ?thesis using Cons.IH [OF rec] by simp
  next
    case (Some v)
    then have v: "v = arc_value (h ! w)" by (rule weak_upgrade_Some)
    let ?mn = "if v < mn then v else mn"
    from Cons.prems Some obtain kept' where
      k: "kept = w # kept'" and rec: "scan_trackers h ws ?mn True = (m, l, kept')"
      by (auto simp: Let_def split: prod.splits)
    have "live h (w # ws) = w # live h ws" using Some by (simp add: live_def)
    then show ?thesis using Cons.IH [OF rec] k v
      by (auto simp: tracker_value_def word_less_nat_alt split: if_splits)
  qed
qed

lemma slowest_cursor_Some:
  assumes "SharedRing_slowest_cursor r h = (Some m, r')" and "sr_backpressure r = Some bp"
  shows "r' = r\<lparr>sr_backpressure := Some (bp\<lparr>bp_trackers := live h (bp_trackers bp)\<rparr>)\<rparr>"
    and "live h (bp_trackers bp) \<noteq> []"
    and "\<forall>a \<in> set (live h (bp_trackers bp)). unat m \<le> tracker_value h a"
    and "\<exists>a \<in> set (live h (bp_trackers bp)). unat m = tracker_value h a"
proof -
  obtain mn l kept where sc: "scan_trackers h (bp_trackers bp) u64_max False = (mn, l, kept)"
    by (metis prod_cases3)
  from assms sc have l: "l" and m: "mn = m" and
      r': "r' = r\<lparr>sr_backpressure := Some (bp\<lparr>bp_trackers := kept\<rparr>)\<rparr>"
    by (auto simp: SharedRing_slowest_cursor_def split: if_splits)
  note spec = scan_trackers_spec [OF sc]
  show "r' = r\<lparr>sr_backpressure := Some (bp\<lparr>bp_trackers := live h (bp_trackers bp)\<rparr>)\<rparr>"
    using r' spec by simp
  show ne: "live h (bp_trackers bp) \<noteq> []" using l spec by simp
  show lb: "\<forall>a \<in> set (live h (bp_trackers bp)). unat m \<le> tracker_value h a"
    using spec m by simp
  show "\<exists>a \<in> set (live h (bp_trackers bp)). unat m = tracker_value h a"
  proof (cases "m = u64_max")
    case True
    obtain a where a: "a \<in> set (live h (bp_trackers bp))" using ne by (cases "live h (bp_trackers bp)") auto
    then have "2 ^ 64 - 1 \<le> tracker_value h a" using lb True by auto
    then show ?thesis using a True unat_u64_le [of "arc_value (h ! a)"]
      by (auto simp: tracker_value_def intro!: bexI [of _ a])
  next
    case False
    then show ?thesis using spec m by auto
  qed
qed

lemma slowest_cursor_None:
  assumes "SharedRing_slowest_cursor r h = (None, r')" and "sr_backpressure r = Some bp"
  shows "r' = r\<lparr>sr_backpressure := Some (bp\<lparr>bp_trackers := []\<rparr>)\<rparr>"
    and "live h (bp_trackers bp) = []"
proof -
  obtain mn l kept where sc: "scan_trackers h (bp_trackers bp) u64_max False = (mn, l, kept)"
    by (metis prod_cases3)
  from assms sc have "\<not> l" and "r' = r\<lparr>sr_backpressure := Some (bp\<lparr>bp_trackers := kept\<rparr>)\<rparr>"
    by (auto simp: SharedRing_slowest_cursor_def split: if_splits)
  then show "r' = r\<lparr>sr_backpressure := Some (bp\<lparr>bp_trackers := []\<rparr>)\<rparr>"
    and "live h (bp_trackers bp) = []"
    using scan_trackers_spec [OF sc] by auto
qed

lemma slowest_cursor_frame [ring_frame]:
  "sr_slots (snd (SharedRing_slowest_cursor r h)) = sr_slots r"
  "sr_index (snd (SharedRing_slowest_cursor r h)) = sr_index r"
  "sr_cursor (snd (SharedRing_slowest_cursor r h)) = sr_cursor r"
  "sr_next_seq (snd (SharedRing_slowest_cursor r h)) = sr_next_seq r"
  by (auto simp: SharedRing_slowest_cursor_def Let_def split: option.splits prod.splits)

end
