(* ===== verification/Publisher.thy ===== *)
theory Publisher
  imports Shared_Ring
begin

text \<open>
  The single-producer write side: \<^verbatim>\<open>src/src/channel/publisher.rs\<close>, the error type
  \<^verbatim>\<open>PublishError\<close> and the SPMC constructors of \<^verbatim>\<open>src/src/channel/constructors.rs\<close>.

  A \<^verbatim>\<open>Publisher\<close> owns its sequence number and its cached slowest cursor; the ring it points to
  and the tracker heap are shared and passed explicitly, as a pair \<open>'a mem\<close>.  The cached raw
  pointers \<^verbatim>\<open>slots_ptr\<close> and \<^verbatim>\<open>cursor_ptr\<close> alias the ring.

  A loop that spins is given the interference of the other threads: a list of functions on the
  shared memory, one for each time round the loop.  The result is \<open>None\<close> when the list ends
  while the loop is still spinning.
\<close>

section \<open>State\<close>

datatype 'a publish_error = Full 'a

record publisher =
  pb_index :: ring_index
  pb_seq :: u64
  pb_cached_slowest :: u64
  pb_has_backpressure :: bool

type_synonym 'a mem = "'a shared_ring \<times> heap"
type_synonym 'a interference = "('a mem \<Rightarrow> 'a mem) list"

text \<open>The next step of the other threads; an exhausted list means that nothing more happens.\<close>

fun interfere :: "'a interference \<Rightarrow> 'a mem \<Rightarrow> 'a mem \<times> 'a interference" where
  "interfere [] m = (m, [])"
| "interfere (e # es) m = (e m, es)"

section \<open>Constructors\<close>

definition make_publisher :: "'a shared_ring \<Rightarrow> publisher" where
  "make_publisher r =
     \<lparr>pb_index = sr_index r, pb_seq = 0, pb_cached_slowest = 0,
      pb_has_backpressure = (sr_backpressure r \<noteq> None)\<rparr>"

definition channel :: "'a \<Rightarrow> usize \<Rightarrow> (publisher \<times> 'a shared_ring) may_panic" where
  "channel uninit capacity =
     (case SharedRing_new uninit capacity of
        Inl e \<Rightarrow> Inl e
      | Inr ring \<Rightarrow> Inr (make_publisher ring, ring))"

definition channel_bounded ::
    "'a \<Rightarrow> usize \<Rightarrow> usize \<Rightarrow> (publisher \<times> 'a shared_ring) may_panic" where
  "channel_bounded uninit capacity watermark =
     (case SharedRing_new_bounded uninit capacity watermark of
        Inl e \<Rightarrow> Inl e
      | Inr ring \<Rightarrow> Inr (make_publisher ring, ring))"

section \<open>Operations\<close>

definition Publisher_has_room ::
    "publisher \<Rightarrow> 'a shared_ring \<Rightarrow> heap \<Rightarrow> bool \<times> publisher \<times> 'a shared_ring" where
  "Publisher_has_room p r h =
     (case sr_backpressure r of
        None \<Rightarrow> (True, p, r)
      | Some bp \<Rightarrow>
          let effective = SharedRing_capacity r - bp_watermark bp
          in if pb_seq p \<ge> pb_cached_slowest p + effective
             then (case SharedRing_slowest_cursor r h of
                     (Some slowest, r') \<Rightarrow>
                       let p' = p\<lparr>pb_cached_slowest := slowest\<rparr>
                       in if pb_seq p \<ge> slowest + effective then (False, p', r') else (True, p', r')
                   | (None, r') \<Rightarrow> (True, p, r'))
             else (True, p, r))"

definition Publisher_publish_unchecked ::
    "publisher \<Rightarrow> 'a shared_ring \<Rightarrow> 'a \<Rightarrow> publisher \<times> 'a shared_ring" where
  "Publisher_publish_unchecked p r v =
     (let i = unat (RingIndex_slot (pb_index p) (pb_seq p));
          r1 = r\<lparr>sr_slots := (sr_slots r)[i := Slot_write (sr_slots r ! i) (pb_seq p) v]\<rparr>;
          r2 = r1\<lparr>sr_cursor := pb_seq p\<rparr>
      in (p\<lparr>pb_seq := pb_seq p + 1\<rparr>, r2))"

definition Publisher_try_publish ::
    "publisher \<Rightarrow> 'a shared_ring \<Rightarrow> heap \<Rightarrow> 'a \<Rightarrow>
     ('a publish_error + unit) \<times> publisher \<times> 'a shared_ring" where
  "Publisher_try_publish p r h v =
     (case Publisher_has_room p r h of
        (False, p', r') \<Rightarrow> (Inl (Full v), p', r')
      | (True, p', r') \<Rightarrow>
          let (p'', r'') = Publisher_publish_unchecked p' r' v in (Inr (), p'', r''))"

fun wait_for_room ::
    "'a interference \<Rightarrow> publisher \<Rightarrow> 'a mem \<Rightarrow> (publisher \<times> 'a mem \<times> 'a interference) option" where
  "wait_for_room es p (r, h) =
     (case Publisher_has_room p r h of
        (True, p', r') \<Rightarrow> Some (p', (r', h), es)
      | (False, p', r') \<Rightarrow>
          (case es of [] \<Rightarrow> None | e # es' \<Rightarrow> wait_for_room es' p' (e (r', h))))"

definition Publisher_wait_for_backpressure ::
    "'a interference \<Rightarrow> publisher \<Rightarrow> 'a mem \<Rightarrow> (publisher \<times> 'a mem \<times> 'a interference) option" where
  "Publisher_wait_for_backpressure es p m =
     (if \<not> pb_has_backpressure p then Some (p, m, es) else wait_for_room es p m)"

text \<open>The closure runs inside \<^verbatim>\<open>Slot::write_with\<close>, before the slot is touched: if it panics, the
  cursor and the sequence number stay as they are.\<close>

definition Publisher_publish_with ::
    "'a interference \<Rightarrow> publisher \<Rightarrow> 'a mem \<Rightarrow> 'a may_panic \<Rightarrow>
     (unit may_panic \<times> publisher \<times> 'a mem \<times> 'a interference) option" where
  "Publisher_publish_with es p m f =
     (case Publisher_wait_for_backpressure es p m of
        None \<Rightarrow> None
      | Some (p', (r', h'), es') \<Rightarrow>
          let i = unat (RingIndex_slot (pb_index p') (pb_seq p'))
          in (case Slot_write_with (sr_slots r' ! i) (pb_seq p') f of
                Inl e \<Rightarrow> Some (Inl e, p', (r', h'), es')
              | Inr sl \<Rightarrow>
                  let r1 = r'\<lparr>sr_slots := (sr_slots r')[i := sl]\<rparr>;
                      r2 = r1\<lparr>sr_cursor := pb_seq p'\<rparr>
                  in Some (Inr (), p'\<lparr>pb_seq := pb_seq p' + 1\<rparr>, (r2, h'), es')))"

fun publish_loop ::
    "'a interference \<Rightarrow> publisher \<Rightarrow> 'a mem \<Rightarrow> 'a \<Rightarrow> (publisher \<times> 'a mem \<times> 'a interference) option" where
  "publish_loop es p (r, h) v =
     (case Publisher_try_publish p r h v of
        (Inr _, p', r') \<Rightarrow> Some (p', (r', h), es)
      | (Inl (Full returned), p', r') \<Rightarrow>
          (case es of [] \<Rightarrow> None | e # es' \<Rightarrow> publish_loop es' p' (e (r', h)) returned))"

definition Publisher_publish ::
    "'a interference \<Rightarrow> publisher \<Rightarrow> 'a mem \<Rightarrow> 'a \<Rightarrow> (publisher \<times> 'a mem \<times> 'a interference) option" where
  "Publisher_publish es p m v =
     (if pb_has_backpressure p then publish_loop es p m v
      else let (p', r') = Publisher_publish_unchecked p (fst m) v in Some (p', (r', snd m), es))"

fun publish_batch_bounded ::
    "'a interference \<Rightarrow> publisher \<Rightarrow> 'a mem \<Rightarrow> 'a list \<Rightarrow>
     (publisher \<times> 'a mem \<times> 'a interference) option" where
  "publish_batch_bounded es p m [] = Some (p, m, es)"
| "publish_batch_bounded es p m (v # vs) =
     (case publish_loop es p m v of
        None \<Rightarrow> None
      | Some (p', m', es') \<Rightarrow> publish_batch_bounded es' p' m' vs)"

fun publish_batch_lossy ::
    "publisher \<Rightarrow> 'a shared_ring \<Rightarrow> 'a list \<Rightarrow> publisher \<times> 'a shared_ring" where
  "publish_batch_lossy p r [] = (p, r)"
| "publish_batch_lossy p r (v # vs) =
     (let (p', r') = Publisher_publish_unchecked p r v in publish_batch_lossy p' r' vs)"

definition Publisher_publish_batch ::
    "'a interference \<Rightarrow> publisher \<Rightarrow> 'a mem \<Rightarrow> 'a list \<Rightarrow>
     (publisher \<times> 'a mem \<times> 'a interference) option" where
  "Publisher_publish_batch es p m values =
     (if values = [] then Some (p, m, es)
      else if pb_has_backpressure p then publish_batch_bounded es p m values
      else let (p', r') = publish_batch_lossy p (fst m) values in Some (p', (r', snd m), es))"

definition Publisher_published :: "publisher \<Rightarrow> u64" where
  "Publisher_published p = pb_seq p"

definition Publisher_capacity :: "'a shared_ring \<Rightarrow> u64" where
  "Publisher_capacity r = SharedRing_capacity r"

section \<open>The published log\<close>

text \<open>
  \<open>ring_log r log\<close>: the ring holds the last messages of \<open>log\<close>, the list of everything
  published so far.  Slot \<open>i\<close> carries the stamp and the value of the newest message whose
  sequence number is \<open>i\<close> modulo the capacity, and stamp zero if there is none.
\<close>

abbreviation cap :: "'a shared_ring \<Rightarrow> nat" where
  "cap r \<equiv> unat (ri_capacity (sr_index r))"

definition ring_log :: "'a shared_ring \<Rightarrow> 'a list \<Rightarrow> bool" where
  "ring_log r log \<longleftrightarrow>
     ring_index_ok (sr_index r) \<and>
     length (sr_slots r) = cap r \<and>
     (\<forall>i < cap r. length log \<le> i \<longrightarrow> slot_stamp (sr_slots r ! i) = 0) \<and>
     (\<forall>s < length log. length log \<le> s + cap r \<longrightarrow>
        unat (slot_stamp (sr_slots r ! (s mod cap r))) = 2 * s + 2 \<and>
        slot_value (sr_slots r ! (s mod cap r)) = log ! s) \<and>
     (if log = [] then sr_cursor r = u64_max else unat (sr_cursor r) = length log - 1)"

text \<open>Stamps stay unambiguous up to this many messages: \<^verbatim>\<open>seq * 2 + 2\<close> does not wrap.\<close>

definition log_fits :: "'a list \<Rightarrow> bool" where
  "log_fits log \<longleftrightarrow> length log < 2 ^ 63 - 1"

definition publisher_log :: "publisher \<Rightarrow> 'a shared_ring \<Rightarrow> 'a list \<Rightarrow> bool" where
  "publisher_log p r log \<longleftrightarrow>
     pb_index p = sr_index r \<and> unat (pb_seq p) = length log \<and>
     (pb_has_backpressure p \<longleftrightarrow> sr_backpressure r \<noteq> None)"

lemma ring_log_cap: "ring_log r log \<Longrightarrow> 2 \<le> cap r"
  by (auto simp: ring_log_def dest: ring_index_ok_capacity)

lemma ring_log_slot:
  assumes "ring_log r log" "s < length log" "length log \<le> s + cap r"
  shows "unat (slot_stamp (sr_slots r ! (s mod cap r))) = 2 * s + 2"
    and "slot_value (sr_slots r ! (s mod cap r)) = log ! s"
  using assms by (auto simp: ring_log_def)

lemma ring_log_publish:
  assumes r: "ring_log r log" and p: "publisher_log p r log" and fits: "log_fits log"
    and pub: "Publisher_publish_unchecked p r v = (p', r')"
  shows "ring_log r' (log @ [v])" and "publisher_log p' r' (log @ [v])"
proof -
  let ?c = "cap r" and ?n = "length log"
  let ?sl = "Slot_write (sr_slots r ! (?n mod ?c)) (pb_seq p) v"
  have ok: "ring_index_ok (sr_index r)" and len: "length (sr_slots r) = ?c"
    using r by (auto simp: ring_log_def)
  have c: "2 \<le> ?c" using ok by (rule ring_index_ok_capacity)
  have n: "unat (pb_seq p) = ?n" and ix: "pb_index p = sr_index r"
    using p by (auto simp: publisher_log_def)
  have idx: "unat (RingIndex_slot (pb_index p) (pb_seq p)) = ?n mod ?c"
    using ok by (simp add: ix ring_slot_mod n)
  have bound: "?n < 2 ^ 63 - 1" using fits by (simp add: log_fits_def)
  have r': "r' = r\<lparr>sr_slots := (sr_slots r)[?n mod ?c := ?sl], sr_cursor := pb_seq p\<rparr>"
    and p': "p' = p\<lparr>pb_seq := pb_seq p + 1\<rparr>"
    using pub by (simp_all add: Publisher_publish_unchecked_def Let_def idx)
  have sl: "unat (slot_stamp ?sl) = 2 * ?n + 2" "slot_value ?sl = v"
    using bound n by (simp_all add: Slot_write_def Let_def unat_u64_stamp_done)
  have others: "unat (slot_stamp (sr_slots r' ! (s mod ?c))) = 2 * s + 2 \<and>
      slot_value (sr_slots r' ! (s mod ?c)) = (log @ [v]) ! s"
    if s: "s < length (log @ [v])" "length (log @ [v]) \<le> s + ?c" for s
  proof (cases "s = ?n")
    case True
    then show ?thesis using sl len c by (simp add: r')
  next
    case False
    then have s': "s < ?n" "?n \<le> s + ?c" using s by auto
    have "s mod ?c \<noteq> ?n mod ?c"
      using same_residue_gap [of s ?c ?n] s s' by auto
    then show ?thesis using ring_log_slot [OF r s'] s' by (simp add: r' nth_append)
  qed
  have empty: "slot_stamp (sr_slots r' ! i) = 0" if "i < ?c" "length (log @ [v]) \<le> i" for i
    using that r by (auto simp: r' ring_log_def)
  show "ring_log r' (log @ [v])"
    using ok len others empty n by (simp add: ring_log_def r')
  show "publisher_log p' r' (log @ [v])"
    using n p bound by (simp add: publisher_log_def p' r' unat_u64_Suc)
qed

lemma publish_unchecked_frame [ring_frame]:
  "sr_index (snd (Publisher_publish_unchecked p r v)) = sr_index r"
  "sr_backpressure (snd (Publisher_publish_unchecked p r v)) = sr_backpressure r"
  "sr_next_seq (snd (Publisher_publish_unchecked p r v)) = sr_next_seq r"
  by (simp_all add: Publisher_publish_unchecked_def Let_def)

declare wait_for_room.simps [simp del] publish_loop.simps [simp del]

section \<open>Fresh channels and batches\<close>

lemma ring_log_fresh:
  assumes "ring_index_ok ri" and "c = ri_capacity ri"
  shows "ring_log \<lparr>sr_slots = map (\<lambda>_. Slot_new u) [0..<unat c], sr_index = ri,
           sr_cursor = u64_max, sr_backpressure = bp, sr_next_seq = ns\<rparr> []"
  using assms by (simp add: ring_log_def Slot_new_def)

lemma channel_log:
  assumes "channel u c = Inr (p, r)"
  shows "ring_log r []" and "publisher_log p r []" and "cap r = unat c"
    and "sr_backpressure r = None" and "pb_cached_slowest p = 0"
proof -
  obtain ri where ri: "RingIndex_new c = Inr ri" and r: "SharedRing_new u c = Inr r"
    using assms by (auto simp: channel_def SharedRing_new_def split: sum.splits)
  have p: "p = make_publisher r" using assms r by (simp add: channel_def)
  note ok = RingIndex_new_Inr [OF ri]
  show "ring_log r []" using r ri ok ring_log_fresh [of ri c u] by (auto simp: SharedRing_new_def)
  show "publisher_log p r []" by (simp add: p make_publisher_def publisher_log_def)
  show "cap r = unat c" "sr_backpressure r = None" using r ri ok by (auto simp: SharedRing_new_def)
  show "pb_cached_slowest p = 0" by (simp add: p make_publisher_def)
qed

lemma channel_bounded_log:
  assumes "channel_bounded u c w = Inr (p, r)"
  shows "ring_log r []" and "publisher_log p r []" and "cap r = unat c"
    and "sr_backpressure r = Some \<lparr>bp_watermark = w, bp_trackers = []\<rparr>" and "unat w < unat c"
    and "pb_cached_slowest p = 0"
proof -
  obtain ri where ri: "RingIndex_new c = Inr ri" and r: "SharedRing_new_bounded u c w = Inr r"
    and w: "w < c"
    using assms by (auto simp: channel_bounded_def SharedRing_new_bounded_def split: sum.splits if_splits)
  have p: "p = make_publisher r" using assms r by (simp add: channel_bounded_def)
  note ok = RingIndex_new_Inr [OF ri]
  show "ring_log r []" using r ri ok w ring_log_fresh [of ri c u]
    by (auto simp: SharedRing_new_bounded_def split: if_splits)
  show "publisher_log p r []" by (simp add: p make_publisher_def publisher_log_def)
  show "cap r = unat c" "sr_backpressure r = Some \<lparr>bp_watermark = w, bp_trackers = []\<rparr>"
    using r ri ok w by (auto simp: SharedRing_new_bounded_def split: if_splits)
  show "unat w < unat c" using w by (simp add: word_less_nat_alt)
  show "pb_cached_slowest p = 0" by (simp add: p make_publisher_def)
qed

lemma publish_batch_lossy_log:
  assumes "ring_log r log" "publisher_log p r log" "log_fits (log @ vs)"
    and "publish_batch_lossy p r vs = (p', r')"
  shows "ring_log r' (log @ vs) \<and> publisher_log p' r' (log @ vs) \<and>
         sr_index r' = sr_index r \<and> sr_backpressure r' = sr_backpressure r"
  using assms
proof (induction vs arbitrary: p r log)
  case Nil
  then show ?case by simp
next
  case (Cons v vs)
  obtain p1 r1 where 1: "Publisher_publish_unchecked p r v = (p1, r1)" by (metis prod.exhaust)
  have "log_fits log" using Cons.prems(3) by (simp add: log_fits_def)
  note step = ring_log_publish [OF Cons.prems(1,2) this 1]
  have "sr_index r1 = sr_index r" "sr_backpressure r1 = sr_backpressure r"
    using publish_unchecked_frame [of p r v] 1 by auto
  then show ?case using Cons.IH [OF step] Cons.prems(3,4) 1 by simp
qed

end
