(* ===== verification/Wait.thy ===== *)
theory Wait
  imports Photon_Prelude
begin

text \<open>
  \<^verbatim>\<open>src/src/wait.rs\<close>: the strategies of a blocking receive.  A call of \<^verbatim>\<open>wait\<close> changes nothing
  but the processor's pace, so the model of a wait is the list of hint instructions it issues,
  together with the new value of the global cache \<^verbatim>\<open>WAITPKG_SUPPORT\<close>.

  The target architecture is an argument, for the \<^verbatim>\<open>cfg(target_arch)\<close> alternatives; the CPU is
  an argument too: the \<^verbatim>\<open>ecx\<close> word its \<^verbatim>\<open>CPUID\<close> leaf 7 returns and the time-stamp counter.
\<close>

section \<open>Strategies and hints\<close>

datatype wait_strategy =
    BusySpin
  | YieldSpin
  | BackoffSpin
  | Adaptive u32 u32
  | MonitorWaitFallback

datatype target_arch = X86_64 | X86 | Aarch64 | OtherArch

text \<open>The instructions a wait can issue: \<^verbatim>\<open>spin_loop\<close> (\<^verbatim>\<open>PAUSE\<close> or \<^verbatim>\<open>YIELD\<close>), \<^verbatim>\<open>SEVL\<close>, \<^verbatim>\<open>WFE\<close>, and
  \<^verbatim>\<open>TPAUSE\<close> with its control, low and high deadline operands.\<close>

datatype hint = SpinLoop | Sevl | Wfe | Tpause u32 u32 u32

record cpu =
  cpuid_ecx :: u32
  rdtsc :: u64

definition WaitStrategy_default :: wait_strategy where
  "WaitStrategy_default = Adaptive 64 64"

section \<open>WAITPKG detection\<close>

definition has_waitpkg :: "cpu \<Rightarrow> bool" where
  "has_waitpkg c = (cpuid_ecx c AND push_bit 5 1 \<noteq> 0)"

definition waitpkg_supported :: "cpu \<Rightarrow> u8 \<Rightarrow> bool \<times> u8" where
  "waitpkg_supported c cached =
     (if cached \<noteq> 0 then (cached = 2, cached)
      else let supported = has_waitpkg c in (supported, if supported then 2 else 1))"

definition deadline_100us :: "cpu \<Rightarrow> u32 \<times> u32" where
  "deadline_100us c =
     (let deadline = rdtsc c + 300000 in (ucast deadline, ucast (drop_bit 32 deadline)))"

definition tpause :: "cpu \<Rightarrow> u32 \<Rightarrow> hint" where
  "tpause c ctrl = (let (lo, hi) = deadline_100us c in Tpause ctrl lo hi)"

section \<open>One wait iteration\<close>

text \<open>\<^verbatim>\<open>u32::wrapping_shl\<close>: the shift distance is masked to five bits.\<close>

definition u32_wrapping_shl :: "u32 \<Rightarrow> u32 \<Rightarrow> u32" where
  "u32_wrapping_shl a n = push_bit (unat n mod 32) a"

definition WaitStrategy_wait ::
    "target_arch \<Rightarrow> cpu \<Rightarrow> u8 \<Rightarrow> wait_strategy \<Rightarrow> u32 \<Rightarrow> hint list \<times> u8" where
  "WaitStrategy_wait arch c support strategy iter =
     (case strategy of
        BusySpin \<Rightarrow> ([], support)
      | YieldSpin \<Rightarrow> (if arch = Aarch64 then [Sevl, Wfe] else [SpinLoop], support)
      | BackoffSpin \<Rightarrow>
          let pauses = u32_wrapping_shl 1 (min iter 6)
          in (replicate (unat pauses) (if arch = Aarch64 then Wfe else SpinLoop), support)
      | Adaptive spin_iters yield_iters \<Rightarrow>
          if iter < spin_iters then ([], support)
          else if iter < spin_iters + yield_iters then ([SpinLoop], support)
          else (replicate 8 SpinLoop, support)
      | MonitorWaitFallback \<Rightarrow>
          (case arch of
             X86_64 \<Rightarrow>
               let (supported, support') = waitpkg_supported c support
               in (if supported then [tpause c 1] else [SpinLoop], support')
           | Aarch64 \<Rightarrow> ([Sevl, Wfe], support)
           | X86 \<Rightarrow> ([SpinLoop], support)
           | OtherArch \<Rightarrow> ([SpinLoop], support)))"

section \<open>Bounds and phases\<close>

lemma backoff_pauses: "unat (u32_wrapping_shl 1 (min iter 6)) = 2 ^ min (unat iter) 6"
proof -
  have m: "unat (min iter 6) = min (unat iter) 6" by (simp add: min_def word_le_nat_alt)
  have "unat (push_bit n (1 :: u32)) = 2 ^ n" if "n \<in> {0, 1, 2, 3, 4, 5, 6}" for n
    using that by (elim insertE) (simp_all add: push_bit_eq_mult)
  moreover have "min (unat iter) 6 \<in> {0, 1, 2, 3, 4, 5, 6}" by auto
  ultimately have "unat (push_bit (min (unat iter) 6) (1 :: u32)) = 2 ^ min (unat iter) 6" by blast
  then show ?thesis by (simp add: u32_wrapping_shl_def m)
qed

lemma backoff_pauses_le: "2 ^ min n 6 \<le> (64 :: nat)"
  using power_increasing [of "min n 6" 6 "2 :: nat"] by simp

text \<open>The cache never goes back to unknown and always holds what the CPU says.\<close>

definition support_ok :: "cpu \<Rightarrow> u8 \<Rightarrow> bool" where
  "support_ok c support \<longleftrightarrow> support = 0 \<or> support = (if has_waitpkg c then 2 else 1)"

lemma waitpkg_supported_ok:
  "support_ok c s \<Longrightarrow> waitpkg_supported c s = (has_waitpkg c, if has_waitpkg c then 2 else 1)"
  by (auto simp: support_ok_def waitpkg_supported_def Let_def)

lemma wait_support_ok:
  "support_ok c s \<Longrightarrow> support_ok c (snd (WaitStrategy_wait arch c s strategy iter))"
  by (auto simp: WaitStrategy_wait_def waitpkg_supported_ok Let_def split_beta
      split: wait_strategy.splits target_arch.splits) (auto simp: support_ok_def)

lemma wait_hints_le: "length (fst (WaitStrategy_wait arch c s strategy iter)) \<le> 64"
  by (auto simp: WaitStrategy_wait_def backoff_pauses backoff_pauses_le Let_def split_beta
      split: wait_strategy.splits target_arch.splits)

section \<open>Properties\<close>



end
