(* ===== verification/Subscriber.thy ===== *)
theory Subscriber
  imports Publisher Wait
begin

text \<open>
  The read side: \<^verbatim>\<open>src/src/channel/subscriber.rs\<close>, the subscriber factory
  \<^verbatim>\<open>src/src/channel/subscribable.rs\<close> and the error type \<^verbatim>\<open>TryRecvError\<close>.  The gated receives are with the
  dependency barrier in theory \<open>Barrier\<close>.

  A \<^verbatim>\<open>Subscriber\<close> owns its cursor and its counters; its tracker, when it has one, is a cell of
  the shared heap.
\<close>

section \<open>State\<close>

datatype try_recv_error = Empty | Lagged u64

record subscriber =
  sub_index :: ring_index
  sub_cursor :: u64
  sub_tracker :: "addr option"
  sub_total_lagged :: u64
  sub_total_received :: u64

section \<open>Subscribing\<close>

definition Subscribable_subscribe :: "'a mem \<Rightarrow> subscriber \<times> 'a mem" where
  "Subscribable_subscribe m =
     (let (start, tracker, r', h') = SharedRing_register_tracker_at_head (fst m) (snd m)
      in (\<lparr>sub_index = sr_index (fst m), sub_cursor = start, sub_tracker = tracker,
           sub_total_lagged = 0, sub_total_received = 0\<rparr>, (r', h')))"

definition Subscribable_subscribe_lossy :: "'a mem \<Rightarrow> subscriber \<times> 'a mem" where
  "Subscribable_subscribe_lossy m =
     (let head = sr_cursor (fst m);
          start = (if head = u64_max then 0 else head + 1)
      in (\<lparr>sub_index = sr_index (fst m), sub_cursor = start, sub_tracker = None,
           sub_total_lagged = 0, sub_total_received = 0\<rparr>, m))"

definition Subscribable_subscribe_from_oldest :: "'a mem \<Rightarrow> subscriber \<times> 'a mem" where
  "Subscribable_subscribe_from_oldest m =
     (let head = sr_cursor (fst m);
          cp = SharedRing_capacity (fst m);
          start = (if head = u64_max then 0 else if head \<ge> cp then head - cp + 1 else 0);
          (tracker, r', h') = SharedRing_register_tracker (fst m) (snd m) start
      in (\<lparr>sub_index = sr_index (fst m), sub_cursor = start, sub_tracker = tracker,
           sub_total_lagged = 0, sub_total_received = 0\<rparr>, (r', h')))"

definition Subscribable_subscribe_tracked :: "'a mem \<Rightarrow> subscriber \<times> 'a mem" where
  "Subscribable_subscribe_tracked m =
     (let (start, tracker, r', h') = SharedRing_register_tracker_at_head (fst m) (snd m);
          (tracker', h'') = (case tracker of
                               Some t \<Rightarrow> (Some t, h')
                             | None \<Rightarrow> let (t, h2) = arc_new h' start in (Some t, h2))
      in (\<lparr>sub_index = sr_index (fst m), sub_cursor = start, sub_tracker = tracker',
           sub_total_lagged = 0, sub_total_received = 0\<rparr>, (r', h'')))"

section \<open>Receiving\<close>

definition Subscriber_update_tracker :: "subscriber \<Rightarrow> heap \<Rightarrow> heap" where
  "Subscriber_update_tracker s h =
     (case sub_tracker s of None \<Rightarrow> h | Some t \<Rightarrow> arc_store h t (sub_cursor s))"

text \<open>The three state changes of a successful read, in the source's order.\<close>

definition take_message :: "subscriber \<Rightarrow> heap \<Rightarrow> subscriber \<times> heap" where
  "take_message s h =
     (let s1 = s\<lparr>sub_cursor := sub_cursor s + 1\<rparr>;
          h1 = Subscriber_update_tracker s1 h
      in (s1\<lparr>sub_total_received := sub_total_received s1 + 1\<rparr>, h1))"

text \<open>The slow path of \<^verbatim>\<open>read_slot\<close>: the slot holds a newer message than the one wanted, and
  the lag is computed from the head cursor.\<close>

definition read_slot_overwritten ::
    "subscriber \<Rightarrow> 'a mem \<Rightarrow> (try_recv_error + 'a) \<times> subscriber \<times> 'a mem" where
  "read_slot_overwritten s m =
     (let head = sr_cursor (fst m);
          cp = SharedRing_capacity (fst m);
          oldest = head - cp + 1
      in if head = u64_max \<or> sub_cursor s > head then (Inl Empty, s, m)
         else if head \<ge> cp \<and> sub_cursor s < oldest
         then
           let skipped = oldest - sub_cursor s;
               s1 = s\<lparr>sub_cursor := oldest\<rparr>;
               h1 = Subscriber_update_tracker s1 (snd m);
               s2 = s1\<lparr>sub_total_lagged := sub_total_lagged s1 + skipped\<rparr>
           in (Inl (Lagged skipped), s2, (fst m, h1))
         else (Inl Empty, s, m))"

definition Subscriber_read_slot ::
    "subscriber \<Rightarrow> 'a mem \<Rightarrow> (try_recv_error + 'a) \<times> subscriber \<times> 'a mem" where
  "Subscriber_read_slot s m =
     (let sl = sr_slots (fst m) ! unat (RingIndex_slot (sub_index s) (sub_cursor s));
          expected = sub_cursor s * 2 + 2
      in case Slot_try_read sl (sub_cursor s) of
           Inr (Some v) \<Rightarrow>
             let (s', h') = take_message s (snd m) in (Inr v, s', (fst m, h'))
         | Inr None \<Rightarrow> (Inl Empty, s, m)
         | Inl actual_stamp \<Rightarrow>
             if actual_stamp AND 1 \<noteq> 0 then (Inl Empty, s, m)
             else if actual_stamp < expected then (Inl Empty, s, m)
             else read_slot_overwritten s m)"

definition Subscriber_try_recv ::
    "subscriber \<Rightarrow> 'a mem \<Rightarrow> (try_recv_error + 'a) \<times> subscriber \<times> 'a mem" where
  "Subscriber_try_recv s m = Subscriber_read_slot s m"

text \<open>Blocking receives. Every time round a loop the other threads may act: the loops take
  one interference step per iteration.\<close>

fun Subscriber_recv_slow ::
    "'a interference \<Rightarrow> subscriber \<Rightarrow> 'a mem \<Rightarrow> ('a \<times> subscriber \<times> 'a mem \<times> 'a interference) option" where
  "Subscriber_recv_slow es s m =
     (case Subscriber_try_recv s m of
        (Inr val, s', m') \<Rightarrow> Some (val, s', m', es)
      | (Inl Empty, s', m') \<Rightarrow>
          (case es of [] \<Rightarrow> None | e # es' \<Rightarrow> Subscriber_recv_slow es' s' (e m'))
      | (Inl (Lagged _), s', m') \<Rightarrow>
          (case es of [] \<Rightarrow> None | e # es' \<Rightarrow> Subscriber_recv_slow es' s' (e m')))"

fun recv_phase2 ::
    "'a interference \<Rightarrow> subscriber \<Rightarrow> 'a mem \<Rightarrow> ('a \<times> subscriber \<times> 'a mem \<times> 'a interference) option" where
  "recv_phase2 es s (r, h) =
     (let sl = sr_slots r ! unat (RingIndex_slot (sub_index s) (sub_cursor s));
          expected = sub_cursor s * 2 + 2
      in case Slot_try_read sl (sub_cursor s) of
           Inr (Some v) \<Rightarrow> let (s', h') = take_message s h in Some (v, s', (r, h'), es)
         | Inr None \<Rightarrow>
             (case es of [] \<Rightarrow> None | e # es' \<Rightarrow> recv_phase2 es' s (e (r, h)))
         | Inl stamp \<Rightarrow>
             if stamp < expected
             then (case es of [] \<Rightarrow> None | e # es' \<Rightarrow> recv_phase2 es' s (e (r, h)))
             else Subscriber_recv_slow es s (r, h))"

fun recv_phase1 ::
    "nat \<Rightarrow> 'a interference \<Rightarrow> subscriber \<Rightarrow> 'a mem \<Rightarrow>
     ('a \<times> subscriber \<times> 'a mem \<times> 'a interference) option" where
  "recv_phase1 0 es s m = recv_phase2 es s m"
| "recv_phase1 (Suc n) es s (r, h) =
     (let sl = sr_slots r ! unat (RingIndex_slot (sub_index s) (sub_cursor s));
          expected = sub_cursor s * 2 + 2
      in case Slot_try_read sl (sub_cursor s) of
           Inr (Some v) \<Rightarrow> let (s', h') = take_message s h in Some (v, s', (r, h'), es)
         | Inr None \<Rightarrow>
             (case es of [] \<Rightarrow> None | e # es' \<Rightarrow> recv_phase1 n es' s (e (r, h)))
         | Inl stamp \<Rightarrow>
             if stamp \<ge> expected then Subscriber_recv_slow es s (r, h)
             else (case es of [] \<Rightarrow> None | e # es' \<Rightarrow> recv_phase1 n es' s (e (r, h))))"

definition Subscriber_recv ::
    "'a interference \<Rightarrow> subscriber \<Rightarrow> 'a mem \<Rightarrow> ('a \<times> subscriber \<times> 'a mem \<times> 'a interference) option" where
  "Subscriber_recv es s m = recv_phase1 64 es s m"

text \<open>\<^verbatim>\<open>recv_with\<close> idles with a \<^verbatim>\<open>WaitStrategy\<close>: the result also lists the hints it issued, in
  order, and the \<^verbatim>\<open>WAITPKG\<close> cache.\<close>

type_synonym 'a idle_result =
  "('a \<times> subscriber \<times> 'a mem \<times> hint list \<times> u8 \<times> 'a interference) option"

definition add_hints :: "hint list \<Rightarrow> 'a idle_result \<Rightarrow> 'a idle_result" where
  "add_hints hs res =
     map_option (\<lambda>(v, s, m, hs', pkg, es). (v, s, m, hs @ hs', pkg, es)) res"

fun Subscriber_recv_with_slow ::
    "target_arch \<Rightarrow> cpu \<Rightarrow> wait_strategy \<Rightarrow> 'a interference \<Rightarrow> u32 \<Rightarrow> u8 \<Rightarrow>
     subscriber \<Rightarrow> 'a mem \<Rightarrow> 'a idle_result" where
  "Subscriber_recv_with_slow arch c strategy es iter pkg s m =
     (case Subscriber_try_recv s m of
        (Inr val, s', m') \<Rightarrow> Some (val, s', m', [], pkg, es)
      | (Inl Empty, s', m') \<Rightarrow>
          let (hs, pkg') = WaitStrategy_wait arch c pkg strategy iter
          in (case es of
                [] \<Rightarrow> None
              | e # es' \<Rightarrow> add_hints hs
                  (Subscriber_recv_with_slow arch c strategy es' (u32_saturating_add iter 1) pkg' s' (e m')))
      | (Inl (Lagged _), s', m') \<Rightarrow>
          (case es of
             [] \<Rightarrow> None
           | e # es' \<Rightarrow> Subscriber_recv_with_slow arch c strategy es' 0 pkg s' (e m')))"

fun recv_with_loop ::
    "target_arch \<Rightarrow> cpu \<Rightarrow> wait_strategy \<Rightarrow> 'a interference \<Rightarrow> u32 \<Rightarrow> u8 \<Rightarrow>
     subscriber \<Rightarrow> 'a mem \<Rightarrow> 'a idle_result" where
  "recv_with_loop arch c strategy es iter pkg s (r, h) =
     (let sl = sr_slots r ! unat (RingIndex_slot (sub_index s) (sub_cursor s));
          expected = sub_cursor s * 2 + 2;
          (hs, pkg') = WaitStrategy_wait arch c pkg strategy iter;
          again = (case es of
                     [] \<Rightarrow> None
                   | e # es' \<Rightarrow> add_hints hs
                       (recv_with_loop arch c strategy es' (u32_saturating_add iter 1) pkg' s (e (r, h))))
      in case Slot_try_read sl (sub_cursor s) of
           Inr (Some v) \<Rightarrow> let (s', h') = take_message s h in Some (v, s', (r, h'), [], pkg, es)
         | Inr None \<Rightarrow> again
         | Inl stamp \<Rightarrow>
             if stamp \<ge> expected then Subscriber_recv_with_slow arch c strategy es 0 pkg s (r, h)
             else again)"

definition Subscriber_recv_with ::
    "target_arch \<Rightarrow> cpu \<Rightarrow> wait_strategy \<Rightarrow> 'a interference \<Rightarrow> u8 \<Rightarrow>
     subscriber \<Rightarrow> 'a mem \<Rightarrow> 'a idle_result" where
  "Subscriber_recv_with arch c strategy es pkg s m = recv_with_loop arch c strategy es 0 pkg s m"

text \<open>\<^verbatim>\<open>latest\<close>: the interference acts between the load of the head and the read of its slot.\<close>

fun Subscriber_latest ::
    "'a interference \<Rightarrow> subscriber \<Rightarrow> 'a mem \<Rightarrow>
     ('a option \<times> subscriber \<times> 'a mem \<times> 'a interference) option" where
  "Subscriber_latest es s m =
     (let head = sr_cursor (fst m)
      in if head = u64_max then Some (None, s, m, es)
         else case es of
           [] \<Rightarrow> None
         | e # es' \<Rightarrow>
             let s1 = s\<lparr>sub_cursor := head\<rparr>
             in case Subscriber_read_slot s1 (e m) of
                  (Inr v, s', m') \<Rightarrow> Some (Some v, s', m', es')
                | (Inl Empty, s', m') \<Rightarrow> Some (None, s', m', es')
                | (Inl (Lagged _), s', m') \<Rightarrow> Subscriber_latest es' s' m')"

section \<open>Observers\<close>

definition Subscriber_pending :: "subscriber \<Rightarrow> 'a shared_ring \<Rightarrow> u64" where
  "Subscriber_pending s r =
     (let head = sr_cursor r
      in if head = u64_max \<or> sub_cursor s > head then 0
         else min (head - sub_cursor s + 1) (SharedRing_capacity r))"

text \<open>The floating-point operations of \<^verbatim>\<open>receive_ratio\<close> are arguments: the conversion from
  \<^verbatim>\<open>u64\<close>, the division and the literal \<^verbatim>\<open>0.0\<close>.\<close>

definition Subscriber_receive_ratio ::
    "(u64 \<Rightarrow> 'f) \<Rightarrow> ('f \<Rightarrow> 'f \<Rightarrow> 'f) \<Rightarrow> 'f \<Rightarrow> subscriber \<Rightarrow> 'f" where
  "Subscriber_receive_ratio as_f64 fdiv fzero s =
     (let total = sub_total_received s + sub_total_lagged s
      in if total = 0 then fzero else fdiv (as_f64 (sub_total_received s)) (as_f64 total))"

section \<open>Batches and draining\<close>

text \<open>\<^verbatim>\<open>recv_batch\<close> fills the buffer from the front; the positions it does not reach keep their
  contents.\<close>

fun recv_batch_loop ::
    "subscriber \<Rightarrow> 'a mem \<Rightarrow> 'a list \<Rightarrow> usize \<times> 'a list \<times> subscriber \<times> 'a mem" where
  "recv_batch_loop s m [] = (0, [], s, m)"
| "recv_batch_loop s m (x # buf) =
     (case Subscriber_try_recv s m of
        (Inr v, s', m') \<Rightarrow>
          let (count, buf', s'', m'') = recv_batch_loop s' m' buf in (count + 1, v # buf', s'', m'')
      | (Inl Empty, s', m') \<Rightarrow> (0, x # buf, s', m')
      | (Inl (Lagged _), s', m') \<Rightarrow>
          (case Subscriber_try_recv s' m' of
             (Inr v, s'', m'') \<Rightarrow>
               let (count, buf', s3, m3) = recv_batch_loop s'' m'' buf in (count + 1, v # buf', s3, m3)
           | (Inl _, s'', m'') \<Rightarrow> (0, x # buf, s'', m'')))"

definition Subscriber_recv_batch ::
    "subscriber \<Rightarrow> 'a mem \<Rightarrow> 'a list \<Rightarrow> usize \<times> 'a list \<times> subscriber \<times> 'a mem" where
  "Subscriber_recv_batch s m buf = recv_batch_loop s m buf"

lemma read_slot_overwritten_lagged:
  assumes "read_slot_overwritten s m = (Inl (Lagged k), s', m')"
  shows "sub_cursor s < sub_cursor s'"
  using assms by (auto simp: read_slot_overwritten_def Let_def split: if_splits)

lemma read_slot_overwritten_not_Inr: "read_slot_overwritten s m \<noteq> (Inr v, s', m')"
  by (simp add: read_slot_overwritten_def Let_def)

lemma read_slot_lagged:
  assumes "Subscriber_read_slot s m = (Inl (Lagged k), s', m')"
  shows "read_slot_overwritten s m = (Inl (Lagged k), s', m')"
  using assms unfolding Subscriber_read_slot_def Let_def
  by (auto simp: take_message_def Let_def split: sum.splits option.splits if_splits)

lemma drain_measure:
  assumes "(Inl (Lagged k), s', m') = Subscriber_read_slot s m"
  shows "unat u64_max - unat (sub_cursor s') < unat u64_max - unat (sub_cursor s)"
  using read_slot_overwritten_lagged [OF read_slot_lagged, of s m k s' m'] assms
    unat_u64_le [of "sub_cursor s'"]
  by (auto simp: word_less_nat_alt)

function Drain_next :: "subscriber \<Rightarrow> 'a mem \<Rightarrow> 'a option \<times> subscriber \<times> 'a mem" where
  "Drain_next s m =
     (case Subscriber_try_recv s m of
        (Inr v, s', m') \<Rightarrow> (Some v, s', m')
      | (Inl Empty, s', m') \<Rightarrow> (None, s', m')
      | (Inl (Lagged _), s', m') \<Rightarrow> Drain_next s' m')"
  by pat_completeness auto
termination
  by (relation "measure (\<lambda>(s, m). unat u64_max - unat (sub_cursor s))")
     (auto simp: Subscriber_try_recv_def dest: drain_measure)

declare Drain_next.simps [simp del] Subscriber_recv_slow.simps [simp del] Subscriber_latest.simps [simp del]
  Subscriber_recv_with_slow.simps [simp del] recv_with_loop.simps [simp del]

section \<open>Dropping a subscriber\<close>

text \<open>\<^verbatim>\<open>Drop for Subscriber\<close> takes the tracker out of the ring's list (\<^verbatim>\<open>Weak::ptr_eq\<close> is equality of
  addresses); then the fields are dropped, and with the tracker one strong reference.\<close>

definition Subscriber_drop :: "subscriber \<Rightarrow> 'a mem \<Rightarrow> 'a mem" where
  "Subscriber_drop s m =
     (case sub_tracker s of
        None \<Rightarrow> m
      | Some t \<Rightarrow>
          let r' = (case sr_backpressure (fst m) of
                      None \<Rightarrow> fst m
                    | Some bp \<Rightarrow>
                        (fst m)\<lparr>sr_backpressure :=
                          Some (bp\<lparr>bp_trackers := filter (\<lambda>w. w \<noteq> t) (bp_trackers bp)\<rparr>)\<rparr>)
          in (r', arc_drop (snd m) t))"

end
