(* ===== verification/Channel_Spec.thy ===== *)
theory Channel_Spec
  imports Subscriber
begin

text \<open>
  What a channel promises, as operations on the list of everything published, and the proof
  that the slot protocol implements it: a receive is determined by the log, the capacity and
  the subscriber's position.
\<close>

section \<open>The newest message of a residue class\<close>

lemma newest_in_class:
  fixes c n k :: nat
  assumes "c < n" "0 < k"
  obtains t where "c \<le> t" "t < n" "n \<le> t + k" "t mod k = c mod k"
proof
  let ?q = "(n - 1 - c) div k"
  let ?t = "c + ?q * k"
  have le: "?q * k \<le> n - 1 - c" by simp
  have ge: "n - 1 - c < ?q * k + k"
    using assms(2) by (metis add.commute dividend_less_div_times)
  show "c \<le> ?t" by simp
  show "?t < n" using le assms by linarith
  show "n \<le> ?t + k" using ge assms by linarith
  show "?t mod k = c mod k" by simp
qed

section \<open>One receive\<close>

text \<open>The abstract receive: position and log in, result and new position out.\<close>

definition spec_recv :: "nat \<Rightarrow> 'a list \<Rightarrow> nat \<Rightarrow> (try_recv_error + 'a) \<times> nat" where
  "spec_recv k log c =
     (if length log \<le> c then (Inl Empty, c)
      else if length log \<le> c + k then (Inr (log ! c), c + 1)
      else (Inl (Lagged (of_nat (length log - k - c))), length log - k))"

definition subscriber_at :: "subscriber \<Rightarrow> 'a shared_ring \<Rightarrow> 'a list \<Rightarrow> bool" where
  "subscriber_at s r log \<longleftrightarrow> sub_index s = sr_index r \<and> unat (sub_cursor s) \<le> length log"

lemma try_read_even:
  assumes "unat (slot_stamp sl) = 2 * t + 2" "unat seq < 2 ^ 63 - 1"
  shows "Slot_try_read sl seq = (if t = unat seq then Inr (Some (slot_value sl)) else Inl (slot_stamp sl))"
proof -
  have "slot_stamp sl = seq * 2 + 2 \<longleftrightarrow> t = unat seq"
    using assms by (auto simp: u64_eq_iff unat_u64_stamp_done)
  moreover have "\<not> slot_stamp sl AND 1 \<noteq> 0"
    using assms by (simp add: u64_odd_iff)
  ultimately show ?thesis by (simp add: Slot_try_read_def try_read_obs_def Let_def)
qed

lemma try_read_never_written:
  assumes "slot_stamp sl = 0" "unat seq < 2 ^ 63 - 1"
  shows "Slot_try_read sl seq = Inl 0"
proof -
  have "seq * 2 + 2 \<noteq> 0" using assms by (simp add: u64_eq_iff unat_u64_stamp_done)
  then show ?thesis using assms by (simp add: Slot_try_read_def try_read_obs_def Let_def)
qed

text \<open>The slot a subscriber looks at, from the log.\<close>

lemma subscriber_slot:
  assumes r: "ring_log r log" and s: "subscriber_at s r log" and fits: "log_fits log"
  defines "c \<equiv> unat (sub_cursor s)" and "n \<equiv> length log"
  defines "sl \<equiv> sr_slots r ! unat (RingIndex_slot (sub_index s) (sub_cursor s))"
  shows "c = n \<Longrightarrow> \<exists>st. Slot_try_read sl (sub_cursor s) = Inl st \<and> even (unat st) \<and> unat st < 2 * c + 2"
    and "c < n \<Longrightarrow> n \<le> c + cap r \<Longrightarrow> Slot_try_read sl (sub_cursor s) = Inr (Some (log ! c))"
    and "c + cap r < n \<Longrightarrow>
          \<exists>st. Slot_try_read sl (sub_cursor s) = Inl st \<and> even (unat st) \<and> 2 * c + 2 < unat st"
proof -
  have ok: "ring_index_ok (sr_index r)" and k: "2 \<le> cap r" using r ring_log_cap
    by (auto simp: ring_log_def)
  have cn: "c \<le> n" and n: "n < 2 ^ 63 - 1" and ix: "sub_index s = sr_index r"
    using s fits by (auto simp: subscriber_at_def log_fits_def c_def n_def)
  have cb: "unat (sub_cursor s) < 2 ^ 63 - 1" using cn n by (simp add: c_def)
  have sl: "sl = sr_slots r ! (c mod cap r)"
    using ok by (simp add: sl_def ix ring_slot_mod c_def)
  show "\<exists>st. Slot_try_read sl (sub_cursor s) = Inl st \<and> even (unat st) \<and> unat st < 2 * c + 2"
    if "c = n"
  proof (cases "n < cap r")
    case True
    then have "slot_stamp sl = 0" using r that by (auto simp: ring_log_def sl n_def)
    then have "Slot_try_read sl (sub_cursor s) = Inl 0"
      using cb by (rule try_read_never_written)
    then show ?thesis by simp
  next
    case False
    let ?t = "n - cap r"
    have "?t mod cap r = c mod cap r" using that False by (simp add: le_mod_geq)
    moreover have "?t < length log" "length log \<le> ?t + cap r" using False k by (auto simp: n_def)
    ultimately have "unat (slot_stamp sl) = 2 * ?t + 2"
      using ring_log_slot(1) [OF r, of ?t] by (simp add: sl)
    then show ?thesis using try_read_even [OF _ cb, of sl ?t] that False k by (auto simp: c_def)
  qed
  show "Slot_try_read sl (sub_cursor s) = Inr (Some (log ! c))" if "c < n" "n \<le> c + cap r"
    using ring_log_slot [OF r, of c] that try_read_even [OF _ cb, of sl c]
    by (simp add: sl n_def c_def)
  show "\<exists>st. Slot_try_read sl (sub_cursor s) = Inl st \<and> even (unat st) \<and> 2 * c + 2 < unat st"
    if lag: "c + cap r < n"
  proof -
    obtain t where t: "c \<le> t" "t < n" "n \<le> t + cap r" "t mod cap r = c mod cap r"
      using newest_in_class [of c n "cap r"] lag k by auto
    then have "unat (slot_stamp sl) = 2 * t + 2"
      using ring_log_slot(1) [OF r, of t] by (simp add: sl n_def)
    then show ?thesis using try_read_even [OF _ cb, of sl t] t lag by (auto simp: c_def)
  qed
qed

lemma expected_stamp:
  "subscriber_at s r log \<Longrightarrow> log_fits log \<Longrightarrow>
   unat (sub_cursor s * 2 + 2) = 2 * unat (sub_cursor s) + 2"
  by (intro unat_u64_stamp_done) (auto simp: subscriber_at_def log_fits_def)

lemma try_recv_empty:
  assumes "ring_log r log" "subscriber_at s r log" "log_fits log" "unat (sub_cursor s) = length log"
  shows "Subscriber_try_recv s (r, h) = (Inl Empty, s, (r, h))"
proof -
  obtain st where st: "Slot_try_read (sr_slots r ! unat (RingIndex_slot (sub_index s) (sub_cursor s)))
       (sub_cursor s) = Inl st" "even (unat st)" "unat st < 2 * unat (sub_cursor s) + 2"
    using subscriber_slot(1) [OF assms(1-3)] assms(4) by auto
  have "\<not> st AND 1 \<noteq> 0" using st by (simp add: u64_odd_iff)
  moreover have "st < sub_cursor s * 2 + 2"
    using st expected_stamp [OF assms(2,3)] by (simp add: word_less_nat_alt)
  ultimately show ?thesis
    using st by (simp add: Subscriber_try_recv_def Subscriber_read_slot_def Let_def)
qed

lemma try_recv_ok:
  assumes "ring_log r log" "subscriber_at s r log" "log_fits log"
    and "unat (sub_cursor s) < length log" "length log \<le> unat (sub_cursor s) + cap r"
  shows "Subscriber_try_recv s (r, h) =
     (Inr (log ! unat (sub_cursor s)), fst (take_message s h), (r, snd (take_message s h)))"
  using subscriber_slot(2) [OF assms(1-3)] assms(4,5)
  by (simp add: Subscriber_try_recv_def Subscriber_read_slot_def Let_def split_beta)

lemma try_recv_lagged:
  assumes r: "ring_log r log" and s: "subscriber_at s r log" and fits: "log_fits log"
    and lag: "unat (sub_cursor s) + cap r < length log"
  defines "oldest \<equiv> of_nat (length log - cap r)"
  shows "Subscriber_try_recv s (r, h) =
     (let skipped = oldest - sub_cursor s;
          s' = s\<lparr>sub_cursor := oldest, sub_total_lagged := sub_total_lagged s + skipped\<rparr>
      in (Inl (Lagged skipped), s', (r, Subscriber_update_tracker s' h)))"
proof -
  obtain st where st: "Slot_try_read (sr_slots r ! unat (RingIndex_slot (sub_index s) (sub_cursor s)))
       (sub_cursor s) = Inl st" "even (unat st)" "2 * unat (sub_cursor s) + 2 < unat st"
    using subscriber_slot(3) [OF r s fits lag] by auto
  have odd: "\<not> st AND 1 \<noteq> 0" using st by (simp add: u64_odd_iff)
  have less: "\<not> st < sub_cursor s * 2 + 2"
    using st expected_stamp [OF s fits] by (simp add: word_less_nat_alt)
  have n: "length log < 2 ^ 63 - 1" using fits by (simp add: log_fits_def)
  have head: "unat (sr_cursor r) = length log - 1" using r lag by (auto simp: ring_log_def split: if_splits)
  then have nm: "sr_cursor r \<noteq> u64_max" using n by (auto simp: u64_eq_max_iff)
  have ge: "cap r \<le> unat (sr_cursor r)" using head lag by simp
  have old: "sr_cursor r - SharedRing_capacity r + 1 = oldest"
    using head ge n lag
    by (simp add: u64_eq_iff oldest_def SharedRing_capacity_def unat_u64_Suc unat_u64_diff unat_of_nat)
  have uold: "unat oldest = length log - cap r"
    using n by (simp add: oldest_def unat_of_nat)
  have "read_slot_overwritten s (r, h) =
     (let skipped = oldest - sub_cursor s;
          s' = s\<lparr>sub_cursor := oldest, sub_total_lagged := sub_total_lagged s + skipped\<rparr>
      in (Inl (Lagged skipped), s', (r, Subscriber_update_tracker s' h)))"
    using nm head ge lag uold old
    by (auto simp: read_slot_overwritten_def Let_def word_less_nat_alt word_le_nat_alt
        SharedRing_capacity_def Subscriber_update_tracker_def split: option.splits)
  then show ?thesis
    using st odd less by (simp add: Subscriber_try_recv_def Subscriber_read_slot_def Let_def)
qed


text \<open>The counters: one message received, or the skipped ones counted as lagged.\<close>

definition counts :: "try_recv_error + 'a \<Rightarrow> u64 \<times> u64" where
  "counts res = (case res of Inr _ \<Rightarrow> (1, 0) | Inl Empty \<Rightarrow> (0, 0) | Inl (Lagged k) \<Rightarrow> (0, k))"

lemma take_message_simps [simp]:
  "sub_index (fst (take_message s h)) = sub_index s"
  "sub_cursor (fst (take_message s h)) = sub_cursor s + 1"
  "sub_tracker (fst (take_message s h)) = sub_tracker s"
  "sub_total_lagged (fst (take_message s h)) = sub_total_lagged s"
  "sub_total_received (fst (take_message s h)) = sub_total_received s + 1"
  "snd (take_message s h) = Subscriber_update_tracker (fst (take_message s h)) h"
  by (simp_all add: take_message_def Let_def Subscriber_update_tracker_def split: option.splits)

lemma update_tracker_None [simp]:
  "sub_tracker s = None \<Longrightarrow> Subscriber_update_tracker s h = h"
  by (simp add: Subscriber_update_tracker_def)

lemma try_recv_refines:
  assumes r: "ring_log r log" and s: "subscriber_at s r log" and fits: "log_fits log"
    and recv: "Subscriber_try_recv s (r, h) = (res, s', m')"
  shows "(res, unat (sub_cursor s')) = spec_recv (cap r) log (unat (sub_cursor s))"
    and "subscriber_at s' r log"
    and "fst m' = r"
    and "snd m' = (if res = Inl Empty then h else Subscriber_update_tracker s' h)"
    and "sub_tracker s' = sub_tracker s"
    and "sub_total_received s' = sub_total_received s + fst (counts res)"
    and "sub_total_lagged s' = sub_total_lagged s + snd (counts res)"
proof -
  let ?c = "unat (sub_cursor s)" and ?n = "length log"
  have n: "?n < 2 ^ 63 - 1" and c: "?c \<le> ?n" and ix: "sub_index s = sr_index r"
    using fits s by (auto simp: log_fits_def subscriber_at_def)
  consider "?c = ?n" | "?c < ?n" "?n \<le> ?c + cap r" | "?c + cap r < ?n" using c by linarith
  then have "(res, unat (sub_cursor s')) = spec_recv (cap r) log ?c \<and> subscriber_at s' r log \<and>
      fst m' = r \<and> snd m' = (if res = Inl Empty then h else Subscriber_update_tracker s' h) \<and>
      sub_tracker s' = sub_tracker s \<and>
      sub_total_received s' = sub_total_received s + fst (counts res) \<and>
      sub_total_lagged s' = sub_total_lagged s + snd (counts res)"
  proof cases
    case 1
    then show ?thesis using recv try_recv_empty [OF r s fits 1] s
      by (auto simp: spec_recv_def counts_def)
  next
    case 2
    have "unat (sub_cursor s + 1) = ?c + 1" using 2 n by (intro unat_u64_Suc) simp
    then show ?thesis using recv try_recv_ok [OF r s fits 2, of h] 2 ix
      by (auto simp: spec_recv_def counts_def subscriber_at_def)
  next
    case 3
    let ?old = "of_nat (?n - cap r) :: u64"
    have old: "unat ?old = ?n - cap r" using n by (simp add: unat_of_nat)
    have "unat (?old - sub_cursor s) = unat (of_nat (?n - cap r - ?c) :: u64)"
      using 3 n old by (subst unat_of_nat_u64) (simp_all only: unat_u64_diff, simp_all)
    then have "?old - sub_cursor s = of_nat (?n - cap r - ?c)"
      by (simp only: u64_eq_iff)
    then show ?thesis using recv try_recv_lagged [OF r s fits 3, of h] 3 ix old
      by (auto simp: spec_recv_def counts_def subscriber_at_def Let_def)
  qed
  then show "(res, unat (sub_cursor s')) = spec_recv (cap r) log ?c"
    and "subscriber_at s' r log" and "fst m' = r"
    and "snd m' = (if res = Inl Empty then h else Subscriber_update_tracker s' h)"
    and "sub_tracker s' = sub_tracker s"
    and "sub_total_received s' = sub_total_received s + fst (counts res)"
    and "sub_total_lagged s' = sub_total_lagged s + snd (counts res)"
    by auto
qed

section \<open>The receiver interface\<close>

text \<open>
  What a client of \<^verbatim>\<open>try_recv\<close> relies on: as long as nothing is published meanwhile, receives
  follow the abstract receive on a fixed log.
\<close>

definition oldest_pos :: "nat \<Rightarrow> 'a list \<Rightarrow> nat \<Rightarrow> nat" where
  "oldest_pos k log c = max c (length log - k)"

locale receiver =
  fixes recv :: "'s \<Rightarrow> (try_recv_error + 'a) \<times> 's"
    and pos :: "'s \<Rightarrow> nat"
    and good :: "nat \<Rightarrow> 'a list \<Rightarrow> 's \<Rightarrow> bool"
  assumes recv_spec: "good k log s \<Longrightarrow> recv s = (res, s') \<Longrightarrow> (res, pos s') = spec_recv k log (pos s)"
    and recv_good: "good k log s \<Longrightarrow> recv s = (res, s') \<Longrightarrow> good k log s'"
    and good_cap: "good k log s \<Longrightarrow> 0 < k"
    and good_pos: "good k log s \<Longrightarrow> pos s \<le> length log"
begin

lemma recv_cases:
  assumes "good k log s"
  obtains (Done) "pos s = length log" "fst (recv s) = Inl Empty" "pos (snd (recv s)) = pos s"
  | (Value) "pos s < length log" "oldest_pos k log (pos s) = pos s"
      "fst (recv s) = Inr (log ! pos s)" "pos (snd (recv s)) = pos s + 1"
  | (Lag) m where "oldest_pos k log (pos s) = length log - k" "pos s < length log - k"
      "fst (recv s) = Inl (Lagged m)" "pos (snd (recv s)) = length log - k"
proof -
  obtain res s' where rs: "recv s = (res, s')" by (cases "recv s")
  note spec = recv_spec [OF assms rs] and le = good_pos [OF assms]
  consider "pos s = length log" | "pos s < length log" "length log \<le> pos s + k"
    | "pos s + k < length log" using le by linarith
  then show thesis
  proof cases
    case 1 then show ?thesis using spec rs by (intro Done) (auto simp: spec_recv_def)
  next
    case 2 then show ?thesis using spec rs
      by (intro Value) (auto simp: spec_recv_def oldest_pos_def)
  next
    case 3 then show ?thesis using spec rs
      by (intro Lag) (auto simp: spec_recv_def oldest_pos_def)
  qed
qed

lemma recv_after_lag:
  assumes g: "good k log s" and "fst (recv s) = Inl (Lagged m)"
  shows "fst (recv (snd (recv s))) = Inr (log ! oldest_pos k log (pos s))"
    and "pos (snd (recv (snd (recv s)))) = oldest_pos k log (pos s) + 1"
proof -
  let ?s = "snd (recv s)"
  have g': "good k log ?s" using recv_good [OF g] by (cases "recv s") auto
  have p: "pos ?s = length log - k" "oldest_pos k log (pos s) = length log - k" "pos s < length log - k"
    using recv_cases [OF g] assms(2) by (auto elim: recv_cases [OF g])
  show "fst (recv ?s) = Inr (log ! oldest_pos k log (pos s))"
    and "pos (snd (recv ?s)) = oldest_pos k log (pos s) + 1"
    using recv_cases [OF g'] p good_cap [OF g] by (auto simp: oldest_pos_def)
qed

end

text \<open>The channel's own receive is a receiver.\<close>

definition at_log :: "nat \<Rightarrow> 'a list \<Rightarrow> subscriber \<times> 'a mem \<Rightarrow> bool" where
  "at_log k log = (\<lambda>(s, (r, h)).
     ring_log r log \<and> subscriber_at s r log \<and> log_fits log \<and> cap r = k)"

definition sub_pos :: "subscriber \<times> 'a mem \<Rightarrow> nat" where
  "sub_pos = (\<lambda>(s, m). unat (sub_cursor s))"

interpretation sub_recv: receiver "\<lambda>(s, m). Subscriber_try_recv s m" sub_pos at_log
proof
  fix k :: nat and log :: "'a list" and st res st'
  assume g: "at_log k log st" and rs: "(case st of (s, m) \<Rightarrow> Subscriber_try_recv s m) = (res, st')"
  obtain s r h where st: "st = (s, (r, h))" by (metis prod_cases3)
  obtain s' m' where st': "st' = (s', m')" by (metis prod.exhaust)
  have g': "ring_log r log" "subscriber_at s r log" "log_fits log" "cap r = k"
    using g by (auto simp: at_log_def st)
  note ref = try_recv_refines [OF g'(1-3), of h res s' m']
  have rs': "Subscriber_try_recv s (r, h) = (res, s', m')" using rs by (simp add: st st')
  show "(res, sub_pos st') = spec_recv k log (sub_pos st)"
    using ref(1) rs' g' by (simp add: sub_pos_def st st')
  show "at_log k log st'"
    using ref(2,3) rs' g' by (cases m') (auto simp: at_log_def st')
next
  fix k :: nat and log :: "'a list" and st
  assume "at_log k log st"
  then show "0 < k" and "sub_pos st \<le> length log"
    by (auto simp: at_log_def sub_pos_def subscriber_at_def dest: ring_log_cap)
qed

section \<open>Draining, batches\<close>

lemma Drain_next_spec:
  assumes g: "at_log k log (s, m)" and d: "Drain_next s m = (out, st')"
  shows "out = (if sub_pos (s, m) = length log then None
                else Some (log ! oldest_pos k log (sub_pos (s, m))))"
    and "sub_pos st' = (if sub_pos (s, m) = length log then length log
                        else oldest_pos k log (sub_pos (s, m)) + 1)"
    and "at_log k log st'"
proof -
  let ?recv = "\<lambda>(s, m). Subscriber_try_recv s m"
  have g1: "at_log k log (snd (?recv (s, m)))"
    using sub_recv.recv_good [OF g] by (cases "?recv (s, m)") auto
  have g2: "at_log k log (snd (?recv (snd (?recv (s, m)))))"
    using sub_recv.recv_good [OF g1] by (cases "?recv (snd (?recv (s, m)))") auto
  have "out = (if sub_pos (s, m) = length log then None
                else Some (log ! oldest_pos k log (sub_pos (s, m)))) \<and>
      sub_pos st' = (if sub_pos (s, m) = length log then length log
                        else oldest_pos k log (sub_pos (s, m)) + 1) \<and> at_log k log st'"
  proof (cases rule: sub_recv.recv_cases [OF g])
    case 1
    then show ?thesis using d g1
      by (auto simp: Drain_next.simps [of s m] split: prod.splits)
  next
    case 2
    then show ?thesis using d g1
      by (auto simp: Drain_next.simps [of s m] split: prod.splits)
  next
    case (3 j)
    obtain s1 m1 where s1: "Subscriber_try_recv s m = (Inl (Lagged j), s1, m1)"
      using 3 by (cases "Subscriber_try_recv s m") auto
    note after = sub_recv.recv_after_lag [OF g, of j]
    have "Drain_next s m = Drain_next s1 m1" by (simp add: Drain_next.simps [of s m] s1)
    then show ?thesis using d after g2 s1 3
      by (auto simp: Drain_next.simps [of s1 m1] split: prod.splits)
  qed
  then show "out = (if sub_pos (s, m) = length log then None
                else Some (log ! oldest_pos k log (sub_pos (s, m))))"
    and "sub_pos st' = (if sub_pos (s, m) = length log then length log
                        else oldest_pos k log (sub_pos (s, m)) + 1)"
    and "at_log k log st'" by auto
qed

text \<open>The first \<open>n\<close> items of the drain iterator.\<close>

fun drain_upto :: "nat \<Rightarrow> subscriber \<Rightarrow> 'a mem \<Rightarrow> 'a list \<times> subscriber \<times> 'a mem" where
  "drain_upto 0 s m = ([], s, m)"
| "drain_upto (Suc n) s m =
     (case Drain_next s m of
        (None, s', m') \<Rightarrow> ([], s', m')
      | (Some v, s', m') \<Rightarrow> let (vs, s'', m'') = drain_upto n s' m' in (v # vs, s'', m''))"

lemma drain_upto_spec:
  assumes "at_log k log (s, m)" and "drain_upto n s m = (vs, st')"
  shows "vs = take n (drop (oldest_pos k log (sub_pos (s, m))) log) \<and> at_log k log st'"
  using assms
proof (induction n arbitrary: s m vs)
  case 0
  then show ?case by simp
next
  case (Suc n)
  obtain out s1 m1 where d: "Drain_next s m = (out, s1, m1)" by (metis prod_cases3)
  note spec = Drain_next_spec [OF Suc.prems(1) d]
  let ?o = "oldest_pos k log (sub_pos (s, m))"
  have le: "sub_pos (s, m) \<le> length log" using Suc.prems(1) by (rule sub_recv.good_pos)
  show ?case
  proof (cases "sub_pos (s, m) = length log")
    case True
    then show ?thesis using Suc.prems d spec by (auto simp: oldest_pos_def)
  next
    case False
    then have lt: "?o < length log" using le sub_recv.good_cap [OF Suc.prems(1)]
      by (auto simp: oldest_pos_def)
    have out: "out = Some (log ! ?o)" and p1: "sub_pos (s1, m1) = ?o + 1" using spec False by auto
    obtain vs' where vs: "vs = log ! ?o # vs'" and rest: "drain_upto n s1 m1 = (vs', st')"
      using Suc.prems(2) d out by (auto split: prod.splits)
    have "oldest_pos k log (sub_pos (s1, m1)) = ?o + 1" using p1 by (auto simp: oldest_pos_def)
    then have "vs' = take n (drop (?o + 1) log)" "at_log k log st'"
      using Suc.IH [OF spec(3) rest] by auto
    then show ?thesis using vs lt by (simp add: Cons_nth_drop_Suc [symmetric])
  qed
qed

lemma recv_batch_spec:
  assumes "at_log k log (s, m)" and "recv_batch_loop s m buf = (count, buf', st')"
    and "length buf < 2 ^ 64"
  shows "(let avail = take (length buf) (drop (oldest_pos k log (sub_pos (s, m))) log)
          in unat count = length avail \<and> buf' = avail @ drop (length avail) buf \<and>
             at_log k log st' \<and>
             sub_pos st' = (if avail = [] then sub_pos (s, m)
                            else oldest_pos k log (sub_pos (s, m)) + length avail))"
  using assms
proof (induction buf arbitrary: s m count buf')
  case Nil
  then show ?case by simp
next
  case (Cons x buf)
  let ?o = "oldest_pos k log (sub_pos (s, m))"
  let ?avail = "take (length (x # buf)) (drop ?o log)"
  let ?recv = "\<lambda>(s, m). Subscriber_try_recv s m"
  have g: "at_log k log (s, m)" by (rule Cons.prems(1))
  have g1: "at_log k log (snd (?recv (s, m)))"
    using sub_recv.recv_good [OF g] by (cases "?recv (s, m)") auto
  have more: ?case
    if "at_log k log (s1, m1)" "sub_pos (s1, m1) = ?o + 1" "?o < length log"
      "recv_batch_loop s1 m1 buf = (cnt, b, st')" "count = cnt + 1" "buf' = log ! ?o # b"
    for s1 m1 cnt b
  proof -
    have o: "oldest_pos k log (sub_pos (s1, m1)) = ?o + 1" using that(2) by (auto simp: oldest_pos_def)
    note IH = Cons.IH [OF that(1,4)]
    have "unat cnt = length (take (length buf) (drop (?o + 1) log))"
      using IH Cons.prems(3) o by (simp add: Let_def)
    moreover have "\<dots> < 2 ^ 64 - 1" using Cons.prems(3) by simp
    ultimately have "unat count = Suc (length (take (length buf) (drop (?o + 1) log)))"
      using that(5) by (simp add: unat_u64_Suc)
    moreover have "?avail = log ! ?o # take (length buf) (drop (?o + 1) log)"
      using that(3) by (simp add: Cons_nth_drop_Suc [symmetric])
    ultimately show ?thesis using IH Cons.prems(3) o that(2,6) by (simp add: Let_def)
  qed
  show ?case
  proof (cases rule: sub_recv.recv_cases [OF g])
    case 1
    then show ?thesis using Cons.prems g1
      by (auto simp: oldest_pos_def split: prod.splits)
  next
    case 2
    obtain s1 m1 where s1: "Subscriber_try_recv s m = (Inr (log ! ?o), s1, m1)"
      using 2 by (cases "Subscriber_try_recv s m") auto
    obtain cnt b where rest: "recv_batch_loop s1 m1 buf = (cnt, b, st')" "count = cnt + 1"
      "buf' = log ! ?o # b" using Cons.prems(2) s1 by (auto split: prod.splits)
    show ?thesis using 2 s1 g1 by (intro more [OF _ _ _ rest]) auto
  next
    case (3 j)
    obtain s1 m1 where s1: "Subscriber_try_recv s m = (Inl (Lagged j), s1, m1)"
      using 3 by (cases "Subscriber_try_recv s m") auto
    note after = sub_recv.recv_after_lag [OF g, of j]
    obtain s2 m2 where s2: "Subscriber_try_recv s1 m1 = (Inr (log ! ?o), s2, m2)"
      using after(1) s1 by (cases "Subscriber_try_recv s1 m1") auto
    have g2: "at_log k log (s2, m2)"
      using sub_recv.recv_good [of k log "(s1, m1)"] g1 s1 s2 by auto
    obtain cnt b where rest: "recv_batch_loop s2 m2 buf = (cnt, b, st')" "count = cnt + 1"
      "buf' = log ! ?o # b" using Cons.prems(2) s1 s2 by (auto split: prod.splits)
    have "?o < length log" using 3 sub_recv.good_cap [OF g] by simp
    then show ?thesis using after(2) s1 s2 by (intro more [OF g2 _ _ rest]) auto
  qed
qed


section \<open>Pending and latest\<close>

lemma pending_spec:
  assumes "at_log k log (s, (r, h))"
  shows "unat (Subscriber_pending s r) = min (length log - sub_pos (s, (r, h))) k"
proof -
  have r: "ring_log r log" and c: "unat (sub_cursor s) \<le> length log" and k: "cap r = k"
    and n: "length log < 2 ^ 63 - 1"
    using assms by (auto simp: at_log_def subscriber_at_def log_fits_def)
  show ?thesis
  proof (cases "unat (sub_cursor s) = length log")
    case True
    then have "sr_cursor r = u64_max \<or> sr_cursor r < sub_cursor s"
      using r by (auto simp: ring_log_def word_less_nat_alt split: if_splits)
    then show ?thesis using True by (simp add: Subscriber_pending_def sub_pos_def)
  next
    case False
    then have lt: "unat (sub_cursor s) < length log" using c by simp
    then have head: "unat (sr_cursor r) = length log - 1" using r by (auto simp: ring_log_def split: if_splits)
    have nm: "sr_cursor r \<noteq> u64_max" using head n by (auto simp: u64_eq_max_iff)
    have ge: "\<not> sr_cursor r < sub_cursor s" using lt head by (auto simp: word_less_nat_alt)
    have "unat (sr_cursor r - sub_cursor s + 1) = length log - unat (sub_cursor s)"
      using head lt n by (simp add: unat_u64_Suc unat_u64_diff)
    then show ?thesis using nm ge k
      by (auto simp: Subscriber_pending_def Let_def sub_pos_def SharedRing_capacity_def min_def word_le_nat_alt)
  qed
qed

lemma latest_nothing:
  "ring_log r [] \<Longrightarrow> Subscriber_latest es s (r, h) = Some (None, s, (r, h), es)"
  by (simp add: Subscriber_latest.simps ring_log_def)

lemma latest_spec:
  assumes g: "at_log k log (s, (r, h))" and ne: "log \<noteq> []"
  shows "\<exists>s' h'. Subscriber_latest (id # es) s (r, h) = Some (Some (last log), s', (r, h'), es) \<and>
           at_log k log (s', (r, h')) \<and> sub_pos (s', (r, h')) = length log \<and>
           h' = Subscriber_update_tracker s' h \<and> sub_tracker s' = sub_tracker s"
proof -
  have r: "ring_log r log" and ix: "sub_index s = sr_index r" and k: "cap r = k" and fits: "log_fits log"
    using g by (auto simp: at_log_def subscriber_at_def)
  have n: "length log < 2 ^ 63 - 1" using fits by (simp add: log_fits_def)
  have head: "unat (sr_cursor r) = length log - 1" using r ne by (auto simp: ring_log_def)
  have nm: "sr_cursor r \<noteq> u64_max" using head n by (auto simp: u64_eq_max_iff)
  let ?s = "s\<lparr>sub_cursor := sr_cursor r\<rparr>"
  have at: "subscriber_at ?s r log" using ix head by (simp add: subscriber_at_def)
  have lt: "unat (sub_cursor ?s) < length log" "length log \<le> unat (sub_cursor ?s) + cap r"
    using head ne ring_log_cap [OF r] by (auto simp: neq_Nil_conv)
  note ok = try_recv_ok [OF r at fits lt, of h]
  let ?s' = "fst (take_message ?s h)"
  have last: "log ! unat (sub_cursor ?s) = last log" using head ne by (simp add: last_conv_nth)
  have "unat (sr_cursor r + 1) = length log" using head n ne by (subst unat_u64_Suc) (auto simp: neq_Nil_conv)
  then have "at_log k log (?s', (r, snd (take_message ?s h)))"
      "sub_pos (?s', (r, snd (take_message ?s h))) = length log"
    using r ix k fits by (auto simp: at_log_def subscriber_at_def sub_pos_def)
  moreover have "Subscriber_latest (id # es) s (r, h) =
      Some (Some (last log), ?s', (r, snd (take_message ?s h)), es)"
    using nm ok last by (simp add: Subscriber_latest.simps Subscriber_try_recv_def Let_def)
  moreover have "snd (take_message ?s h) = Subscriber_update_tracker ?s' h" "sub_tracker ?s' = sub_tracker s"
    by simp_all
  ultimately show ?thesis by blast
qed

text \<open>When the slot of the head is being overwritten by the time it is read, \<^verbatim>\<open>latest\<close> gives up.\<close>

lemma latest_mid_write:
  assumes g: "at_log k log (s, (r, h))" and ne: "log \<noteq> []"
    and odd: "slot_stamp (sr_slots r' ! (unat (sr_cursor r) mod k)) AND 1 \<noteq> 0"
  shows "Subscriber_latest ((\<lambda>_. (r', h)) # es) s (r, h) = Some (None, s\<lparr>sub_cursor := sr_cursor r\<rparr>, (r', h), es)"
proof -
  have r: "ring_log r log" and ix: "sub_index s = sr_index r" and k: "cap r = k" and n: "length log < 2 ^ 63 - 1"
    using g by (auto simp: at_log_def subscriber_at_def log_fits_def)
  have head: "unat (sr_cursor r) = length log - 1" using r ne by (auto simp: ring_log_def)
  then have nm: "sr_cursor r \<noteq> u64_max" using n by (auto simp: u64_eq_max_iff)
  have slot: "unat (RingIndex_slot (sub_index s) (sr_cursor r)) = unat (sr_cursor r) mod k"
    using r k ix by (simp add: ring_log_def ring_slot_mod)
  have "\<not> (sr_cursor r * 2 + 2) AND 1 \<noteq> 0"
    unfolding u64_odd_iff using head n by (subst unat_u64_stamp_done) auto
  then have "Slot_try_read (sr_slots r' ! (unat (sr_cursor r) mod k)) (sr_cursor r) = Inr None"
    using odd by (auto simp: Slot_try_read_def try_read_obs_def Let_def)
  then show ?thesis using nm slot by (simp add: Subscriber_latest.simps Subscriber_read_slot_def Let_def)
qed

section \<open>Blocking receive\<close>

lemma recv_immediate:
  assumes g: "at_log k log (s, (r, h))" and "sub_pos (s, (r, h)) < length log"
    and "length log \<le> sub_pos (s, (r, h)) + k"
  shows "Subscriber_recv es s (r, h) =
     Some (log ! sub_pos (s, (r, h)), fst (take_message s h), (r, snd (take_message s h)), es)"
proof -
  have g': "ring_log r log" "subscriber_at s r log" "log_fits log" "cap r = k"
    using g by (auto simp: at_log_def)
  have "\<And>n. recv_phase1 (Suc n) es s (r, h) =
     Some (log ! sub_pos (s, (r, h)), fst (take_message s h), (r, snd (take_message s h)), es)"
    using subscriber_slot(2) [OF g'(1-3)] assms(2,3) g'(4)
    by (simp add: sub_pos_def Let_def split_beta)
  from this [of 63] show ?thesis by (simp add: Subscriber_recv_def)
qed

text \<open>A subscriber that waits at the head wakes up with the next message, however many times it
  spins before.\<close>

lemma recv_wakes:
  assumes g: "at_log k log (s, (r, h))" and "sub_pos (s, (r, h)) = length log"
    and p: "publisher_log p r log" and pub: "Publisher_publish_unchecked p r v = (p', r')"
    and fits: "log_fits (log @ [v])" and e: "e (r, h) = (r', h)"
  shows "Subscriber_recv (replicate j id @ e # es) s (r, h) =
     Some (v, fst (take_message s h), (r', snd (take_message s h)), es)"
proof -
  let ?res = "Some (v, fst (take_message s h), (r', snd (take_message s h)), es)"
  have g': "ring_log r log" "subscriber_at s r log" "log_fits log" "cap r = k"
    and c: "unat (sub_cursor s) = length log"
    using g assms(2) by (auto simp: at_log_def sub_pos_def)
  obtain st where st: "Slot_try_read (sr_slots r ! unat (RingIndex_slot (sub_index s) (sub_cursor s)))
       (sub_cursor s) = Inl st" "unat st < 2 * unat (sub_cursor s) + 2"
    using subscriber_slot(1) [OF g'(1-3)] c by auto
  have less: "st < sub_cursor s * 2 + 2"
    using st expected_stamp [OF g'(2,3)] by (simp add: word_less_nat_alt)
  have nle: "\<not> sub_cursor s * 2 + 2 \<le> st" using less by (simp add: not_le)
  have r'log: "ring_log r' (log @ [v])" using ring_log_publish [OF g'(1) p g'(3) pub] by simp
  have ix: "sr_index r' = sr_index r" using publish_unchecked_frame(1) [of p r v] pub by simp
  have at': "subscriber_at s r' (log @ [v])" using g'(2) ix by (auto simp: subscriber_at_def)
  have read': "Slot_try_read (sr_slots r' ! unat (RingIndex_slot (sub_index s) (sub_cursor s)))
       (sub_cursor s) = Inr (Some v)"
    using subscriber_slot(2) [OF r'log at' fits] c ring_log_cap [OF r'log] by simp
  have p2: "recv_phase2 (replicate j id @ e # es) s (r, h) = ?res" for j
  proof (induction j)
    case 0
    show ?case using st less read' e by (simp add: Let_def split_beta)
  next
    case (Suc j)
    then show ?case using st less by (simp add: Let_def)
  qed
  have p1: "recv_phase1 n (replicate j id @ e # es) s (r, h) = ?res" for n j
  proof (induction n arbitrary: j)
    case 0
    show ?case unfolding recv_phase1.simps by (rule p2)
  next
    case (Suc n)
    show ?case
    proof (cases j)
      case 0
      have "recv_phase1 n es s (r', h) = ?res"
      proof (cases n)
        case 0 then show ?thesis using read' by (simp add: Let_def split_beta)
      next
        case (Suc n') then show ?thesis using read' by (simp add: Let_def split_beta)
      qed
      then show ?thesis using st nle 0 e by (simp add: Let_def)
    next
      case (Suc j')
      then show ?thesis using st nle Suc.IH by (simp add: Let_def)
    qed
  qed
  show ?thesis unfolding Subscriber_recv_def by (rule p1)
qed

text \<open>So does \<^verbatim>\<open>recv_with\<close>, whatever the strategy does meanwhile.\<close>

lemma recv_with_wakes:
  assumes g: "at_log k log (s, (r, h))" and "sub_pos (s, (r, h)) = length log"
    and p: "publisher_log p r log" and pub: "Publisher_publish_unchecked p r v = (p', r')"
    and fits: "log_fits (log @ [v])" and e: "e (r, h) = (r', h)"
  shows "\<exists>hs pkg'. Subscriber_recv_with arch c strategy (replicate j id @ e # es) pkg s (r, h) =
     Some (v, fst (take_message s h), (r', snd (take_message s h)), hs, pkg', es)"
proof -
  let ?res = "\<lambda>x. \<exists>hs pkg'. x = Some (v, fst (take_message s h), (r', snd (take_message s h)), hs, pkg', es)"
  have g': "ring_log r log" "subscriber_at s r log" "log_fits log" and c: "unat (sub_cursor s) = length log"
    using g assms(2) by (auto simp: at_log_def sub_pos_def)
  obtain st where st: "Slot_try_read (sr_slots r ! unat (RingIndex_slot (sub_index s) (sub_cursor s)))
       (sub_cursor s) = Inl st" "unat st < 2 * unat (sub_cursor s) + 2"
    using subscriber_slot(1) [OF g'] c by auto
  have nle: "\<not> sub_cursor s * 2 + 2 \<le> st" using st expected_stamp [OF g'(2,3)] by (simp add: word_le_nat_alt)
  have r'log: "ring_log r' (log @ [v])" using ring_log_publish [OF g'(1) p g'(3) pub] by simp
  have ix: "sr_index r' = sr_index r" using publish_unchecked_frame(1) [of p r v] pub by simp
  have at': "subscriber_at s r' (log @ [v])" using g'(2) ix by (auto simp: subscriber_at_def)
  have read': "Slot_try_read (sr_slots r' ! unat (RingIndex_slot (sub_index s) (sub_cursor s)))
       (sub_cursor s) = Inr (Some v)"
    using subscriber_slot(2) [OF r'log at' fits] c ring_log_cap [OF r'log] by simp
  have hints: "?res x \<Longrightarrow> ?res (add_hints hs x)" for hs x by (auto simp: add_hints_def)
  have now: "?res (recv_with_loop arch c strategy es iter pkg s (r', h))" for c iter pkg
    using read' by (simp add: recv_with_loop.simps [of arch c strategy es] Let_def split_beta)
  have again: "recv_with_loop arch c strategy (f # fs) iter pkg s (r, h) =
      add_hints (fst (WaitStrategy_wait arch c pkg strategy iter))
        (recv_with_loop arch c strategy fs (u32_saturating_add iter 1) (snd (WaitStrategy_wait arch c pkg strategy iter)) s (f (r, h)))"
    for c f fs iter pkg
    using st(1) nle by (simp add: recv_with_loop.simps [of arch c strategy "f # fs"] Let_def split_beta)
  have "?res (recv_with_loop arch c strategy (replicate j id @ e # es) iter pkg s (r, h))" for c iter pkg
  proof (induction j arbitrary: iter pkg)
    case 0
    show ?case unfolding replicate_0 append_Nil again e by (rule hints [OF now])
  next
    case (Suc j)
    have "id (r, h) = (r, h)" by simp
    then show ?case unfolding replicate_Suc append_Cons again by (simp only: hints [OF Suc.IH])
  qed
  then show ?thesis by (simp add: Subscriber_recv_with_def)
qed

section \<open>A concrete channel\<close>

text \<open>A ring of four slots to which the messages \<open>vs\<close> have been published, and a subscriber at
  a given position: the concrete inputs of the witnesses.\<close>

definition demo_ring :: "u64 list \<Rightarrow> u64 shared_ring" where
  "demo_ring vs = (let (p, r) = projr (channel 0 4) in snd (publish_batch_lossy p r vs))"

definition demo_pub :: "u64 list \<Rightarrow> publisher" where
  "demo_pub vs = (let (p, r) = projr (channel (0 :: u64) 4) in fst (publish_batch_lossy p r vs))"

definition demo_sub :: "u64 \<Rightarrow> subscriber" where
  "demo_sub c = \<lparr>sub_index = projr (RingIndex_new 4), sub_cursor = c, sub_tracker = None,
                 sub_total_lagged = 0, sub_total_received = 0\<rparr>"

lemma demo_channel: "\<exists>p r. channel (0 :: u64) 4 = Inr (p, r) \<and> sr_index r = projr (RingIndex_new 4)"
  by (simp add: channel_def SharedRing_new_def RingIndex_new_def Let_def)

lemma demo_log:
  assumes "log_fits vs"
  shows "ring_log (demo_ring vs) vs" and "publisher_log (demo_pub vs) (demo_ring vs) vs"
    and "sr_index (demo_ring vs) = projr (RingIndex_new 4)" and "cap (demo_ring vs) = 4"
proof -
  obtain p r where pr: "channel (0 :: u64) 4 = Inr (p, r)" and ix: "sr_index r = projr (RingIndex_new 4)"
    using demo_channel by blast
  note ch = channel_log [OF pr]
  obtain p' r' where b: "publish_batch_lossy p r vs = (p', r')" by (metis prod.exhaust)
  have "ring_log r' ([] @ vs) \<and> publisher_log p' r' ([] @ vs) \<and> sr_index r' = sr_index r \<and>
      sr_backpressure r' = sr_backpressure r"
    using publish_batch_lossy_log [OF ch(1,2) _ b] assms by simp
  then show "ring_log (demo_ring vs) vs" "publisher_log (demo_pub vs) (demo_ring vs) vs"
    "sr_index (demo_ring vs) = projr (RingIndex_new 4)" "cap (demo_ring vs) = 4"
    using pr b ix ch(3) by (auto simp: demo_ring_def demo_pub_def)
qed

lemma demo_at_log:
  "log_fits vs \<Longrightarrow> unat c \<le> length vs \<Longrightarrow> at_log 4 vs (demo_sub c, (demo_ring vs, h))"
  using demo_log [of vs] by (auto simp: at_log_def subscriber_at_def demo_sub_def)

section \<open>Properties\<close>

text \<open>
  C12: \<^verbatim>\<open>publish_unchecked\<close> appends exactly its message to the log: afterwards the ring holds the
  newest \<^verbatim>\<open>capacity\<close> messages of the extended log under their stamps, the cursor is the new
  message's sequence number, and the publisher's sequence number is the length of the log.
\<close>

theorem publish_appends_to_log:
  assumes "ring_log r log" and "publisher_log p r log" and "log_fits log"
    and "Publisher_publish_unchecked p r v = (p', r')"
  shows "ring_log r' (log @ [v]) \<and> publisher_log p' r' (log @ [v]) \<and>
         unat (sr_cursor r') = length log \<and> unat (Publisher_published p') = length log + 1"
  using ring_log_publish [OF assms]
  by (auto simp: ring_log_def publisher_log_def Publisher_published_def)

theorem publish_appends_to_log_witness:
  "unat (sr_cursor (snd (Publisher_publish_unchecked (demo_pub [1, 2]) (demo_ring [1, 2]) 9))) = 2"
  using publish_appends_to_log [OF demo_log(1,2), of "[1, 2]" 9
      "fst (Publisher_publish_unchecked (demo_pub [1, 2]) (demo_ring [1, 2]) 9)"
      "snd (Publisher_publish_unchecked (demo_pub [1, 2]) (demo_ring [1, 2]) 9)"]
  by (simp add: log_fits_def)

text \<open>
  C5: \<^verbatim>\<open>Subscriber::try_recv\<close> implements the abstract receive. At the end of the log it reports
  \<^verbatim>\<open>Empty\<close> and changes nothing; within one capacity of the end it returns the message at its
  position and advances by one; further behind it reports \<^verbatim>\<open>Lagged\<close> with the exact number of
  messages it can no longer read and moves to the oldest retained one. The received and lagged
  counters grow by exactly what the result says.
\<close>

theorem try_recv_refines_spec:
  assumes "ring_log r log" and "subscriber_at s r log" and "log_fits log"
    and "Subscriber_try_recv s (r, h) = (res, s', (r', h'))"
  shows "(res, unat (sub_cursor s')) = spec_recv (cap r) log (unat (sub_cursor s)) \<and>
         r' = r \<and> subscriber_at s' r log \<and>
         h' = (if res = Inl Empty then h else Subscriber_update_tracker s' h) \<and>
         sub_total_received s' = sub_total_received s + fst (counts res) \<and>
         sub_total_lagged s' = sub_total_lagged s + snd (counts res)"
  using try_recv_refines [OF assms] by simp

theorem try_recv_refines_spec_witness:
  "fst (Subscriber_try_recv (demo_sub 1) (demo_ring [10, 11, 12, 13, 14, 15, 16], [])) = Inl (Lagged 2)"
proof -
  let ?vs = "[10, 11, 12, 13, 14, 15, 16] :: u64 list"
  obtain res s' r' h' where x: "Subscriber_try_recv (demo_sub 1) (demo_ring ?vs, []) = (res, s', (r', h'))"
    by (metis prod_cases4)
  have at: "subscriber_at (demo_sub 1) (demo_ring ?vs) ?vs"
    using demo_log(3) [of ?vs] by (simp add: subscriber_at_def demo_sub_def log_fits_def)
  have "res = Inl (Lagged 2)"
    using try_recv_refines_spec [OF demo_log(1) at _ x] demo_log(4) [of ?vs]
    by (simp add: spec_recv_def demo_sub_def log_fits_def)
  then show ?thesis using x by simp
qed

text \<open>
  Draining yields, in order and without repetition, exactly the messages that are still
  retained from the subscriber's position on; lag is skipped silently and the iterator then
  ends.
\<close>

theorem drain_yields_retained:
  assumes "at_log k log (s, (r, h))" and "drain_upto n s (r, h) = (vs, s', m')"
  shows "vs = take n (drop (max (unat (sub_cursor s)) (length log - k)) log)"
  using drain_upto_spec [OF assms] by (simp add: oldest_pos_def sub_pos_def)

theorem drain_yields_retained_witness:
  "fst (drain_upto 10 (demo_sub 0) (demo_ring [10, 11, 12, 13, 14, 15], [])) = [12, 13, 14, 15]"
proof -
  let ?vs = "[10, 11, 12, 13, 14, 15] :: u64 list"
  obtain vs s' m' where d: "drain_upto 10 (demo_sub 0) (demo_ring ?vs, []) = (vs, s', m')"
    by (metis prod_cases3)
  show ?thesis
    using drain_yields_retained [OF demo_at_log d] d by (simp add: log_fits_def demo_sub_def)
qed

text \<open>
  \<^verbatim>\<open>recv_batch\<close> fills the front of the buffer with the next retained messages in order,
  leaves the rest of the buffer as it was, and returns how many it stored; a lag on the way
  costs no buffer position.
\<close>

theorem recv_batch_fills_front:
  assumes "at_log k log (s, (r, h))" and "length buf < 2 ^ 64"
    and "Subscriber_recv_batch s (r, h) buf = (count, buf', s', m')"
  shows "buf' = take (unat count) (drop (max (unat (sub_cursor s)) (length log - k)) log)
                @ drop (unat count) buf \<and>
         unat count = min (length buf) (length log - max (unat (sub_cursor s)) (length log - k))"
  using recv_batch_spec [OF assms(1) assms(3) [unfolded Subscriber_recv_batch_def] assms(2)]
  by (auto simp: Let_def oldest_pos_def sub_pos_def min_def)

theorem recv_batch_fills_front_witness:
  "fst (snd (Subscriber_recv_batch (demo_sub 0) (demo_ring [10, 11, 12, 13, 14, 15], []) [0, 0, 0, 0, 0, 7]))
     = [12, 13, 14, 15, 0, 7]"
proof -
  let ?vs = "[10, 11, 12, 13, 14, 15] :: u64 list"
  let ?buf = "[0, 0, 0, 0, 0, 7] :: u64 list"
  obtain count buf' s' m' where
    b: "Subscriber_recv_batch (demo_sub 0) (demo_ring ?vs, []) ?buf = (count, buf', s', m')"
    by (metis prod_cases4)
  show ?thesis
    using recv_batch_fills_front [OF demo_at_log _ b] b by (simp add: log_fits_def demo_sub_def)
qed

text \<open>
  C29: \<^verbatim>\<open>recv\<close> returns: a subscriber that waits at the end of the log returns the next message
  published, whatever the number of times it spins before (through both phases of the spin),
  and takes no more interference than it needed. So does \<^verbatim>\<open>recv_with\<close>, for every wait strategy and on every CPU.
\<close>

theorem recv_returns_next_message:
  assumes "at_log k log (s, (r, h))" and "unat (sub_cursor s) = length log"
    and "publisher_log p r log" and "Publisher_publish_unchecked p r v = (p', r')"
    and "log_fits (log @ [v])" and "e (r, h) = (r', h)"
  shows "Subscriber_recv (replicate j id @ e # es) s (r, h) =
         Some (v, fst (take_message s h), (r', snd (take_message s h)), es) \<and>
         (\<exists>hs pkg'. Subscriber_recv_with arch c strategy (replicate j id @ e # es) pkg s (r, h) =
            Some (v, fst (take_message s h), (r', snd (take_message s h)), hs, pkg', es))"
proof
  have pos: "sub_pos (s, (r, h)) = length log" using assms(2) by (simp add: sub_pos_def)
  show "Subscriber_recv (replicate j id @ e # es) s (r, h) =
         Some (v, fst (take_message s h), (r', snd (take_message s h)), es)"
    by (rule recv_wakes [where e = e, OF assms(1) pos assms(3-6)])
  show "\<exists>hs pkg'. Subscriber_recv_with arch c strategy (replicate j id @ e # es) pkg s (r, h) =
            Some (v, fst (take_message s h), (r', snd (take_message s h)), hs, pkg', es)"
    by (rule recv_with_wakes [where e = e, OF assms(1) pos assms(3-6)])
qed

theorem recv_returns_next_message_witness:
  "fst (the (Subscriber_recv
       (replicate 1000 id @
        [\<lambda>(r, h). (snd (Publisher_publish_unchecked (demo_pub [5]) (demo_ring [5]) 6), h)])
       (demo_sub 1) (demo_ring [5], []))) = 6"
proof -
  have f: "log_fits [5 :: u64]" "log_fits ([5 :: u64] @ [6])" by (simp_all add: log_fits_def)
  have "at_log 4 [5] (demo_sub 1, (demo_ring [5], []))" by (rule demo_at_log [OF f(1)]) simp
  from recv_returns_next_message [OF this _ demo_log(2) [OF f(1)] _ f(2), of
      "fst (Publisher_publish_unchecked (demo_pub [5]) (demo_ring [5]) 6)"
      "snd (Publisher_publish_unchecked (demo_pub [5]) (demo_ring [5]) 6)"
      "\<lambda>(r, h). (snd (Publisher_publish_unchecked (demo_pub [5]) (demo_ring [5]) 6), h)" 1000 "[]"]
  show ?thesis by (simp add: demo_sub_def)
qed

text \<open>
  C30: \<^verbatim>\<open>pending\<close> is the number of messages published after the subscriber's position, capped at
  the capacity, and \<^verbatim>\<open>latest\<close>, undisturbed, returns the last message published and leaves
  the subscriber at the end of the log.  When the producer has come round to the slot of the head by the time it
  is read and is in the middle of overwriting it, \<^verbatim>\<open>latest\<close> returns nothing although messages have been
  published.
\<close>

theorem pending_and_latest:
  assumes "at_log k log (s, (r, h))"
  shows "unat (Subscriber_pending s r) = min (length log - unat (sub_cursor s)) k \<and>
         (log \<noteq> [] \<longrightarrow> (\<exists>s' h'. Subscriber_latest (id # es) s (r, h) =
             Some (Some (last log), s', (r, h'), es) \<and> unat (sub_cursor s') = length log)) \<and>
         (log \<noteq> [] \<and> slot_stamp (sr_slots r' ! (unat (sr_cursor r) mod k)) AND 1 \<noteq> 0 \<longrightarrow>
            Subscriber_latest ((\<lambda>_. (r', h)) # es) s (r, h) =
              Some (None, s\<lparr>sub_cursor := sr_cursor r\<rparr>, (r', h), es))"
  using pending_spec [OF assms] latest_spec [OF assms, of es] latest_mid_write [OF assms, of r' es]
  by (auto simp: sub_pos_def)

theorem pending_and_latest_witness:
  "unat (Subscriber_pending (demo_sub 0) (demo_ring [10, 11, 12, 13, 14, 15])) = 4 \<and>
   (\<exists>s' h'. Subscriber_latest [id] (demo_sub 0) (demo_ring [10, 11, 12, 13, 14, 15], []) =
        Some (Some 15, s', (demo_ring [10, 11, 12, 13, 14, 15], h'), []) \<and>
        unat (sub_cursor s') = length [10, 11, 12, 13, 14, 15 :: u64])"
  using pending_and_latest [OF demo_at_log [of "[10, 11, 12, 13, 14, 15]" 0 "[]"], of "[]"]
  by (simp add: log_fits_def demo_sub_def)

end
