(* ===== verification/Barrier.thy ===== *)
theory Barrier
  imports Channel_Spec
begin

text \<open>
  \<^verbatim>\<open>src/src/barrier.rs\<close> and the gated receives of \<^verbatim>\<open>src/src/channel/subscriber.rs\<close>: a downstream
  subscriber that may only take a message once every upstream subscriber has taken it.

  A barrier holds strong references to its upstreams' trackers, so building one from
  subscribers raises their reference counts.
\<close>

section \<open>Barriers\<close>

record dependency_barrier =
  db_upstreams :: "addr list"

definition DependencyBarrier_new :: "addr list \<Rightarrow> dependency_barrier may_panic" where
  "DependencyBarrier_new trackers =
     (if trackers = [] then Inl NoUpstreams else Inr \<lparr>db_upstreams = trackers\<rparr>)"

definition Subscriber_tracker :: "subscriber \<Rightarrow> heap \<Rightarrow> addr option \<times> heap" where
  "Subscriber_tracker s h =
     (case sub_tracker s of None \<Rightarrow> (None, h) | Some t \<Rightarrow> (Some t, arc_clone h t))"

fun collect_trackers :: "subscriber list \<Rightarrow> heap \<Rightarrow> (addr list \<times> heap) may_panic" where
  "collect_trackers [] h = Inr ([], h)"
| "collect_trackers (s # ss) h =
     (case Subscriber_tracker s h of
        (None, h') \<Rightarrow> Inl NoTracker
      | (Some t, h') \<Rightarrow>
          (case collect_trackers ss h' of
             Inl e \<Rightarrow> Inl e
           | Inr (ts, h'') \<Rightarrow> Inr (t # ts, h'')))"

definition DependencyBarrier_from_subscribers ::
    "subscriber list \<Rightarrow> heap \<Rightarrow> (dependency_barrier \<times> heap) may_panic" where
  "DependencyBarrier_from_subscribers subscribers h =
     (if subscribers = [] then Inl NoUpstreams
      else case collect_trackers subscribers h of
        Inl e \<Rightarrow> Inl e
      | Inr (trackers, h') \<Rightarrow> Inr (\<lparr>db_upstreams = trackers\<rparr>, h'))"

fun slowest_loop :: "heap \<Rightarrow> addr list \<Rightarrow> u64 \<Rightarrow> u64" where
  "slowest_loop h [] mn = mn"
| "slowest_loop h (t # ts) mn =
     (let val = arc_value (h ! t) in slowest_loop h ts (if val < mn then val else mn))"

definition DependencyBarrier_slowest :: "dependency_barrier \<Rightarrow> heap \<Rightarrow> u64" where
  "DependencyBarrier_slowest b h = slowest_loop h (db_upstreams b) u64_max"

definition DependencyBarrier_upstream_count :: "dependency_barrier \<Rightarrow> usize" where
  "DependencyBarrier_upstream_count b = of_nat (length (db_upstreams b))"

section \<open>Gated receives\<close>

definition Subscriber_try_recv_gated ::
    "dependency_barrier \<Rightarrow> subscriber \<Rightarrow> 'a mem \<Rightarrow> (try_recv_error + 'a) \<times> subscriber \<times> 'a mem" where
  "Subscriber_try_recv_gated b s m =
     (if DependencyBarrier_slowest b (snd m) \<le> sub_cursor s then (Inl Empty, s, m)
      else Subscriber_try_recv s m)"

fun Subscriber_recv_gated ::
    "dependency_barrier \<Rightarrow> 'a interference \<Rightarrow> subscriber \<Rightarrow> 'a mem \<Rightarrow>
     ('a \<times> subscriber \<times> 'a mem \<times> 'a interference) option" where
  "Subscriber_recv_gated b es s m =
     (case Subscriber_try_recv_gated b s m of
        (Inr val, s', m') \<Rightarrow> Some (val, s', m', es)
      | (Inl Empty, s', m') \<Rightarrow>
          (case es of [] \<Rightarrow> None | e # es' \<Rightarrow> Subscriber_recv_gated b es' s' (e m'))
      | (Inl (Lagged _), s', m') \<Rightarrow>
          (case es of [] \<Rightarrow> None | e # es' \<Rightarrow> Subscriber_recv_gated b es' s' (e m')))"

declare Subscriber_recv_gated.simps [simp del]

section \<open>The slowest upstream\<close>

lemma slowest_loop_gt:
  "unat x < unat (slowest_loop h ts mn) \<longleftrightarrow> unat x < unat mn \<and> (\<forall>t \<in> set ts. unat x < tracker_value h t)"
  by (induction ts arbitrary: mn) (auto simp: Let_def tracker_value_def word_less_nat_alt)

lemma barrier_open_iff:
  assumes "db_upstreams b \<noteq> []"
  shows "DependencyBarrier_slowest b h \<le> x \<longleftrightarrow> (\<exists>t \<in> set (db_upstreams b). tracker_value h t \<le> unat x)"
proof -
  have "unat x < unat u64_max" if "unat x < tracker_value h t" for t
    using that unat_u64_le [of "arc_value (h ! t)"] by (simp add: tracker_value_def)
  moreover obtain t where "t \<in> set (db_upstreams b)" using assms by (cases "db_upstreams b") auto
  ultimately have "unat x < unat (DependencyBarrier_slowest b h) \<longleftrightarrow>
      (\<forall>t \<in> set (db_upstreams b). unat x < tracker_value h t)"
    unfolding DependencyBarrier_slowest_def slowest_loop_gt by blast
  then show ?thesis by (auto simp: word_le_nat_alt not_less [symmetric])
qed

lemma arc_clone_keeps [simp]:
  "length (arc_clone h a) = length h"
  "a < length h \<Longrightarrow> arc_value (arc_clone h a ! b) = arc_value (h ! b)"
  by (cases "a = b"; simp add: arc_clone_def nth_list_update)+

lemma collect_trackers_spec:
  assumes "\<forall>s \<in> set ss. \<forall>t. sub_tracker s = Some t \<longrightarrow> t < length h"
  shows "(\<exists>s \<in> set ss. sub_tracker s = None) \<Longrightarrow> collect_trackers ss h = Inl NoTracker"
    and "\<forall>s \<in> set ss. sub_tracker s \<noteq> None \<Longrightarrow>
         \<exists>h'. collect_trackers ss h = Inr (map (the \<circ> sub_tracker) ss, h') \<and>
              length h' = length h \<and> (\<forall>a. arc_value (h' ! a) = arc_value (h ! a))"
  using assms
proof (induction ss arbitrary: h)
  case (Cons s ss)
  {
    case 1
    then show ?case using Cons.IH
      by (cases "sub_tracker s"; cases "\<exists>s \<in> set ss. sub_tracker s = None")
        (auto simp: Subscriber_tracker_def split: sum.splits)
  next
    case 2
    then obtain t where t: "sub_tracker s = Some t" "t < length h" by auto
    obtain h' where "collect_trackers ss (arc_clone h t) = Inr (map (the \<circ> sub_tracker) ss, h')"
        "length h' = length h" "\<forall>a. arc_value (h' ! a) = arc_value (h ! a)"
      using Cons.IH(2) [of "arc_clone h t"] 2 t by auto
    then show ?case using t by (auto simp: Subscriber_tracker_def)
  }
qed simp_all


lemma from_subscribers_spec:
  assumes "\<forall>s \<in> set ss. \<forall>t. sub_tracker s = Some t \<longrightarrow> t < length h"
  shows "DependencyBarrier_from_subscribers ss h =
           (if ss = [] then Inl NoUpstreams
            else if \<exists>s \<in> set ss. sub_tracker s = None then Inl NoTracker
            else Inr (\<lparr>db_upstreams = map (the \<circ> sub_tracker) ss\<rparr>,
                      snd (projr (collect_trackers ss h))))"
  using collect_trackers_spec [OF assms]
  by (cases "\<exists>s \<in> set ss. sub_tracker s = None")
    (auto simp: DependencyBarrier_from_subscribers_def)

section \<open>Blocking gated receive\<close>

lemma gated_closed:
  "db_upstreams b \<noteq> [] \<Longrightarrow> \<exists>t \<in> set (db_upstreams b). tracker_value (snd m) t \<le> unat (sub_cursor s) \<Longrightarrow>
   Subscriber_try_recv_gated b s m = (Inl Empty, s, m)"
  by (simp add: Subscriber_try_recv_gated_def barrier_open_iff)

lemma gated_open:
  "db_upstreams b \<noteq> [] \<Longrightarrow> \<forall>t \<in> set (db_upstreams b). unat (sub_cursor s) < tracker_value (snd m) t \<Longrightarrow>
   Subscriber_try_recv_gated b s m = Subscriber_try_recv s m"
  by (auto simp: Subscriber_try_recv_gated_def barrier_open_iff)

lemma recv_gated_spins:
  assumes "Subscriber_try_recv_gated b s m = (Inl Empty, s, m)"
  shows "Subscriber_recv_gated b (replicate j id @ e # es) s m = Subscriber_recv_gated b es s (e m)"
  using assms
  by (induction j) (simp_all add: Subscriber_recv_gated.simps [where es = "_ # _"])

section \<open>Properties\<close>

text \<open>
  A gated receive never runs ahead of a tracker of its barrier. While some tracker is not past the
  downstream's position it reports \<^verbatim>\<open>Empty\<close> and changes nothing; once all of them are, it behaves like
  \<^verbatim>\<open>try_recv\<close>; so a message it delivers is behind all trackers.
\<close>

theorem gated_recv_behind_upstreams:
  assumes "at_log k log (s, (r, h))" and "db_upstreams b \<noteq> []"
    and "Subscriber_try_recv_gated b s (r, h) = (res, s', m')"
  shows "((\<exists>t \<in> set (db_upstreams b). tracker_value h t \<le> unat (sub_cursor s)) \<longrightarrow>
            res = Inl Empty \<and> s' = s \<and> m' = (r, h)) \<and>
         ((\<forall>t \<in> set (db_upstreams b). unat (sub_cursor s) < tracker_value h t) \<longrightarrow>
            (res, unat (sub_cursor s')) = spec_recv k log (unat (sub_cursor s))) \<and>
         (\<forall>v. res = Inr v \<longrightarrow> v = log ! unat (sub_cursor s) \<and>
            (\<forall>t \<in> set (db_upstreams b). unat (sub_cursor s) < tracker_value h t))"
proof -
  have g: "ring_log r log" "subscriber_at s r log" "log_fits log" "cap r = k"
    using assms(1) by (auto simp: at_log_def)
  show ?thesis
  proof (cases "\<exists>t \<in> set (db_upstreams b). tracker_value h t \<le> unat (sub_cursor s)")
    case True
    then show ?thesis using gated_closed [OF assms(2), of "(r, h)" s] assms(3) by auto
  next
    case False
    then have "Subscriber_try_recv s (r, h) = (res, s', m')"
      using gated_open [OF assms(2), of s "(r, h)"] assms(3) by (auto simp: not_le)
    from try_recv_refines(1) [OF g(1-3) this] show ?thesis
      using False g(4) by (auto simp: spec_recv_def not_le split: if_splits)
  qed
qed

theorem gated_recv_behind_upstreams_witness:
  "fst (Subscriber_try_recv_gated \<lparr>db_upstreams = [0]\<rparr> (demo_sub 0)
          (demo_ring [7], [\<lparr>arc_strong = 2, arc_value = 0\<rparr>])) = Inl Empty \<and>
   fst (Subscriber_try_recv_gated \<lparr>db_upstreams = [0]\<rparr> (demo_sub 0)
          (demo_ring [7], [\<lparr>arc_strong = 2, arc_value = 1\<rparr>])) = Inr 7"
proof -
  let ?b = "\<lparr>db_upstreams = [0]\<rparr>"
  let ?h = "\<lambda>n. [\<lparr>arc_strong = 2, arc_value = n\<rparr>] :: heap"
  have at: "at_log 4 [7] (demo_sub 0, (demo_ring [7], ?h n))" for n
    by (rule demo_at_log) (simp_all add: log_fits_def)
  obtain res s' m' where c: "Subscriber_try_recv_gated ?b (demo_sub 0) (demo_ring [7], ?h 0) = (res, s', m')"
    by (metis prod_cases3)
  obtain res2 s2 m2 where o: "Subscriber_try_recv_gated ?b (demo_sub 0) (demo_ring [7], ?h 1) = (res2, s2, m2)"
    by (metis prod_cases3)
  have "res = Inl Empty"
    using gated_recv_behind_upstreams [OF at _ c] by (simp add: tracker_value_def demo_sub_def)
  moreover have "res2 = Inr 7"
    using gated_recv_behind_upstreams [OF at _ o, THEN conjunct2, THEN conjunct1]
    by (simp add: tracker_value_def demo_sub_def spec_recv_def)
  ultimately show ?thesis by (simp only: c o fst_conv)
qed

text \<open>
  A blocking gated receive returns: however long it spins while an upstream is behind or the
  message is missing, it returns the message at its position as soon as the message is there and
  every upstream has taken it.
\<close>

theorem recv_gated_returns:
  assumes "db_upstreams b \<noteq> []" and "Subscriber_try_recv_gated b s m = (Inl Empty, s, m)"
    and "e m = (r, h)" and "at_log k log (s, (r, h))"
    and "\<forall>t \<in> set (db_upstreams b). unat (sub_cursor s) < tracker_value h t"
    and "unat (sub_cursor s) < length log" and "length log \<le> unat (sub_cursor s) + k"
  shows "Subscriber_recv_gated b (replicate j id @ e # es) s m =
         Some (log ! unat (sub_cursor s), fst (take_message s h), (r, snd (take_message s h)), es)"
proof -
  have g: "ring_log r log" "subscriber_at s r log" "log_fits log" "cap r = k"
    using assms(4) by (auto simp: at_log_def)
  have "Subscriber_try_recv_gated b s (r, h) =
      (Inr (log ! unat (sub_cursor s)), fst (take_message s h), (r, snd (take_message s h)))"
    using gated_open [OF assms(1), of s "(r, h)"] assms(5-7) try_recv_ok [OF g(1-3)] g(4) by simp
  then show ?thesis
    using recv_gated_spins [OF assms(2)] assms(3) by (simp add: Subscriber_recv_gated.simps)
qed

theorem recv_gated_returns_witness:
  "fst (the (Subscriber_recv_gated \<lparr>db_upstreams = [0]\<rparr>
       (replicate 50 id @ [\<lambda>(r, h). (r, arc_store h 0 1)]) (demo_sub 0)
       (demo_ring [7], [\<lparr>arc_strong = 2, arc_value = 0\<rparr>]))) = 7"
proof -
  let ?b = "\<lparr>db_upstreams = [0]\<rparr>" and ?h = "[\<lparr>arc_strong = 2, arc_value = 0\<rparr>] :: heap"
  have "Subscriber_try_recv_gated ?b (demo_sub 0) (demo_ring [7], ?h) =
      (Inl Empty, demo_sub 0, (demo_ring [7], ?h))"
    by (rule gated_closed) (simp_all add: tracker_value_def demo_sub_def)
  from recv_gated_returns [OF _ this, of "\<lambda>(r, h). (r, arc_store h 0 1)" "demo_ring [7]"
      "arc_store ?h 0 1" 4 "[7]" 50 "[]"]
  show ?thesis using demo_at_log [of "[7]" 0 "arc_store ?h 0 1"]
    by (simp add: log_fits_def demo_sub_def arc_store_def tracker_value_def)
qed

text \<open>
  Building a barrier from subscribers panics exactly when the list is empty or a subscriber
  has no tracker; otherwise the barrier counts the subscribers, and its slowest position is past a
  sequence number exactly when every upstream's tracker is.
\<close>

theorem barrier_from_subscribers:
  assumes "\<forall>s \<in> set ss. \<forall>t. sub_tracker s = Some t \<longrightarrow> t < length h"
  shows "case DependencyBarrier_from_subscribers ss h of
           Inl e \<Rightarrow> (e = NoUpstreams \<and> ss = []) \<or> (e = NoTracker \<and> (\<exists>s \<in> set ss. sub_tracker s = None))
         | Inr (b, h') \<Rightarrow>
             ss \<noteq> [] \<and> (\<forall>s \<in> set ss. sub_tracker s \<noteq> None) \<and>
             DependencyBarrier_upstream_count b = of_nat (length ss) \<and>
             (\<forall>x. x < DependencyBarrier_slowest b h' \<longleftrightarrow>
                   (\<forall>s \<in> set ss. unat x < tracker_value h (the (sub_tracker s))))"
proof (cases "ss = [] \<or> (\<exists>s \<in> set ss. sub_tracker s = None)")
  case True
  then show ?thesis by (auto simp: from_subscribers_spec [OF assms])
next
  case False
  then obtain h' where c: "collect_trackers ss h = Inr (map (the \<circ> sub_tracker) ss, h')"
      and v: "\<forall>a. arc_value (h' ! a) = arc_value (h ! a)"
    using collect_trackers_spec(2) [OF assms] by auto
  let ?b = "\<lparr>db_upstreams = map (the \<circ> sub_tracker) ss\<rparr>"
  have "db_upstreams ?b \<noteq> []" using False by simp
  from barrier_open_iff [OF this, of h'] have
    "\<forall>x. x < DependencyBarrier_slowest ?b h' \<longleftrightarrow>
       (\<forall>s \<in> set ss. unat x < tracker_value h (the (sub_tracker s)))"
    using v by (simp add: tracker_value_def flip: not_le)
  then show ?thesis
    using False c by (auto simp: from_subscribers_spec [OF assms] DependencyBarrier_upstream_count_def)
qed

theorem barrier_from_subscribers_witness:
  "DependencyBarrier_from_subscribers [demo_sub 0] [] = Inl NoTracker"
  using barrier_from_subscribers [of "[demo_sub 0]" "[]"]
  by (auto simp: demo_sub_def DependencyBarrier_from_subscribers_def Subscriber_tracker_def)

end
