(* ===== verification/Backpressure.thy ===== *)
theory Backpressure
  imports Barrier
begin

text \<open>
  The backpressure decision, for every publisher that gates on subscriber trackers: \<^verbatim>\<open>has_room\<close>
  of \<^verbatim>\<open>src/src/channel/publisher.rs\<close> here, and the one of the event ring in its own theory.  Both
  trust a cached slowest cursor and rescan the trackers only when the cache says that the ring is
  nearly lapped; the locale states what that scheme needs and what it guarantees.
\<close>

section \<open>The gate interface\<close>

locale backpressure_gate =
  fixes room :: "'s \<Rightarrow> bool \<times> 's"
    and seq :: "'s \<Rightarrow> nat"
    and cached :: "'s \<Rightarrow> nat"
    and window :: "'s \<Rightarrow> nat"
    and gates :: "'s \<Rightarrow> nat set"
    and good :: "'s \<Rightarrow> bool"
  assumes room_keeps: "good s \<Longrightarrow> room s = (b, s') \<Longrightarrow>
        good s' \<and> seq s' = seq s \<and> window s' = window s \<and> gates s' = gates s"
    and room_fast: "good s \<Longrightarrow> room s = (b, s') \<Longrightarrow> seq s < cached s + window s \<Longrightarrow>
        b \<and> cached s' = cached s"
    and room_free: "good s \<Longrightarrow> room s = (b, s') \<Longrightarrow> gates s = {} \<Longrightarrow> b \<and> cached s' = cached s"
    and room_scan: "good s \<Longrightarrow> room s = (b, s') \<Longrightarrow> cached s + window s \<le> seq s \<Longrightarrow> gates s \<noteq> {} \<Longrightarrow>
        cached s' \<in> gates s \<and> (\<forall>v \<in> gates s. cached s' \<le> v) \<and> (b \<longleftrightarrow> seq s < cached s' + window s)"
begin

text \<open>As long as the cache is a lower bound of the trackers the answer is exact.\<close>

lemma room_exact:
  assumes "good s" "room s = (b, s')" "\<forall>v \<in> gates s. cached s \<le> v"
  shows "b \<longleftrightarrow> (\<forall>v \<in> gates s. seq s < v + window s)" and "\<forall>v \<in> gates s'. cached s' \<le> v"
proof -
  note keeps = room_keeps [OF assms(1,2)]
  consider "seq s < cached s + window s" | "gates s = {}"
    | "cached s + window s \<le> seq s" "gates s \<noteq> {}" by linarith
  then have "(b \<longleftrightarrow> (\<forall>v \<in> gates s. seq s < v + window s)) \<and> (\<forall>v \<in> gates s'. cached s' \<le> v)"
  proof cases
    case 1 then show ?thesis using room_fast [OF assms(1,2)] assms(3) keeps by fastforce
  next
    case 2 then show ?thesis using room_free [OF assms(1,2)] keeps by simp
  next
    case 3 then show ?thesis using room_scan [OF assms(1,2)] keeps by force
  qed
  then show "b \<longleftrightarrow> (\<forall>v \<in> gates s. seq s < v + window s)" "\<forall>v \<in> gates s'. cached s' \<le> v" by auto
qed

text \<open>A tracker that registered when the publisher had reached \<open>g\<close> may start below the cache; what
  is protected is the part of the ring from \<open>g\<close> on.\<close>

lemma room_protects:
  assumes "good s" "room s = (b, s')" "v \<in> gates s" "cached s \<le> max v g"
  shows "cached s' \<le> max v g" and "b \<Longrightarrow> seq s < max v g + window s"
proof -
  have "cached s' \<le> max v g \<and> (b \<longrightarrow> seq s < max v g + window s)"
  proof (cases "seq s < cached s + window s")
    case True then show ?thesis using room_fast [OF assms(1,2)] assms(4) by auto
  next
    case False
    then have "cached s' \<le> v" "b \<longleftrightarrow> seq s < cached s' + window s"
      using room_scan [OF assms(1,2)] assms(3) by (auto simp: not_less)
    then show ?thesis by auto
  qed
  then show "cached s' \<le> max v g" and "b \<Longrightarrow> seq s < max v g + window s" by auto
qed

lemma cached_le:
  assumes "good s" "room s = (b, s')" "cached s \<le> n" "\<forall>v \<in> gates s. v \<le> n"
  shows "cached s' \<le> n"
proof (cases "seq s < cached s + window s \<or> gates s = {}")
  case True then show ?thesis using room_fast [OF assms(1,2)] room_free [OF assms(1,2)] assms(3) by auto
next
  case False
  then have "cached s' \<in> gates s" using room_scan [OF assms(1,2)] by (auto simp: not_less)
  then show ?thesis using assms(4) by blast
qed

end

section \<open>The publisher's gate\<close>

definition window_of :: "'a shared_ring \<Rightarrow> nat" where
  "window_of r = (case sr_backpressure r of None \<Rightarrow> cap r | Some bp \<Rightarrow> cap r - unat (bp_watermark bp))"

definition live_trackers :: "'a shared_ring \<Rightarrow> heap \<Rightarrow> addr list" where
  "live_trackers r h = (case sr_backpressure r of None \<Rightarrow> [] | Some bp \<Rightarrow> live h (bp_trackers bp))"

text \<open>Nothing in the test overflows: positions stay below the stamp limit, and the capacity is below
  \<open>2^63\<close> because a slot takes at least 64 bytes and an allocation at most \<^verbatim>\<open>isize::MAX\<close>.\<close>

definition gate_ok :: "publisher \<times> 'a mem \<Rightarrow> bool" where
  "gate_ok s \<longleftrightarrow> (case s of (p, (r, h)) \<Rightarrow>
     cap r < 2 ^ 63 \<and> (case sr_backpressure r of None \<Rightarrow> True | Some bp \<Rightarrow> unat (bp_watermark bp) < cap r) \<and>
     unat (pb_cached_slowest p) < 2 ^ 63 \<and>
     (\<forall>a \<in> set (live_trackers r h). tracker_value h a < 2 ^ 63))"

definition publisher_room :: "publisher \<times> 'a mem \<Rightarrow> bool \<times> (publisher \<times> 'a mem)" where
  "publisher_room s = (let (p, (r, h)) = s; (b, p', r') = Publisher_has_room p r h in (b, (p', (r', h))))"

lemma publisher_roomE:
  assumes "publisher_room s = (b, s')"
  obtains p r h p' r' where "s = (p, (r, h))" "Publisher_has_room p r h = (b, p', r')" "s' = (p', (r', h))"
  using assms by (cases s) (auto simp: publisher_room_def split: prod.splits)

lemma live_idem [simp]: "live h (live h ws) = live h ws"
  by (simp add: live_def)

lemma window_words:
  assumes "gate_ok (p, (r, h))" "sr_backpressure r = Some bp" "unat x < 2 ^ 63"
  shows "unat (x + (SharedRing_capacity r - bp_watermark bp)) = unat x + window_of r"
  using assms by (auto simp: gate_ok_def SharedRing_capacity_def window_of_def unat_u64_diff unat_u64_add)

lemma has_room_cases:
  assumes ok: "gate_ok (p, (r, h))" and room: "Publisher_has_room p r h = (b, p', r')"
  obtains (Lossy) "sr_backpressure r = None" "b" "p' = p" "r' = r"
  | (Fast) bp where "sr_backpressure r = Some bp" "unat (pb_seq p) < unat (pb_cached_slowest p) + window_of r"
      "b" "p' = p" "r' = r"
  | (Free) bp where "sr_backpressure r = Some bp" "unat (pb_cached_slowest p) + window_of r \<le> unat (pb_seq p)"
      "live_trackers r h = []" "b" "p' = p" "r' = r\<lparr>sr_backpressure := Some (bp\<lparr>bp_trackers := []\<rparr>)\<rparr>"
  | (Scan) bp m where "sr_backpressure r = Some bp"
      "unat (pb_cached_slowest p) + window_of r \<le> unat (pb_seq p)"
      "\<exists>a \<in> set (live_trackers r h). unat m = tracker_value h a"
      "\<forall>a \<in> set (live_trackers r h). unat m \<le> tracker_value h a"
      "p' = p\<lparr>pb_cached_slowest := m\<rparr>"
      "r' = r\<lparr>sr_backpressure := Some (bp\<lparr>bp_trackers := live h (bp_trackers bp)\<rparr>)\<rparr>"
      "b \<longleftrightarrow> unat (pb_seq p) < unat m + window_of r"
proof (cases "sr_backpressure r")
  case None
  then show ?thesis using room by (intro Lossy) (auto simp: Publisher_has_room_def)
next
  case (Some bp)
  let ?eff = "SharedRing_capacity r - bp_watermark bp"
  have lt: "live_trackers r h = live h (bp_trackers bp)" by (simp add: live_trackers_def Some)
  have c: "unat (pb_cached_slowest p) < 2 ^ 63" using ok by (simp add: gate_ok_def)
  have le: "pb_seq p \<ge> pb_cached_slowest p + ?eff \<longleftrightarrow>
      unat (pb_cached_slowest p) + window_of r \<le> unat (pb_seq p)"
    by (simp add: word_le_nat_alt window_words [OF ok Some c])
  obtain sl r1 where sc: "SharedRing_slowest_cursor r h = (sl, r1)" by (metis prod.exhaust)
  show ?thesis
  proof (cases "unat (pb_cached_slowest p) + window_of r \<le> unat (pb_seq p)")
    case False
    then show ?thesis using room Some le by (intro Fast [OF Some]) (auto simp: Publisher_has_room_def Let_def)
  next
    case True
    show ?thesis
    proof (cases sl)
      case None
      then show ?thesis
        using room Some le True sc slowest_cursor_None [OF _ Some, of h r1]
        by (intro Free [OF Some True]) (auto simp: Publisher_has_room_def Let_def lt)
    next
      case (Some m)
      note spec = slowest_cursor_Some [OF sc [unfolded Some] \<open>sr_backpressure r = Some bp\<close>]
      have m: "unat m < 2 ^ 63" using spec(4) ok by (auto simp: gate_ok_def lt)
      have "pb_seq p \<ge> m + ?eff \<longleftrightarrow> \<not> unat (pb_seq p) < unat m + window_of r"
        by (simp add: word_le_nat_alt window_words [OF ok \<open>sr_backpressure r = Some bp\<close> m] not_less)
      then show ?thesis
        using room le True sc spec \<open>sr_backpressure r = Some bp\<close> Some
        by (intro Scan [OF \<open>sr_backpressure r = Some bp\<close> True, of m])
          (auto simp: Publisher_has_room_def Let_def lt split: if_splits)
    qed
  qed
qed

lemma has_room_frame:
  assumes "Publisher_has_room p r h = (b, p', r')"
  shows "sr_slots r' = sr_slots r" "sr_index r' = sr_index r" "sr_cursor r' = sr_cursor r"
    "sr_next_seq r' = sr_next_seq r" "(sr_backpressure r' = None) = (sr_backpressure r = None)"
    "pb_index p' = pb_index p" "pb_seq p' = pb_seq p" "pb_has_backpressure p' = pb_has_backpressure p"
  using assms slowest_cursor_frame [of r h]
  by (auto simp: Publisher_has_room_def Let_def SharedRing_slowest_cursor_def
      split: option.splits prod.splits if_splits)

lemma has_room_keeps_gates:
  assumes ok: "gate_ok (p, (r, h))" and room: "Publisher_has_room p r h = (b, p', r')"
  shows "gate_ok (p', (r', h))" "window_of r' = window_of r" "live_trackers r' h = live_trackers r h"
proof -
  have "gate_ok (p', (r', h)) \<and> window_of r' = window_of r \<and> live_trackers r' h = live_trackers r h"
    using ok room
  proof (cases rule: has_room_cases)
    case (Scan bp m)
    then show ?thesis using ok by (auto simp: gate_ok_def window_of_def live_trackers_def)
  next
    case (Free bp)
    then show ?thesis using ok by (auto simp: gate_ok_def window_of_def live_trackers_def live_def)
  qed (use ok in auto)
  then show "gate_ok (p', (r', h))" "window_of r' = window_of r" "live_trackers r' h = live_trackers r h"
    by auto
qed

interpretation pub_gate: backpressure_gate publisher_room
  "\<lambda>(p, m). unat (pb_seq p)" "\<lambda>(p, m). unat (pb_cached_slowest p)"
  "\<lambda>(p, (r, h)). window_of r" "\<lambda>(p, (r, h)). tracker_value h ` set (live_trackers r h)" gate_ok
proof (unfold_locales, goal_cases)
  case (1 s b s')
  then obtain p r h p' r' where x: "s = (p, (r, h))" "Publisher_has_room p r h = (b, p', r')" "s' = (p', (r', h))"
    by (elim publisher_roomE)
  show ?case using 1 x has_room_keeps_gates [OF _ x(2)] has_room_frame(7) [OF x(2)] by auto
next
  case (2 s b s')
  then obtain p r h p' r' where x: "s = (p, (r, h))" "Publisher_has_room p r h = (b, p', r')" "s' = (p', (r', h))"
    by (elim publisher_roomE)
  show ?case using 2 x by (cases rule: has_room_cases [OF _ x(2)]) auto
next
  case (3 s b s')
  then obtain p r h p' r' where x: "s = (p, (r, h))" "Publisher_has_room p r h = (b, p', r')" "s' = (p', (r', h))"
    by (elim publisher_roomE)
  show ?case using 3 x by (cases rule: has_room_cases [OF _ x(2)]) auto
next
  case (4 s b s')
  then obtain p r h p' r' where x: "s = (p, (r, h))" "Publisher_has_room p r h = (b, p', r')" "s' = (p', (r', h))"
    by (elim publisher_roomE)
  show ?case using 4 x by (cases rule: has_room_cases [OF _ x(2)]) (auto simp: live_trackers_def)
qed

section \<open>Publishing under backpressure\<close>

lemma try_publish_cases:
  assumes "Publisher_try_publish p r h v = (res, p', r')"
  obtains (Rejected) "Publisher_has_room p r h = (False, p', r')" "res = Inl (Full v)"
  | (Published) p1 r1 where "Publisher_has_room p r h = (True, p1, r1)" "res = Inr ()"
      "Publisher_publish_unchecked p1 r1 v = (p', r')"
  using assms by (auto simp: Publisher_try_publish_def split: prod.splits bool.splits)

lemma ring_log_has_room:
  assumes "ring_log r log" "publisher_log p r log" "Publisher_has_room p r h = (b, p', r')"
  shows "ring_log r' log" "publisher_log p' r' log"
  using assms(1,2) has_room_frame [OF assms(3)] by (auto simp: ring_log_def publisher_log_def)

section \<open>Properties\<close>

text \<open>
  C25: On a channel whose cached slowest cursor is a lower bound of the live trackers, \<^verbatim>\<open>try_publish\<close> is
  refused exactly when some live tracker is \<^verbatim>\<open>capacity - watermark\<close> or more messages behind the publisher.  A
  refusal hands back the very value and leaves the slots, the cursor and the sequence number alone; a
  success appends the value to the log.  With a watermark of \<^verbatim>\<open>capacity - 1\<close> a single unread message is enough for a
  refusal, all other slots being free; the documentation of \<^verbatim>\<open>channel_bounded\<close> says that the publisher then blocks
  when only one slot is free.
\<close>

theorem try_publish_full_iff:
  assumes "gate_ok (p, (r, h))" and "ring_log r log" and "publisher_log p r log" and "log_fits log"
    and "\<forall>a \<in> set (live_trackers r h). unat (pb_cached_slowest p) \<le> tracker_value h a"
    and "Publisher_try_publish p r h v = (res, p', r')"
  shows "(res = Inl (Full v) \<and> sr_slots r' = sr_slots r \<and> sr_cursor r' = sr_cursor r \<and> pb_seq p' = pb_seq p \<longleftrightarrow>
            (\<exists>a \<in> set (live_trackers r h). tracker_value h a + window_of r \<le> length log)) \<and>
         (res = Inr () \<and> ring_log r' (log @ [v]) \<and> publisher_log p' r' (log @ [v]) \<longleftrightarrow>
            (\<forall>a \<in> set (live_trackers r h). length log < tracker_value h a + window_of r))"
proof -
  obtain b p1 r1 where room: "Publisher_has_room p r h = (b, p1, r1)" by (metis prod_cases3)
  have n: "unat (pb_seq p) = length log" using assms(3) by (simp add: publisher_log_def)
  have "publisher_room (p, (r, h)) = (b, (p1, (r1, h)))" using room by (simp add: publisher_room_def)
  from pub_gate.room_exact(1) [OF assms(1) this] have
    exact: "b \<longleftrightarrow> (\<forall>a \<in> set (live_trackers r h). length log < tracker_value h a + window_of r)"
    using assms(5) n by auto
  from assms(6) show ?thesis
  proof (cases rule: try_publish_cases)
    case Rejected
    then show ?thesis using room exact has_room_frame [OF room] by (auto simp: not_less)
  next
    case (Published p2 r2)
    then have "ring_log r' (log @ [v])" "publisher_log p' r' (log @ [v])"
      using ring_log_publish ring_log_has_room [OF assms(2,3) room] assms(4) room by auto
    then show ?thesis using Published room exact by (auto simp: not_less)
  qed
qed

text \<open>A channel of four slots with watermark three, one subscriber, and one message it has not read.\<close>

definition demo_tracked :: "publisher \<times> u64 mem" where
  "demo_tracked =
     (let (p, r) = projr (channel_bounded 0 4 3);
          (s, (r1, h)) = Subscribable_subscribe (r, []);
          (res, p', r') = Publisher_try_publish p r1 h 5
      in (p', (r', h)))"

theorem try_publish_full_iff_witness:
  "\<exists>p r h. demo_tracked = (p, (r, h)) \<and> fst (Publisher_try_publish p r h 9) = Inl (Full 9)"
proof -
  obtain p r h where d: "demo_tracked = (p, (r, h))" by (metis prod_cases3)
  have ring: "ring_log (fst (snd demo_tracked)) [5] \<and> publisher_log (fst demo_tracked) (fst (snd demo_tracked)) [5]" by code_simp
  have gate: "unat (pb_cached_slowest (fst demo_tracked)) = 0 \<and> cap (fst (snd demo_tracked)) = 4 \<and>
      sr_backpressure (fst (snd demo_tracked)) = Some \<lparr>bp_watermark = 3, bp_trackers = [0]\<rparr> \<and>
      live_trackers (fst (snd demo_tracked)) (snd (snd demo_tracked)) = [0] \<and> tracker_value (snd (snd demo_tracked)) 0 = 0"
    by code_simp
  have ok: "gate_ok (p, (r, h))" "window_of r = 1" using gate by (simp_all add: d gate_ok_def window_of_def)
  obtain res p' r' where t: "Publisher_try_publish p r h 9 = (res, p', r')" by (metis prod_cases3)
  have "res = Inl (Full 9)"
    using try_publish_full_iff [OF ok(1) _ _ _ _ t, of "[5]"] ring gate ok(2) by (simp add: d log_fits_def)
  then have "fst (Publisher_try_publish p r h 9) = Inl (Full 9)" using t by simp
  with d show ?thesis by blast
qed

end
