(* ===== verification/Channel_System.thy ===== *)
theory Channel_System
  imports Backpressure
begin

text \<open>
  A whole channel: one publisher, the shared ring, the tracker heap and any number of subscribers
  that come and go.  A run is a sequence of operations in any order; each operation acts at once,
  and the outcomes are recorded.
\<close>

section \<open>Operations and runs\<close>

record 'a sys =
  sy_pub :: publisher
  sy_mem :: "'a mem"
  sy_subs :: "subscriber option list"

datatype sub_kind = Plain | Lossy | FromOldest | Tracked

datatype 'a action =
    TryPublish 'a
  | Subscribe sub_kind
  | TryRecv nat
  | Latest nat
  | DropSub nat

datatype 'a outcome =
    PublishResult "'a publish_error + unit"
  | Subscribed nat
  | Received "try_recv_error + 'a"
  | LatestResult "'a option"
  | Dropped
  | NoSuchSubscriber

definition subscribe_as :: "sub_kind \<Rightarrow> 'a mem \<Rightarrow> subscriber \<times> 'a mem" where
  "subscribe_as kind m =
     (case kind of
        Plain \<Rightarrow> Subscribable_subscribe m
      | Lossy \<Rightarrow> Subscribable_subscribe_lossy m
      | FromOldest \<Rightarrow> Subscribable_subscribe_from_oldest m
      | Tracked \<Rightarrow> Subscribable_subscribe_tracked m)"

definition sub_at :: "'a sys \<Rightarrow> nat \<Rightarrow> subscriber option" where
  "sub_at y i = (if i < length (sy_subs y) then sy_subs y ! i else None)"

definition sys_do :: "'a action \<Rightarrow> 'a sys \<Rightarrow> 'a outcome \<times> 'a sys" where
  "sys_do a y =
     (case a of
        TryPublish v \<Rightarrow>
          let (res, p, r) = Publisher_try_publish (sy_pub y) (fst (sy_mem y)) (snd (sy_mem y)) v
          in (PublishResult res, y\<lparr>sy_pub := p, sy_mem := (r, snd (sy_mem y))\<rparr>)
      | Subscribe kind \<Rightarrow>
          let (s, m) = subscribe_as kind (sy_mem y)
          in (Subscribed (length (sy_subs y)), y\<lparr>sy_mem := m, sy_subs := sy_subs y @ [Some s]\<rparr>)
      | TryRecv i \<Rightarrow>
          (case sub_at y i of
             None \<Rightarrow> (NoSuchSubscriber, y)
           | Some s \<Rightarrow>
               let (res, s', m) = Subscriber_try_recv s (sy_mem y)
               in (Received res, y\<lparr>sy_mem := m, sy_subs := (sy_subs y)[i := Some s']\<rparr>))
      | Latest i \<Rightarrow>
          (case sub_at y i of
             None \<Rightarrow> (NoSuchSubscriber, y)
           | Some s \<Rightarrow>
               (case Subscriber_latest [id] s (sy_mem y) of
                  None \<Rightarrow> (NoSuchSubscriber, y)
                | Some (res, s', m, _) \<Rightarrow>
                    (LatestResult res, y\<lparr>sy_mem := m, sy_subs := (sy_subs y)[i := Some s']\<rparr>)))
      | DropSub i \<Rightarrow>
          (case sub_at y i of
             None \<Rightarrow> (NoSuchSubscriber, y)
           | Some s \<Rightarrow>
               (Dropped, y\<lparr>sy_mem := Subscriber_drop s (sy_mem y), sy_subs := (sy_subs y)[i := None]\<rparr>)))"

type_synonym 'a trace = "('a action \<times> 'a outcome) list"

inductive reaches :: "'a sys \<Rightarrow> 'a trace \<Rightarrow> 'a sys \<Rightarrow> bool" for y0 where
  start: "reaches y0 [] y0"
| act: "reaches y0 tr y \<Longrightarrow> sys_do a y = (out, y') \<Longrightarrow> reaches y0 (tr @ [(a, out)]) y'"

inductive_cases reaches_snocE: "reaches y0 (tr @ [ao]) y"

text \<open>What a trace published, and what subscriber \<open>i\<close> received in it.\<close>

definition published_in :: "'a trace \<Rightarrow> 'a list" where
  "published_in tr =
     concat (map (\<lambda>x. case x of (TryPublish v, PublishResult (Inr _)) \<Rightarrow> [v] | _ \<Rightarrow> []) tr)"

definition received_in :: "nat \<Rightarrow> 'a trace \<Rightarrow> 'a list" where
  "received_in i tr =
     concat (map (\<lambda>x. case x of (TryRecv j, Received (Inr v)) \<Rightarrow> if j = i then [v] else [] | _ \<Rightarrow> []) tr)"

section \<open>The invariant of a channel\<close>

definition tracker_at :: "'a sys \<Rightarrow> nat \<Rightarrow> addr option" where
  "tracker_at y i = Option.bind (sub_at y i) sub_tracker"

definition sys_inv :: "'a list \<Rightarrow> 'a sys \<Rightarrow> bool" where
  "sys_inv log y \<longleftrightarrow>
     (case (sy_pub y, sy_mem y) of (p, (r, h)) \<Rightarrow>
        ring_log r log \<and> publisher_log p r log \<and> cap r < 2 ^ 63 \<and>
        (\<forall>bp. sr_backpressure r = Some bp \<longrightarrow> unat (bp_watermark bp) < cap r \<and>
           (\<forall>a \<in> set (bp_trackers bp). \<exists>i. tracker_at y i = Some a)) \<and>
        unat (pb_cached_slowest p) \<le> length log \<and>
        (\<forall>i s. sub_at y i = Some s \<longrightarrow> subscriber_at s r log) \<and>
        (\<forall>i s a. sub_at y i = Some s \<longrightarrow> sub_tracker s = Some a \<longrightarrow>
           a < length h \<and> h ! a = \<lparr>arc_strong = 1, arc_value = sub_cursor s\<rparr>) \<and>
        (\<forall>i j a. tracker_at y i = Some a \<longrightarrow> tracker_at y j = Some a \<longrightarrow> i = j))"

lemma sub_at_simps [simp]:
  "sub_at (y\<lparr>sy_pub := p, sy_mem := m\<rparr>) = sub_at y"
  "sub_at (y\<lparr>sy_mem := m, sy_subs := sy_subs y @ [x]\<rparr>) j =
     (if j = length (sy_subs y) then x else sub_at y j)"
  "sub_at (y\<lparr>sy_mem := m, sy_subs := (sy_subs y)[i := x]\<rparr>) j =
     (if j = i \<and> i < length (sy_subs y) then x else sub_at y j)"
  by (auto simp: sub_at_def fun_eq_iff nth_append nth_list_update)

lemma sub_at_length: "sub_at y i = Some s \<Longrightarrow> i < length (sy_subs y)"
  by (auto simp: sub_at_def split: if_splits)

lemma tracker_at_Some [simp]:
  "tracker_at y i = Some a \<longleftrightarrow> (\<exists>s. sub_at y i = Some s \<and> sub_tracker s = Some a)"
  by (auto simp: tracker_at_def bind_eq_Some_conv)

lemma sys_invD:
  assumes "sys_inv log y" "sy_mem y = (r, h)"
  shows "ring_log r log" "publisher_log (sy_pub y) r log" "cap r < 2 ^ 63"
    "unat (pb_cached_slowest (sy_pub y)) \<le> length log"
    "sr_backpressure r = Some bp \<Longrightarrow> unat (bp_watermark bp) < cap r"
    "sub_at y i = Some s \<Longrightarrow> subscriber_at s r log"
    "sub_at y i = Some s \<Longrightarrow> sub_tracker s = Some a \<Longrightarrow> a < length h"
    "sub_at y i = Some s \<Longrightarrow> sub_tracker s = Some a \<Longrightarrow> h ! a = \<lparr>arc_strong = 1, arc_value = sub_cursor s\<rparr>"
  using assms by (auto simp: sys_inv_def)

lemma sys_inv_registered:
  assumes "sys_inv log y" "sy_mem y = (r, h)" "sr_backpressure r = Some bp" "a \<in> set (bp_trackers bp)"
  obtains i s where "sub_at y i = Some s" "sub_tracker s = Some a"
  using assms by (auto simp: sys_inv_def)

lemma sys_inv_inj:
  assumes "sys_inv log y" "sub_at y i = Some s" "sub_at y j = Some t"
    "sub_tracker s = Some a" "sub_tracker t = Some a"
  shows "i = j"
proof -
  have "tracker_at y i = Some a" "tracker_at y j = Some a" using assms by simp_all
  then show ?thesis using assms(1) unfolding sys_inv_def by (auto split: prod.splits)
qed

lemma sys_invI:
  assumes "sy_mem y = (r, h)" "ring_log r log" "publisher_log (sy_pub y) r log" "cap r < 2 ^ 63"
    "unat (pb_cached_slowest (sy_pub y)) \<le> length log"
    "\<And>bp. sr_backpressure r = Some bp \<Longrightarrow> unat (bp_watermark bp) < cap r"
    "\<And>bp a. sr_backpressure r = Some bp \<Longrightarrow> a \<in> set (bp_trackers bp) \<Longrightarrow>
       \<exists>i s. sub_at y i = Some s \<and> sub_tracker s = Some a"
    "\<And>i s. sub_at y i = Some s \<Longrightarrow> subscriber_at s r log"
    "\<And>i s a. sub_at y i = Some s \<Longrightarrow> sub_tracker s = Some a \<Longrightarrow>
       a < length h \<and> h ! a = \<lparr>arc_strong = 1, arc_value = sub_cursor s\<rparr>"
    "\<And>i j s t a. sub_at y i = Some s \<Longrightarrow> sub_at y j = Some t \<Longrightarrow>
       sub_tracker s = Some a \<Longrightarrow> sub_tracker t = Some a \<Longrightarrow> i = j"
  shows "sys_inv log y"
  using assms unfolding sys_inv_def by (auto 0 3)

lemma live_trackersD:
  "a \<in> set (live_trackers r h) \<Longrightarrow> \<exists>bp. sr_backpressure r = Some bp \<and> a \<in> set (bp_trackers bp)"
  by (cases "sr_backpressure r") (auto simp: live_trackers_def live_def)

lemma sys_inv_tracker_le:
  assumes "sys_inv log y" "sy_mem y = (r, h)" "a \<in> set (live_trackers r h)"
  shows "tracker_value h a \<le> length log"
proof -
  obtain bp where "sr_backpressure r = Some bp" "a \<in> set (bp_trackers bp)"
    using live_trackersD [OF assms(3)] by blast
  then obtain i s where "sub_at y i = Some s" "sub_tracker s = Some a"
    using sys_inv_registered [OF assms(1,2)] by blast
  then show ?thesis using sys_invD(6,8) [OF assms(1,2)] by (simp add: tracker_value_def subscriber_at_def)
qed

lemma sys_inv_gate_ok:
  assumes "sys_inv log y" "log_fits log"
  shows "gate_ok (sy_pub y, sy_mem y)"
proof -
  obtain r h where y: "sy_mem y = (r, h)" by (cases "sy_mem y") auto
  have "length log < 2 ^ 63" using assms(2) by (simp add: log_fits_def)
  then show ?thesis
    using sys_invD(3,4) [OF assms(1) y] sys_invD(5) [OF assms(1) y] sys_inv_tracker_le [OF assms(1) y] y
    by (auto simp: gate_ok_def split: option.splits intro: le_less_trans)
qed

text \<open>Every tracker in the list is live: a tracker is removed when its subscriber is dropped.\<close>

lemma sys_inv_live:
  assumes "sys_inv log y" "sy_mem y = (r, h)" "sr_backpressure r = Some bp"
  shows "live_trackers r h = bp_trackers bp"
proof -
  have "weak_upgrade h a \<noteq> None" if a: "a \<in> set (bp_trackers bp)" for a
    by (rule sys_inv_registered [OF assms a]) (simp add: weak_upgrade_def sys_invD(7,8) [OF assms(1,2)])
  then show ?thesis using assms(3) by (simp add: live_trackers_def live_def)
qed

lemma update_tracker_heap:
  assumes "sub_tracker s = Some a" "a < length h" "h ! a = \<lparr>arc_strong = n, arc_value = v\<rparr>"
  shows "length (Subscriber_update_tracker s h) = length h"
    and "Subscriber_update_tracker s h ! b =
           (if b = a then \<lparr>arc_strong = n, arc_value = sub_cursor s\<rparr> else h ! b)"
  using assms by (auto simp: Subscriber_update_tracker_def arc_store_def nth_list_update)

lemma arc_value_self: "arc_value c = v \<Longrightarrow> c\<lparr>arc_value := v\<rparr> = c"
  by (cases c) auto

lemma update_tracker_same:
  assumes "\<And>a. sub_tracker s = Some a \<Longrightarrow> a < length h \<and> arc_value (h ! a) = sub_cursor s"
  shows "Subscriber_update_tracker s h = h"
  using assms by (auto simp: Subscriber_update_tracker_def arc_store_def arc_value_self split: option.splits)

section \<open>Every operation keeps the invariant\<close>

lemma sys_inv_publish:
  assumes inv: "sys_inv log y" and fits: "log_fits log"
    and act: "sys_do (TryPublish v) y = (out, y')"
  shows "sys_inv (log @ published_in [(TryPublish v, out)]) y'"
proof -
  obtain p r h where y: "sy_pub y = p" "sy_mem y = (r, h)" by (cases "sy_mem y") auto
  obtain res p' r' where pub: "Publisher_try_publish p r h v = (res, p', r')" by (metis prod_cases3)
  have y': "y' = y\<lparr>sy_pub := p', sy_mem := (r', h)\<rparr>" and out: "out = PublishResult res"
    using act pub y by (auto simp: sys_do_def)
  obtain b p1 r1 where room: "Publisher_has_room p r h = (b, p1, r1)" by (metis prod_cases3)
  have logs: "ring_log r log" "publisher_log p r log" using inv y by (auto simp: sys_inv_def)
  note logs1 = ring_log_has_room [OF logs room] and frame = has_room_frame [OF room]
  have ok: "gate_ok (p, (r, h))" using sys_inv_gate_ok [OF inv fits] y by simp
  have bp1: "\<forall>bp1. sr_backpressure r1 = Some bp1 \<longrightarrow> (\<exists>bp. sr_backpressure r = Some bp \<and>
      bp_watermark bp1 = bp_watermark bp \<and> set (bp_trackers bp1) \<subseteq> set (bp_trackers bp))"
    using ok room by (cases rule: has_room_cases) (auto simp: live_def)
  have vals: "\<forall>x \<in> tracker_value h ` set (live_trackers r h). x \<le> length log"
    using sys_inv_tracker_le [OF inv y(2)] by auto
  have "publisher_room (p, (r, h)) = (b, (p1, (r1, h)))" using room by (simp add: publisher_room_def)
  from pub_gate.cached_le [OF ok this, of "length log"] have
    cached: "unat (pb_cached_slowest p1) \<le> length log" using inv y vals by (auto simp: sys_inv_def)
  have "unat (bp_watermark bp) < cap r1 \<and> (\<forall>a \<in> set (bp_trackers bp). \<exists>i s. sub_at y i = Some s \<and> sub_tracker s = Some a)"
    if "sr_backpressure r1 = Some bp" for bp
    using that bp1 sys_invD(5) [OF inv y(2)] sys_inv_registered [OF inv y(2)] frame(2) by (metis subsetD)
  then have inv1: "sys_inv log (y\<lparr>sy_pub := p1, sy_mem := (r1, h)\<rparr>)"
    using inv y logs1 cached frame(2) by (auto simp: sys_inv_def subscriber_at_def)
  from pub show ?thesis
  proof (cases rule: try_publish_cases)
    case Rejected
    then show ?thesis using inv1 room y' out by (simp add: published_in_def)
  next
    case (Published p2 r2)
    then have pu: "Publisher_publish_unchecked p1 r1 v = (p', r')" using room by simp
    note app = ring_log_publish [OF logs1 fits pu]
    have "sr_index r' = sr_index r1" "sr_backpressure r' = sr_backpressure r1"
      "pb_cached_slowest p' = pb_cached_slowest p1"
      using pu by (auto simp: Publisher_publish_unchecked_def Let_def)
    then show ?thesis using inv1 app y' out Published(2)
      by (auto simp: sys_inv_def published_in_def subscriber_at_def intro: le_SucI)
  qed
qed

lemma sys_inv_update_sub:
  assumes inv: "sys_inv log y" and y: "sy_mem y = (r, h)" and s: "sub_at y i = Some s"
    and s': "subscriber_at s' r log" "sub_tracker s' = sub_tracker s"
  shows "sys_inv log (y\<lparr>sy_mem := (r, Subscriber_update_tracker s' h), sy_subs := (sy_subs y)[i := Some s']\<rparr>)"
proof -
  let ?h = "Subscriber_update_tracker s' h"
  note i = sub_at_length [OF s]
  have h: "length ?h = length h" "?h ! b = (if sub_tracker s = Some b then \<lparr>arc_strong = 1, arc_value = sub_cursor s'\<rparr> else h ! b)" for b
    using update_tracker_heap [of s' _ h] sys_invD(7,8) [OF inv y s] s'(2)
    by (cases "sub_tracker s"; auto)+
  have inj: "j = i" if "sub_at y j = Some t" "sub_tracker t = Some a" "sub_tracker s = Some a" for j t a
    using inv y s that unfolding sys_inv_def by (auto 0 3)
  have tr: "tracker_at (y\<lparr>sy_mem := (r, ?h), sy_subs := (sy_subs y)[i := Some s']\<rparr>) j = tracker_at y j" for j
    using s s'(2) i by (auto simp: tracker_at_def)
  show ?thesis
    using inv y s s' i h inj unfolding sys_inv_def tr by (auto simp: split: if_splits)
qed

lemma sys_inv_try_recv:
  assumes inv: "sys_inv log y" and fits: "log_fits log" and s: "sub_at y i = Some s"
    and act: "sys_do (TryRecv i) y = (out, y')"
  obtains res s' where "out = Received res" "sub_at y' i = Some s'"
    "\<And>j. j \<noteq> i \<Longrightarrow> sub_at y' j = sub_at y j" "sy_pub y' = sy_pub y" "fst (sy_mem y') = fst (sy_mem y)"
    "(res, unat (sub_cursor s')) = spec_recv (cap (fst (sy_mem y))) log (unat (sub_cursor s))"
    "sub_tracker s' = sub_tracker s" "sys_inv log y'"
proof -
  obtain r h where y: "sy_mem y = (r, h)" by (cases "sy_mem y") auto
  obtain res s' m' where rc: "Subscriber_try_recv s (r, h) = (res, s', m')" by (metis prod_cases3)
  note ref = try_recv_refines [OF sys_invD(1) [OF inv y] sys_invD(6) [OF inv y s] fits rc]
  have "Subscriber_update_tracker s' h = h" if "res = Inl Empty"
  proof -
    have "unat (sub_cursor s') = unat (sub_cursor s)" using ref(1) that
      by (auto simp: spec_recv_def split: if_splits)
    then show ?thesis using sys_invD(7,8) [OF inv y s] ref(5)
      by (intro update_tracker_same) (simp add: u64_eq_iff)
  qed
  then have m': "m' = (r, Subscriber_update_tracker s' h)" using ref(3,4) by (cases m') auto
  have act': "out = Received res" "y' = y\<lparr>sy_mem := m', sy_subs := (sy_subs y)[i := Some s']\<rparr>"
    using act rc s y by (auto simp: sys_do_def)
  have "sys_inv log y'" using sys_inv_update_sub [OF inv y s ref(2,5)] act' m' by simp
  then show thesis using that [of res s'] act' ref s m' y sub_at_length [OF s] by simp
qed

lemma sys_inv_latest:
  assumes inv: "sys_inv log y" and fits: "log_fits log" and s: "sub_at y i = Some s"
    and act: "sys_do (Latest i) y = (out, y')"
  obtains s' where "out = LatestResult (if log = [] then None else Some (last log))" "sub_at y' i = Some s'"
    "\<And>j. j \<noteq> i \<Longrightarrow> sub_at y' j = sub_at y j" "sy_pub y' = sy_pub y" "fst (sy_mem y') = fst (sy_mem y)"
    "unat (sub_cursor s') = length log" "sub_tracker s' = sub_tracker s" "sys_inv log y'"
proof -
  obtain r h where y: "sy_mem y = (r, h)" by (cases "sy_mem y") auto
  note at = sys_invD(6) [OF inv y s] and rl = sys_invD(1) [OF inv y]
  note i = sub_at_length [OF s]
  show thesis
  proof (cases "log = []")
    case True
    then have "Subscriber_latest [id] s (r, h) = Some (None, s, (r, h), [id])"
      using latest_nothing rl by blast
    then have "out = LatestResult None" "y' = y\<lparr>sy_mem := (r, h), sy_subs := (sy_subs y)[i := Some s]\<rparr>"
      using act s y by (auto simp: sys_do_def)
    moreover have "y\<lparr>sy_mem := (r, h), sy_subs := (sy_subs y)[i := Some s]\<rparr> = y"
      using s i y by (cases y) (auto simp: sub_at_def list_update_same_conv)
    ultimately show ?thesis using that [of s] True at s inv by (simp add: subscriber_at_def)
  next
    case False
    obtain s' h' where l: "Subscriber_latest [id] s (r, h) = Some (Some (last log), s', (r, h'), [])"
        "at_log (cap r) log (s', (r, h'))" "sub_pos (s', (r, h')) = length log"
        "h' = Subscriber_update_tracker s' h" "sub_tracker s' = sub_tracker s"
      using latest_spec [of "cap r" log s r h "[]"] rl at fits False by (auto simp: at_log_def)
    have act': "out = LatestResult (Some (last log))"
        "y' = y\<lparr>sy_mem := (r, h'), sy_subs := (sy_subs y)[i := Some s']\<rparr>"
      using act s y l(1) by (auto simp: sys_do_def)
    have at': "subscriber_at s' r log" using l(2) by (simp add: at_log_def)
    have "sys_inv log y'" using sys_inv_update_sub [OF inv y s at' l(5)] act' l(4) by simp
    then show ?thesis using that [of s'] act' l(3,5) i y False by (simp add: sub_pos_def)
  qed
qed

text \<open>Subscribing: where the new subscriber starts, and whether its tracker is registered.\<close>

definition start_of :: "sub_kind \<Rightarrow> nat \<Rightarrow> 'a list \<Rightarrow> nat" where
  "start_of kind k log = (if kind = FromOldest then length log - k else length log)"

lemma head_next:
  assumes "ring_log r log" "log_fits log"
  shows "unat (if sr_cursor r = u64_max then 0 else sr_cursor r + 1) = length log"
proof (cases "log = []")
  case False
  then have "unat (sr_cursor r) = length log - 1" "length log < 2 ^ 63 - 1"
    using assms by (auto simp: ring_log_def log_fits_def)
  then show ?thesis using False by (auto simp: u64_eq_max_iff unat_u64_Suc neq_Nil_conv)
qed (use assms in \<open>simp add: ring_log_def\<close>)

lemma oldest_start:
  assumes "ring_log r log" "log_fits log"
  shows "unat (if sr_cursor r = u64_max then 0 else if sr_cursor r \<ge> SharedRing_capacity r
           then sr_cursor r - SharedRing_capacity r + 1 else 0) = length log - cap r"
proof (cases "log = []")
  case False
  then have c: "unat (sr_cursor r) = length log - 1" "length log < 2 ^ 63 - 1"
    using assms by (auto simp: ring_log_def log_fits_def)
  have "unat (sr_cursor r - SharedRing_capacity r + 1) = length log - cap r"
    if "cap r \<le> length log - 1"
    using that c False ring_log_cap [OF assms(1)]
    by (simp add: SharedRing_capacity_def unat_u64_Suc unat_u64_diff)
  then show ?thesis using c False
    by (auto simp: u64_eq_max_iff word_le_nat_alt SharedRing_capacity_def neq_Nil_conv)
qed (use assms in \<open>simp add: ring_log_def\<close>)

lemma subscribe_as_spec:
  assumes "ring_log r log" "log_fits log" and sub: "subscribe_as kind (r, h) = (s, (r', h'))"
  shows "sub_index s = sr_index r" "unat (sub_cursor s) = start_of kind (cap r) log"
    "sub_total_received s = 0" "sub_total_lagged s = 0"
    "sub_tracker s = None \<and> r' = r \<and> h' = h \<and> (kind = Lossy \<or> sr_backpressure r = None) \<or>
     sub_tracker s = Some (length h) \<and> h' = h @ [\<lparr>arc_strong = 1, arc_value = sub_cursor s\<rparr>] \<and>
       (case sr_backpressure r of
          None \<Rightarrow> r' = r \<and> kind = Tracked
        | Some bp \<Rightarrow> kind \<noteq> Lossy \<and>
            r' = r\<lparr>sr_backpressure := Some (bp\<lparr>bp_trackers := bp_trackers bp @ [length h]\<rparr>)\<rparr>)"
  using sub head_next [OF assms(1,2)] oldest_start [OF assms(1,2)]
  by (cases kind; cases "sr_backpressure r";
      auto simp: subscribe_as_def Subscribable_subscribe_def Subscribable_subscribe_lossy_def
        Subscribable_subscribe_from_oldest_def Subscribable_subscribe_tracked_def
        SharedRing_register_tracker_at_head_def SharedRing_register_tracker_def arc_new_def start_of_def
        Let_def split: if_splits)+

lemma sys_inv_subscribe:
  assumes inv: "sys_inv log y" and fits: "log_fits log"
    and act: "sys_do (Subscribe kind) y = (out, y')"
  obtains s where "out = Subscribed (length (sy_subs y))" "sub_at y' (length (sy_subs y)) = Some s"
    "sy_pub y' = sy_pub y" "\<And>j. j \<noteq> length (sy_subs y) \<Longrightarrow> sub_at y' j = sub_at y j"
    "subscribe_as kind (sy_mem y) = (s, sy_mem y')" "sys_inv log y'"
proof -
  obtain r h where y: "sy_mem y = (r, h)" by (cases "sy_mem y") auto
  obtain s r' h' where sub: "subscribe_as kind (r, h) = (s, (r', h'))" by (metis prod_cases3)
  note spec = subscribe_as_spec [OF sys_invD(1) [OF inv y] fits sub]
  have y': "out = Subscribed (length (sy_subs y))"
      "y' = y\<lparr>sy_mem := (r', h'), sy_subs := sy_subs y @ [Some s]\<rparr>"
    using act sub y by (auto simp: sys_do_def)
  have fresh: "sub_at y i = Some t \<Longrightarrow> i \<noteq> length (sy_subs y)" for i t using sub_at_length by fastforce
  have old: "sub_at y i = Some t \<Longrightarrow> sub_tracker t \<noteq> Some (length h)" for i t
    using sys_invD(7) [OF inv y] by fastforce
  have at: "subscriber_at s r log" using spec(1,2) by (simp add: subscriber_at_def start_of_def)
  have "sys_inv log y'"
    using spec(5)
  proof (rule disjE)
    assume "sub_tracker s = None \<and> r' = r \<and> h' = h \<and> (kind = Lossy \<or> sr_backpressure r = None)"
    then show ?thesis
      using y' at fresh sys_invD [OF inv y] sys_inv_registered [OF inv y] sys_inv_inj [OF inv]
      by (intro sys_invI [of y' r h]) (auto split: if_splits, metis)
  next
    assume new: "sub_tracker s = Some (length h) \<and> h' = h @ [\<lparr>arc_strong = 1, arc_value = sub_cursor s\<rparr>] \<and>
       (case sr_backpressure r of None \<Rightarrow> r' = r \<and> kind = Tracked
        | Some bp \<Rightarrow> kind \<noteq> Lossy \<and>
            r' = r\<lparr>sr_backpressure := Some (bp\<lparr>bp_trackers := bp_trackers bp @ [length h]\<rparr>)\<rparr>)"
    then have t: "sub_tracker s = Some (length h)" "h' = h @ [\<lparr>arc_strong = 1, arc_value = sub_cursor s\<rparr>]"
      and r': "case sr_backpressure r of None \<Rightarrow> r' = r
        | Some bp \<Rightarrow> r' = r\<lparr>sr_backpressure := Some (bp\<lparr>bp_trackers := bp_trackers bp @ [length h]\<rparr>)\<rparr>"
      by (auto split: option.splits)
    have "sr_index r' = sr_index r" "ring_log r' log" "publisher_log (sy_pub y) r' log"
      using r' sys_invD(1,2) [OF inv y] by (auto simp: ring_log_def publisher_log_def split: option.splits)
    moreover have "unat (bp_watermark bp) < cap r' \<and>
        (\<forall>a \<in> set (bp_trackers bp). a = length h \<or> (\<exists>i t. sub_at y i = Some t \<and> sub_tracker t = Some a))"
      if "sr_backpressure r' = Some bp" for bp
      using that r' sys_invD(5) [OF inv y] sys_inv_registered [OF inv y]
      by (cases "sr_backpressure r") (auto, metis)
    moreover have "a < length h' \<and> h' ! a = \<lparr>arc_strong = 1, arc_value = sub_cursor u\<rparr>"
      if "sub_at y i = Some u" "sub_tracker u = Some a" for i u a
      using sys_invD(7,8) [OF inv y that] t(2) by (auto simp: nth_append)
    moreover have "subscriber_at u r' log" if "sub_at y i = Some u" for i u
      using sys_invD(6) [OF inv y that] calculation(1) by (simp add: subscriber_at_def)
    ultimately show ?thesis
      using y' at fresh old t sys_invD(3,4) [OF inv y] sys_inv_inj [OF inv]
      by (intro sys_invI [of y' r' h']) (auto simp: subscriber_at_def split: if_splits, metis)
  qed
  then show thesis using that [of s] y' sub y by simp
qed

lemma sys_inv_drop:
  assumes inv: "sys_inv log y" and s: "sub_at y i = Some s"
    and act: "sys_do (DropSub i) y = (out, y')"
  shows "sys_inv log y'" "sub_at y' i = None" "\<And>j. j \<noteq> i \<Longrightarrow> sub_at y' j = sub_at y j"
    "sy_pub y' = sy_pub y"
proof -
  obtain r h where y: "sy_mem y = (r, h)" by (cases "sy_mem y") auto
  note i = sub_at_length [OF s]
  have y': "y' = y\<lparr>sy_mem := Subscriber_drop s (r, h), sy_subs := (sy_subs y)[i := None]\<rparr>"
    using act s y by (auto simp: sys_do_def)
  show "sub_at y' i = None" "\<And>j. j \<noteq> i \<Longrightarrow> sub_at y' j = sub_at y j" "sy_pub y' = sy_pub y"
    using i by (auto simp: y')
  obtain r' h' where m': "Subscriber_drop s (r, h) = (r', h')" by (metis prod.exhaust)
  have keep: "sub_at y' j = Some t \<longleftrightarrow> j \<noteq> i \<and> sub_at y j = Some t" for j t using i by (auto simp: y')
  have r': "sr_index r' = sr_index r" "ring_log r' log" "publisher_log (sy_pub y) r' log"
    using m' sys_invD(1,2) [OF inv y]
    by (auto simp: ring_log_def publisher_log_def Subscriber_drop_def Let_def split: option.splits)
  have bp': "\<exists>bp. sr_backpressure r = Some bp \<and> bp_watermark bp' = bp_watermark bp \<and>
      set (bp_trackers bp') = set (bp_trackers bp) - set_option (sub_tracker s)"
    if "sr_backpressure r' = Some bp'" for bp'
    using that m' by (auto simp: Subscriber_drop_def Let_def split: option.splits)
  have h': "h' = (case sub_tracker s of None \<Rightarrow> h | Some a \<Rightarrow> arc_drop h a)"
    using m' by (auto simp: Subscriber_drop_def Let_def split: option.splits)
  have heap: "b < length h' \<and> h' ! b = \<lparr>arc_strong = 1, arc_value = sub_cursor t\<rparr>"
    if "sub_at y j = Some t" "sub_tracker t = Some b" "j \<noteq> i" for j t b
  proof -
    have "sub_tracker s \<noteq> Some b" using sys_inv_inj [OF inv s that(1) _ that(2)] that(3) by auto
    then show ?thesis using sys_invD(7,8) [OF inv y that(1,2)]
      by (auto simp: h' arc_drop_def nth_list_update split: option.splits)
  qed
  have reg: "\<exists>j t. sub_at y' j = Some t \<and> sub_tracker t = Some b"
    if bp: "sr_backpressure r' = Some bp" and b: "b \<in> set (bp_trackers bp)" for bp b
  proof -
    obtain bp0 where bp0: "sr_backpressure r = Some bp0" "b \<in> set (bp_trackers bp0)" "sub_tracker s \<noteq> Some b"
      using bp' [OF bp] b by auto
    from sys_inv_registered [OF inv y bp0(1,2)] obtain j t where "sub_at y j = Some t" "sub_tracker t = Some b"
      by blast
    then show ?thesis using bp0(3) s keep by (metis option.inject)
  qed
  show "sys_inv log y'"
  proof (rule sys_invI [of y' r' h'])
    show "sy_mem y' = (r', h')" using y' m' by simp
  qed (use r' reg keep heap sys_invD [OF inv y] sys_inv_inj [OF inv] bp'
       \<open>sy_pub y' = sy_pub y\<close> in \<open>auto simp: subscriber_at_def\<close>)
qed

lemma published_in_append [simp]: "published_in (xs @ ys) = published_in xs @ published_in ys"
  by (simp add: published_in_def)

lemma received_in_append [simp]: "received_in i (xs @ ys) = received_in i xs @ received_in i ys"
  by (simp add: received_in_def)

lemma published_in_Nil [simp]: "published_in [] = []"
  by (simp add: published_in_def)

lemma received_in_Nil [simp]: "received_in i [] = []"
  by (simp add: received_in_def)

lemma published_in_other:
  "(\<And>v. a \<noteq> TryPublish v) \<Longrightarrow> published_in [(a, out)] = []"
  by (cases a) (auto simp: published_in_def)

lemma published_in_le: "length (published_in tr) \<le> length tr"
proof (induction tr)
  case (Cons x tr)
  have "length (published_in [x]) \<le> 1"
    by (cases x) (auto simp: published_in_def split: action.splits outcome.splits sum.splits)
  then show ?case using Cons published_in_append [of "[x]" tr] by simp
qed simp

lemma sys_inv_step:
  assumes inv: "sys_inv log y" and fits: "log_fits log" and act: "sys_do a y = (out, y')"
  shows "sys_inv (log @ published_in [(a, out)]) y'"
proof (cases a)
  case (TryPublish v)
  then show ?thesis using sys_inv_publish [OF inv fits] act by simp
next
  case (Subscribe kind)
  then show ?thesis using sys_inv_subscribe [OF inv fits] act by (metis append_Nil2 action.distinct(1) published_in_other)
next
  case (TryRecv i)
  have "sys_inv log y'"
  proof (cases "sub_at y i")
    case None
    then show ?thesis using inv act TryRecv by (simp add: sys_do_def)
  next
    case (Some s)
    then show ?thesis using sys_inv_try_recv [OF inv fits Some] act TryRecv by blast
  qed
  then show ?thesis by (simp add: published_in_other TryRecv)
next
  case (Latest i)
  have "sys_inv log y'"
  proof (cases "sub_at y i")
    case None
    then show ?thesis using inv act Latest by (simp add: sys_do_def)
  next
    case (Some s)
    then show ?thesis using sys_inv_latest [OF inv fits Some] act Latest by blast
  qed
  then show ?thesis by (simp add: published_in_other Latest)
next
  case (DropSub i)
  have "sys_inv log y'"
  proof (cases "sub_at y i")
    case None
    then show ?thesis using inv act DropSub by (simp add: sys_do_def)
  next
    case (Some s)
    then show ?thesis using sys_inv_drop(1) [OF inv Some] act DropSub by blast
  qed
  then show ?thesis by (simp add: published_in_other DropSub)
qed

lemma log_fits_append: "log_fits (xs @ ys) \<Longrightarrow> log_fits xs"
  by (simp add: log_fits_def)

lemma reaches_inv:
  assumes "reaches y0 tr y" "sys_inv log y0" "length log + length tr < 2 ^ 63 - 1"
  shows "sys_inv (log @ published_in tr) y"
  using assms
proof (induction rule: reaches.induct)
  case (act tr y a out y')
  then have inv: "sys_inv (log @ published_in tr) y" by simp
  have "log_fits (log @ published_in tr)"
    using act.prems published_in_le [of tr] by (simp add: log_fits_def)
  from sys_inv_step [OF inv this act.hyps(2)] show ?case by simp
qed simp

lemma reaches_append:
  "reaches y0 (tr1 @ tr2) y \<Longrightarrow> \<exists>ym. reaches y0 tr1 ym \<and> reaches ym tr2 y"
proof (induction tr2 arbitrary: y rule: rev_induct)
  case Nil
  then show ?case by (auto intro: reaches.start)
next
  case (snoc x tr2)
  then have "reaches y0 ((tr1 @ tr2) @ [x]) y" by simp
  then obtain ym a out where "x = (a, out)" "reaches y0 (tr1 @ tr2) ym" "sys_do a ym = (out, y)"
    by (elim reaches_snocE) auto
  with snoc.IH show ?case by (blast intro: reaches.act)
qed

definition fresh_sys :: "publisher \<Rightarrow> 'a shared_ring \<Rightarrow> 'a sys" where
  "fresh_sys p r = \<lparr>sy_pub = p, sy_mem = (r, []), sy_subs = []\<rparr>"

lemma fresh_sys_inv:
  assumes "ring_log r []" "publisher_log p r []" "cap r < 2 ^ 63" "pb_cached_slowest p = 0"
    "\<And>bp. sr_backpressure r = Some bp \<Longrightarrow> bp_trackers bp = [] \<and> unat (bp_watermark bp) < cap r"
  shows "sys_inv [] (fresh_sys p r)"
  using assms by (intro sys_invI [of _ r "[]"]) (auto simp: fresh_sys_def sub_at_def)

end
