(* ===== verification/Channel_Delivery.thy ===== *)
theory Channel_Delivery
  imports Channel_System "HOL-Library.Sublist"
begin

text \<open>
  What a subscriber gets out of a run of the channel: on a bounded channel every message from the
  subscription on, exactly once and in order; on any channel a subsequence with an exact account
  of what was skipped.
\<close>

section \<open>The guard of a gating subscriber\<close>

text \<open>
  What backpressure maintains for a subscriber whose tracker is registered: the publisher stays
  within one window of the subscriber's position, or of the position \<open>g\<close> the publisher had when the
  subscriber registered; and the publisher's cache does not exceed that bound.
\<close>

definition registered :: "'a shared_ring \<Rightarrow> subscriber \<Rightarrow> bool" where
  "registered r s \<longleftrightarrow> (\<exists>bp a. sr_backpressure r = Some bp \<and> sub_tracker s = Some a \<and> a \<in> set (bp_trackers bp))"

definition guarded :: "nat \<Rightarrow> 'a list \<Rightarrow> 'a sys \<Rightarrow> subscriber \<Rightarrow> bool" where
  "guarded g log y s \<longleftrightarrow>
     registered (fst (sy_mem y)) s \<and>
     length log \<le> max (unat (sub_cursor s)) g + window_of (fst (sy_mem y)) \<and>
     unat (pb_cached_slowest (sy_pub y)) \<le> max (unat (sub_cursor s)) g"

lemma window_le_cap: "window_of r \<le> cap r"
  by (simp add: window_of_def split: option.splits)

lemma guarded_publish:
  assumes inv: "sys_inv log y" and fits: "log_fits log" and s: "sub_at y i = Some s"
    and g: "guarded g log y s" and act: "sys_do (TryPublish v) y = (out, y')"
  shows "guarded g (log @ published_in [(TryPublish v, out)]) y' s"
proof -
  obtain r h where y: "sy_mem y = (r, h)" by (cases "sy_mem y") auto
  let ?p = "sy_pub y"
  obtain bp a where reg: "sr_backpressure r = Some bp" "sub_tracker s = Some a" "a \<in> set (bp_trackers bp)"
    using g y by (auto simp: guarded_def registered_def)
  obtain res p' r' where pub: "Publisher_try_publish ?p r h v = (res, p', r')" by (metis prod_cases3)
  obtain b p1 r1 where room: "Publisher_has_room ?p r h = (b, p1, r1)" by (metis prod_cases3)
  have y': "y' = y\<lparr>sy_pub := p', sy_mem := (r', h)\<rparr>" "out = PublishResult res"
    using act pub y by (auto simp: sys_do_def)
  have ok: "gate_ok (?p, (r, h))" using sys_inv_gate_ok [OF inv fits] y by simp
  have seq: "unat (pb_seq ?p) = length log" using sys_invD(2) [OF inv y] by (simp add: publisher_log_def)
  have live: "a \<in> set (live_trackers r h)" using sys_inv_live [OF inv y reg(1)] reg(3) by simp
  have val: "tracker_value h a = unat (sub_cursor s)"
    using sys_invD(8) [OF inv y s reg(2)] by (simp add: tracker_value_def)
  have step: "publisher_room (?p, (r, h)) = (b, (p1, (r1, h)))" using room by (simp add: publisher_room_def)
  note prot = pub_gate.room_protects [OF ok step, of "unat (sub_cursor s)" g]
  have cached: "unat (pb_cached_slowest p1) \<le> max (unat (sub_cursor s)) g"
    and more: "b \<Longrightarrow> length log < max (unat (sub_cursor s)) g + window_of r"
    using prot g y seq imageI [OF live, of "tracker_value h"] val by (simp_all add: guarded_def)
  note keep = has_room_keeps_gates [OF ok room]
  have reg1: "registered r1 s"
  proof -
    obtain bp1 where bp1: "sr_backpressure r1 = Some bp1" using has_room_frame(5) [OF room] reg(1) by auto
    have "a \<in> set (live_trackers r1 h)" using live keep(3) by simp
    then have "a \<in> set (bp_trackers bp1)" using bp1 by (auto simp: live_trackers_def live_def)
    then show ?thesis using bp1 reg(2) by (auto simp: registered_def)
  qed
  from pub show ?thesis
  proof (cases rule: try_publish_cases)
    case Rejected
    then show ?thesis using g y y' cached keep(2) reg1 room by (simp add: guarded_def published_in_def)
  next
    case (Published p2 r2)
    then have pu: "Publisher_publish_unchecked p1 r1 v = (p', r')" and "b" using room by auto
    have "sr_backpressure r' = sr_backpressure r1" "window_of r' = window_of r1"
      "pb_cached_slowest p' = pb_cached_slowest p1"
      using pu by (auto simp: Publisher_publish_unchecked_def Let_def window_of_def split: option.splits)
    then show ?thesis using more [OF \<open>b\<close>] y' cached keep(2) reg1 Published(2)
      by (simp add: guarded_def published_in_def registered_def)
  qed
qed

lemma guarded_subscribe:
  assumes "subscribe_as kind m = (t, m')" "guarded g log y s" "sy_mem y = m" "sy_mem y' = m'" "sy_pub y' = sy_pub y"
  shows "guarded g log y' s"
proof -
  obtain r h where m: "m = (r, h)" by (cases m)
  obtain bp where bp: "sr_backpressure r = Some bp" using assms m by (auto simp: guarded_def registered_def)
  have "window_of (fst m') = window_of r \<and> (registered r s \<longrightarrow> registered (fst m') s)"
    using assms(1) m bp
    by (cases kind) (auto simp: subscribe_as_def Subscribable_subscribe_def Subscribable_subscribe_lossy_def
        Subscribable_subscribe_from_oldest_def Subscribable_subscribe_tracked_def
        SharedRing_register_tracker_at_head_def SharedRing_register_tracker_def arc_new_def
        window_of_def registered_def Let_def)
  then show ?thesis using assms m by (simp add: guarded_def)
qed

lemma guarded_drop:
  assumes inv: "sys_inv log y" and s: "sub_at y i = Some s" and t: "sub_at y j = Some t" "j \<noteq> i"
    and g: "guarded g log y s" and act: "sys_do (DropSub j) y = (out, y')"
  shows "guarded g log y' s"
proof -
  obtain r h where y: "sy_mem y = (r, h)" by (cases "sy_mem y") auto
  obtain bp a where reg: "sr_backpressure r = Some bp" "sub_tracker s = Some a" "a \<in> set (bp_trackers bp)"
    using g y by (auto simp: guarded_def registered_def)
  have "sub_tracker t \<noteq> Some a" using sys_inv_inj [OF inv s t(1) reg(2)] t(2) by auto
  then have "window_of (fst (Subscriber_drop t (r, h))) = window_of r \<and> registered (fst (Subscriber_drop t (r, h))) s"
    using reg by (auto simp: Subscriber_drop_def Let_def window_of_def registered_def split: option.splits)
  moreover have "sy_mem y' = Subscriber_drop t (r, h)" "sy_pub y' = sy_pub y"
    using act t y by (auto simp: sys_do_def)
  ultimately show ?thesis using g y by (simp add: guarded_def)
qed

lemma guarded_move:
  assumes "guarded g log y s" "sub_tracker s' = sub_tracker s" "unat (sub_cursor s) \<le> unat (sub_cursor s')"
    "fst (sy_mem y') = fst (sy_mem y)" "sy_pub y' = sy_pub y"
  shows "guarded g log y' s'"
  using assms by (auto simp: guarded_def registered_def)

section \<open>Following one subscriber\<close>

text \<open>What one operation means for subscriber \<open>i\<close>.\<close>

lemma sub_step_cases:
  assumes inv: "sys_inv log y" and fits: "log_fits log" and s: "sub_at y i = Some s"
    and act: "sys_do a y = (out, y')"
  obtains (Recv) res s' where "a = TryRecv i" "out = Received res" "sub_at y' i = Some s'"
      "(res, unat (sub_cursor s')) = spec_recv (cap (fst (sy_mem y))) log (unat (sub_cursor s))"
      "sub_tracker s' = sub_tracker s" "fst (sy_mem y') = fst (sy_mem y)" "sy_pub y' = sy_pub y"
  | (Latest) "a = Latest i"
  | (Drop) "a = DropSub i" "sub_at y' i = None"
  | (Publish) v where "a = TryPublish v" "sub_at y' i = Some s"
  | (Subscribe) kind t where "a = Subscribe kind" "sub_at y' i = Some s"
      "subscribe_as kind (sy_mem y) = (t, sy_mem y')" "sy_pub y' = sy_pub y"
  | (OtherDrop) j t where "a = DropSub j" "j \<noteq> i" "sub_at y j = Some t" "sub_at y' i = Some s"
  | (Other) "sub_at y' i = Some s" "\<And>v. a \<noteq> TryPublish v" "a \<noteq> TryRecv i"
      "fst (sy_mem y') = fst (sy_mem y)" "sy_pub y' = sy_pub y"
proof (cases a)
  case (TryPublish v)
  then have "sub_at y' i = sub_at y i" using act by (auto simp: sys_do_def split: prod.splits)
  then show thesis using Publish TryPublish s by simp
next
  case (Subscribe kind)
  show thesis
  proof (rule sys_inv_subscribe [OF inv fits act [unfolded Subscribe]])
    fix t assume "sy_pub y' = sy_pub y" "\<And>j. j \<noteq> length (sy_subs y) \<Longrightarrow> sub_at y' j = sub_at y j"
      "subscribe_as kind (sy_mem y) = (t, sy_mem y')"
    then show thesis using that(5) [OF Subscribe] s sub_at_length [OF s] by auto
  qed
next
  case (TryRecv j)
  show thesis
  proof (cases "sub_at y j")
    case None
    then show thesis using act TryRecv s that(7) by (cases "j = i") (auto simp: sys_do_def)
  next
    case (Some t)
    show thesis
      by (rule sys_inv_try_recv [OF inv fits Some act [unfolded TryRecv]])
        (use TryRecv s Some that(1,7) in \<open>cases "j = i"; auto\<close>)
  qed
next
  case (Latest j)
  show thesis
  proof (cases "sub_at y j")
    case None
    then show thesis using act Latest s that(7) by (auto simp: sys_do_def)
  next
    case (Some t)
    show thesis
      by (rule sys_inv_latest [OF inv fits Some act [unfolded Latest]])
        (use Latest s Some that(2,7) in \<open>cases "j = i"; auto\<close>)
  qed
next
  case (DropSub j)
  show thesis
  proof (cases "sub_at y j")
    case None
    then show thesis using act DropSub s that(7) by (auto simp: sys_do_def)
  next
    case (Some t)
    then show thesis using sys_inv_drop(2,3) [OF inv Some act [unfolded DropSub]] DropSub s that(3,6)
      by (cases "j = i") auto
  qed
qed

definition lagged_in :: "nat \<Rightarrow> 'a trace \<Rightarrow> nat" where
  "lagged_in i tr =
     sum_list (map (\<lambda>x. case x of (TryRecv j, Received (Inl (Lagged k))) \<Rightarrow> if j = i then unat k else 0 | _ \<Rightarrow> 0) tr)"

lemma lagged_in_append [simp]: "lagged_in i (xs @ ys) = lagged_in i xs + lagged_in i ys"
  by (simp add: lagged_in_def)

lemma lagged_in_Nil [simp]: "lagged_in i [] = 0"
  by (simp add: lagged_in_def)

lemma not_recv_silent:
  "a \<noteq> TryRecv i \<Longrightarrow> received_in i [(a, out)] = [] \<and> lagged_in i [(a, out)] = 0"
  by (auto simp: received_in_def lagged_in_def split: action.splits outcome.splits sum.splits try_recv_error.splits)

lemma recv_counts [simp]:
  "received_in i [(TryRecv i, Received (Inr v))] = [v]" "lagged_in i [(TryRecv i, Received (Inr v))] = 0"
  "received_in i [(TryRecv i, Received (Inl e))] = []" "lagged_in i [(TryRecv i, Received (Inl Empty))] = 0"
  "lagged_in i [(TryRecv i, Received (Inl (Lagged k)))] = unat k"
  by (simp_all add: received_in_def lagged_in_def)

lemma gone_stays:
  assumes "sub_at y i = None" "i < length (sy_subs y)" "sys_do a y = (out, y')"
  shows "sub_at y' i = None" "i < length (sy_subs y')"
    "received_in i [(a, out)] = [] \<and> lagged_in i [(a, out)] = 0"
proof -
  show "sub_at y' i = None" "i < length (sy_subs y')"
    using assms
    by (auto simp: sys_do_def sub_at_def nth_append nth_list_update
        split: action.splits option.splits prod.splits if_splits)
  have "a = TryRecv i \<Longrightarrow> out = NoSuchSubscriber" using assms by (simp add: sys_do_def)
  then show "received_in i [(a, out)] = [] \<and> lagged_in i [(a, out)] = 0"
    using not_recv_silent [of a i out] by (cases "a = TryRecv i") (simp_all add: received_in_def lagged_in_def)
qed

text \<open>Lists: one more message, at position \<open>c\<close>.\<close>

lemma subseq_take_Suc:
  assumes "subseq xs (drop a (take c L))" "a \<le> c" "c < length L"
  shows "subseq (xs @ [L ! c]) (drop a (take (Suc c) L))"
  using assms by (simp add: take_Suc_conv_app_nth)

lemma subseq_take_mono:
  assumes "subseq xs (drop a (take c L))" "c \<le> d"
  shows "subseq xs (drop a (take d L))"
proof -
  have "prefix (drop a (take c L)) (drop a (take d L))"
    using assms(2) by (metis drop_take min.absorb1 min.commute take_is_prefix take_take diff_le_mono)
  then show ?thesis using assms(1) by (meson prefix_imp_subseq subseq_order.order_trans)
qed

lemma take_drop_Suc:
  "g \<le> c \<Longrightarrow> c < length L \<Longrightarrow> take (Suc c - g) (drop g L) = take (c - g) (drop g L) @ [L ! c]"
  by (simp add: Suc_diff_le take_Suc_conv_app_nth)

lemma spec_recv_cases:
  assumes "(res, c') = spec_recv k log c" "c \<le> length log" "log_fits log"
  obtains (AtEnd) "res = Inl Empty" "c' = c" "c = length log"
  | (Value) "res = Inr (log ! c)" "c' = Suc c" "c < length log"
  | (Lag) m where "res = Inl (Lagged m)" "unat m = length log - k - c" "c' = length log - k" "c + k < length log"
proof -
  have u: "unat (of_nat (length log - k - c) :: u64) = length log - k - c"
    using assms(3) by (intro unat_of_nat_u64) (simp add: log_fits_def)
  consider "c = length log" | "c < length log" "length log \<le> c + k" | "c + k < length log"
    using assms(2) by linarith
  then show thesis
  proof cases
    case 1 then show thesis using AtEnd assms(1) by (simp add: spec_recv_def)
  next
    case 2 then show thesis using Value assms(1) by (simp add: spec_recv_def)
  next
    case 3 then show thesis using Lag [OF _ u] assms(1) by (simp add: spec_recv_def)
  qed
qed

section \<open>Exact accounting on any channel\<close>

definition followed :: "nat \<Rightarrow> 'a sys \<Rightarrow> nat \<Rightarrow> bool" where
  "followed i y c \<longleftrightarrow> i < length (sy_subs y) \<and> (\<forall>s. sub_at y i = Some s \<longrightarrow> unat (sub_cursor s) = c)"

lemma follow_counts:
  assumes "reaches y tr y'" "sys_inv log y" "length log + length tr < 2 ^ 63 - 1"
    "sub_at y i = Some s" "\<forall>out. (Latest i, out) \<notin> set tr"
  defines "L \<equiv> log @ published_in tr" and "start \<equiv> unat (sub_cursor s)"
  shows "\<exists>c. followed i y' c \<and> c = start + length (received_in i tr) + lagged_in i tr \<and>
           c \<le> length L \<and> subseq (received_in i tr) (drop start (take c L))"
  using assms(1,3,5) unfolding L_def start_def
proof (induction rule: reaches.induct)
  case start
  have "subscriber_at s (fst (sy_mem y)) log" using sys_invD(6) [OF assms(2) surjective_pairing assms(4)] .
  then show ?case using assms(4) sub_at_length [OF assms(4)] by (auto simp: followed_def subscriber_at_def)
next
  case (act tr y1 a out y')
  let ?L = "log @ published_in tr" and ?s0 = "unat (sub_cursor s)"
  have rn: "reaches y tr y1" by fact
  have short: "length log + length tr < 2 ^ 63 - 1" using act.prems by simp
  have fits: "log_fits ?L" using short published_in_le [of tr] by (simp add: log_fits_def)
  have inv: "sys_inv ?L y1" by (rule reaches_inv [OF rn assms(2) short])
  obtain c where c: "followed i y1 c" "c = ?s0 + length (received_in i tr) + lagged_in i tr"
      "c \<le> length ?L" "subseq (received_in i tr) (drop ?s0 (take c ?L))"
    using act.IH short act.prems(2) by auto
  have grow: "subseq (received_in i tr) (drop ?s0 (take c (?L @ xs)))" for xs using c(3,4) by simp
  show ?case
  proof (cases "sub_at y1 i")
    case None
    then show ?thesis using gone_stays [OF None _ act.hyps(2)] c(1,2,3) grow
      by (intro exI [of _ c]) (simp add: followed_def)
  next
    case (Some s1)
    have c1: "unat (sub_cursor s1) = c" using c(1) Some by (simp add: followed_def)
    note len = sub_at_length
    have other: ?thesis if "a \<noteq> TryRecv i" "followed i y' c"
      using that c(2,3) grow not_recv_silent [of a i out] by (intro exI [of _ c]) simp
    from inv fits Some act.hyps(2) show ?thesis
    proof (cases rule: sub_step_cases)
      case (Recv res s2)
      have pub: "published_in [(a, out)] = []" using Recv(1) by (simp add: published_in_other)
      have fol: "followed i y' (unat (sub_cursor s2))" using Recv(3) len by (auto simp: followed_def)
      from Recv(4) c(3) fits show ?thesis unfolding c1
      proof (cases rule: spec_recv_cases)
        case AtEnd
        then show ?thesis using c fol pub Recv(1,2)
          by (intro exI [of _ c]) simp
      next
        case Value
        then show ?thesis using c fol pub Recv(1,2) subseq_take_Suc [OF c(4) _ Value(3)]
          by (intro exI [of _ "Suc c"]) simp
      next
        case (Lag m)
        then show ?thesis using c fol pub Recv(1,2) subseq_take_mono [OF c(4), of "c + unat m"]
          by (intro exI [of _ "c + unat m"]) simp
      qed
    next
      case Latest
      then show ?thesis using act.prems by auto
    next
      case Drop
      have "i < length (sy_subs y')" using Drop(1) len [OF Some] act.hyps(2) Some by (auto simp: sys_do_def)
      then show ?thesis using Drop by (intro other) (simp_all add: followed_def)
    next
      case (Publish v)
      then show ?thesis using len c1 by (intro other) (auto simp: followed_def)
    next
      case (Subscribe kind t)
      then show ?thesis using len c1 by (intro other) (auto simp: followed_def)
    next
      case (OtherDrop j t)
      then show ?thesis using len c1 by (intro other) (auto simp: followed_def)
    next
      case Other
      then show ?thesis using len c1 by (intro other) (auto simp: followed_def)
    qed
  qed
qed

section \<open>No loss behind a guard\<close>

lemma guarded_step:
  assumes inv: "sys_inv log y" and fits: "log_fits log" and s: "sub_at y i = Some s"
    and g: "guarded g log y s" and act: "sys_do a y = (out, y')" and s': "sub_at y' i = Some s'"
    and nl: "a \<noteq> Latest i"
  shows "guarded g (log @ published_in [(a, out)]) y' s'"
  using inv fits s act
proof (cases rule: sub_step_cases)
  case (Recv res s2)
  have "unat (sub_cursor s) \<le> unat (sub_cursor s2)"
    using Recv(4) by (auto simp: spec_recv_def split: if_splits)
  then have "guarded g log y' s2" by (rule guarded_move [OF g Recv(5) _ Recv(6,7)])
  then show ?thesis using Recv(1,3) s' by (simp add: published_in_other)
next
  case (Publish v)
  then show ?thesis using guarded_publish [OF inv fits s g] act s' by simp
next
  case (Subscribe kind t)
  then show ?thesis using guarded_subscribe [OF Subscribe(3) g refl refl Subscribe(4)] s' by (simp add: published_in_other)
next
  case (OtherDrop j t)
  then show ?thesis using guarded_drop [OF inv s OtherDrop(3,2) g] act s' by (simp add: published_in_other)
next
  case Other
  have "guarded g log y' s" by (rule guarded_move [OF g refl _ Other(4,5)]) simp
  then show ?thesis using Other(1,2) s' by (simp add: published_in_other)
qed (use nl s' in auto)

text \<open>A receive of a guarded subscriber: below \<open>g\<close> it may skip, but never past \<open>g\<close>; from \<open>g\<close> on it
  never skips.\<close>

lemma guarded_recv_cases:
  assumes "(res, c') = spec_recv (cap r) log c" "c \<le> length log" "log_fits log"
    and "length log \<le> max c g + window_of r"
  obtains (AtEnd) "res = Inl Empty" "c' = c" "c = length log"
  | (Value) "res = Inr (log ! c)" "c' = Suc c" "c < length log"
  | (Lag) m where "res = Inl (Lagged m)" "c < c'" "c' \<le> g" "c' \<le> length log"
  using assms(1-3)
proof (cases rule: spec_recv_cases)
  case (Lag m)
  have w: "window_of r \<le> cap r" by (rule window_le_cap)
  have "c < g"
  proof (rule ccontr)
    assume "\<not> c < g"
    then have "length log \<le> c + window_of r" using assms(4) by (simp add: max_def)
    then show False using w Lag(4) by linarith
  qed
  then have "length log \<le> g + window_of r" using assms(4) by (simp add: max_def)
  then have "unat m = length log - cap r - c" "c < length log - cap r" "length log - cap r \<le> g"
    using Lag w by linarith+
  then show ?thesis using that(3) [of m] Lag(1,3) by simp
qed (use that in auto)

lemma follow_guarded:
  assumes "reaches y tr y'" "sys_inv log y" "length log + length tr < 2 ^ 63 - 1"
    "sub_at y i = Some s" "\<forall>out. (Latest i, out) \<notin> set tr"
    "guarded g log y s" "unat (sub_cursor s) \<le> g"
  defines "L \<equiv> log @ published_in tr" and "start \<equiv> unat (sub_cursor s)"
  shows "\<exists>c pre. followed i y' c \<and> (\<forall>s'. sub_at y' i = Some s' \<longrightarrow> guarded g L y' s') \<and>
           start \<le> c \<and> c \<le> length L \<and> received_in i tr = pre @ take (c - g) (drop g L) \<and>
           subseq pre (drop start (take (min c g) L)) \<and>
           (\<forall>k. (TryRecv i, Received (Inl (Lagged k))) \<in> set tr \<longrightarrow> start < g)"
  using assms(1,3,5) unfolding L_def start_def
proof (induction rule: reaches.induct)
  case start
  have "subscriber_at s (fst (sy_mem y)) log" using sys_invD(6) [OF assms(2) surjective_pairing assms(4)] .
  then show ?case using assms(4,6,7) sub_at_length [OF assms(4)]
    by (intro exI [of _ "unat (sub_cursor s)"] exI [of _ "[]"]) (auto simp: followed_def subscriber_at_def)
next
  case (act tr y1 a out y')
  let ?L = "log @ published_in tr" and ?s0 = "unat (sub_cursor s)"
  have rn: "reaches y tr y1" by fact
  have short: "length log + length tr < 2 ^ 63 - 1" using act.prems by simp
  have fits: "log_fits ?L" using short published_in_le [of tr] by (simp add: log_fits_def)
  have inv: "sys_inv ?L y1" by (rule reaches_inv [OF rn assms(2) short])
  obtain c pre where c: "followed i y1 c" "\<forall>s'. sub_at y1 i = Some s' \<longrightarrow> guarded g ?L y1 s'"
      "?s0 \<le> c" "c \<le> length ?L" "received_in i tr = pre @ take (c - g) (drop g ?L)"
      "subseq pre (drop ?s0 (take (min c g) ?L))"
      "\<forall>k. (TryRecv i, Received (Inl (Lagged k))) \<in> set tr \<longrightarrow> ?s0 < g"
    using act.IH short act.prems(2) by auto
  have keep: "take (c - g) (drop g (?L @ xs)) = take (c - g) (drop g ?L)"
      "take (min c g) (?L @ xs) = take (min c g) ?L" for xs
    using c(4) by (auto simp: min_def)
  show ?case
  proof (cases "sub_at y1 i")
    case None
    note gone = gone_stays [OF None _ act.hyps(2)]
    have "(TryRecv i, Received (Inl (Lagged k))) \<noteq> (a, out)" for k
      using act.hyps(2) None by (auto simp: sys_do_def)
    then show ?thesis using gone c keep
      by (intro exI [of _ c] exI [of _ pre]) (auto simp: followed_def)
  next
    case (Some s1)
    have c1: "unat (sub_cursor s1) = c" using c(1) Some by (simp add: followed_def)
    have g1: "guarded g ?L y1 s1" using c(2) Some by simp
    have nl: "a \<noteq> Latest i" using act.prems by auto
    have g': "\<forall>s'. sub_at y' i = Some s' \<longrightarrow> guarded g (?L @ published_in [(a, out)]) y' s'"
      using guarded_step [OF inv fits Some g1 act.hyps(2) _ nl] by blast
    have len: "i < length (sy_subs y')"
      using sub_at_length [OF Some] act.hyps(2)
      by (auto simp: sys_do_def split: action.splits option.splits prod.splits)
    show ?thesis
    proof (cases "a = TryRecv i")
      case False
      have "followed i y' c" using inv fits Some act.hyps(2)
        by (cases rule: sub_step_cases) (use False nl len c1 in \<open>auto simp: followed_def\<close>)
      moreover have "received_in i [(a, out)] = []" using not_recv_silent [OF False] by simp
      ultimately show ?thesis using c keep g' False
        by (intro exI [of _ c] exI [of _ pre]) auto
    next
      case True
      obtain res s2 where recv: "out = Received res" "sub_at y' i = Some s2"
          "(res, unat (sub_cursor s2)) = spec_recv (cap (fst (sy_mem y1))) ?L c"
        using inv fits Some act.hyps(2) by (cases rule: sub_step_cases) (use True c1 in auto)
      have fol: "followed i y' (unat (sub_cursor s2))" using recv(2) len by (simp add: followed_def)
      have pub: "published_in [(a, out)] = []" using True by (simp add: published_in_other)
      have "length ?L \<le> max c g + window_of (fst (sy_mem y1))" using g1 c1 by (simp add: guarded_def)
      from recv(3) c(4) fits this show ?thesis
      proof (cases rule: guarded_recv_cases)
        case AtEnd
        then show ?thesis using c fol pub g' True recv(1)
          by (intro exI [of _ c] exI [of _ pre]) auto
      next
        case Value
        show ?thesis
        proof (cases "c < g")
          case True
          have "subseq (pre @ [?L ! c]) (drop ?s0 (take (min (Suc c) g) ?L))"
            using subseq_take_Suc [OF _ c(3) Value(3), of pre] c(6) True by (simp add: min_def)
          then show ?thesis using c fol pub g' \<open>a = TryRecv i\<close> recv(1) Value True
            by (intro exI [of _ "Suc c"] exI [of _ "pre @ [?L ! c]"]) auto
        next
          case False
          then have "take (Suc c - g) (drop g ?L) = take (c - g) (drop g ?L) @ [?L ! c]"
              "min (Suc c) g = min c g"
            using take_drop_Suc [of g c ?L] Value(3) by auto
          then show ?thesis using c fol pub g' \<open>a = TryRecv i\<close> recv(1) Value
            by (intro exI [of _ "Suc c"] exI [of _ pre]) auto
        qed
      next
        case (Lag m)
        let ?c = "unat (sub_cursor s2)"
        have "subseq pre (drop ?s0 (take (min ?c g) ?L))"
          using subseq_take_mono [OF c(6), of "min ?c g"] Lag(2,3) by simp
        then show ?thesis using c fol pub g' True recv(1) Lag
          by (intro exI [of _ ?c] exI [of _ pre]) auto
      qed
    qed
  qed
qed

section \<open>From the channel constructors\<close>

definition is_bounded :: "'a sys \<Rightarrow> bool" where
  "is_bounded y \<longleftrightarrow> sr_backpressure (fst (sy_mem y)) \<noteq> None"

lemma subscribe_as_bounded:
  "subscribe_as kind m = (s, m') \<Longrightarrow> (sr_backpressure (fst m') = None) = (sr_backpressure (fst m) = None)"
  by (cases kind; cases "sr_backpressure (fst m)")
    (auto simp: subscribe_as_def Subscribable_subscribe_def Subscribable_subscribe_lossy_def
        Subscribable_subscribe_from_oldest_def Subscribable_subscribe_tracked_def
        SharedRing_register_tracker_at_head_def SharedRing_register_tracker_def arc_new_def Let_def
        split: prod.splits)

lemma try_publish_bounded:
  assumes "Publisher_try_publish p r h v = (res, p', r')"
  shows "(sr_backpressure r' = None) = (sr_backpressure r = None)"
  using assms
proof (cases rule: try_publish_cases)
  case Rejected
  then show ?thesis using has_room_frame(5) by blast
next
  case (Published p1 r1)
  then show ?thesis using has_room_frame(5) [OF Published(1)] publish_unchecked_frame(2) [of p1 r1 v] by simp
qed

lemma sys_do_bounded:
  assumes inv: "sys_inv log y" and fits: "log_fits log" and act: "sys_do a y = (out, y')"
  shows "is_bounded y' = is_bounded y"
proof (cases a)
  case (TryPublish v)
  obtain res p' r' where pub: "Publisher_try_publish (sy_pub y) (fst (sy_mem y)) (snd (sy_mem y)) v = (res, p', r')"
    by (metis prod_cases3)
  then show ?thesis using act TryPublish try_publish_bounded [OF pub] by (auto simp: sys_do_def is_bounded_def)
next
  case (Subscribe kind)
  then show ?thesis using act subscribe_as_bounded by (fastforce simp: sys_do_def is_bounded_def split: prod.splits)
next
  case (TryRecv i)
  show ?thesis
  proof (cases "sub_at y i")
    case (Some s)
    show ?thesis by (rule sys_inv_try_recv [OF inv fits Some act [unfolded TryRecv]]) (simp add: is_bounded_def)
  qed (use act TryRecv in \<open>simp add: sys_do_def\<close>)
next
  case (Latest i)
  show ?thesis
  proof (cases "sub_at y i")
    case (Some s)
    show ?thesis by (rule sys_inv_latest [OF inv fits Some act [unfolded Latest]]) (simp add: is_bounded_def)
  qed (use act Latest in \<open>simp add: sys_do_def\<close>)
next
  case (DropSub i)
  then show ?thesis using act
    by (auto simp: sys_do_def is_bounded_def Subscriber_drop_def Let_def split: option.splits)
qed

lemma reaches_bounded:
  assumes "reaches y0 tr y" "sys_inv log y0" "length log + length tr < 2 ^ 63 - 1"
  shows "is_bounded y = is_bounded y0"
  using assms
proof (induction rule: reaches.induct)
  case (act tr y a out y')
  have inv: "sys_inv (log @ published_in tr) y" using reaches_inv [OF act.hyps(1)] act.prems by simp
  have fits: "log_fits (log @ published_in tr)"
    using act.prems published_in_le [of tr] by (simp add: log_fits_def)
  show ?case using sys_do_bounded [OF inv fits act.hyps(2)] act by simp
qed simp

lemma bounded_fresh:
  assumes "channel_bounded u c w = Inr (p, r)" "unat c < 2 ^ 63"
  shows "sys_inv [] (fresh_sys p r)" "is_bounded (fresh_sys p r)"
proof -
  note ch = channel_bounded_log [OF assms(1)]
  show "sys_inv [] (fresh_sys p r)" using ch assms(2) by (intro fresh_sys_inv) auto
  show "is_bounded (fresh_sys p r)" using ch(4) by (simp add: is_bounded_def fresh_sys_def)
qed

lemma lossy_fresh:
  assumes "channel u c = Inr (p, r)" "unat c < 2 ^ 63"
  shows "sys_inv [] (fresh_sys p r)"
  using channel_log [OF assms(1)] assms(2) by (auto intro!: fresh_sys_inv)

text \<open>The moment of subscribing.\<close>

lemma subscribe_point:
  assumes run: "reaches y0 (tr1 @ (Subscribe kind, Subscribed i) # tr2) y"
    and inv: "sys_inv [] y0" and short: "length tr1 + length tr2 + 1 < 2 ^ 63 - 1"
  obtains y1 s where "reaches y1 tr2 y" "sys_inv (published_in tr1) y1" "sub_at y1 i = Some s"
    "unat (sub_cursor s) = start_of kind (cap (fst (sy_mem y1))) (published_in tr1)"
    "is_bounded y0 \<Longrightarrow> kind \<noteq> Lossy \<Longrightarrow> guarded (length (published_in tr1)) (published_in tr1) y1 s"
proof -
  let ?log = "published_in tr1"
  obtain ym where m: "reaches y0 tr1 ym" "reaches ym ([(Subscribe kind, Subscribed i)] @ tr2) y"
    using reaches_append [OF run] by auto
  obtain y1 where y1: "reaches ym [(Subscribe kind, Subscribed i)] y1" "reaches y1 tr2 y"
    using reaches_append [OF m(2)] by auto
  have act: "sys_do (Subscribe kind) ym = (Subscribed i, y1)"
    using reaches_snocE [of ym "[]" "(Subscribe kind, Subscribed i)" y1] y1(1) by (auto elim: reaches.cases)
  have invm: "sys_inv ?log ym" using reaches_inv [OF m(1) inv] short by simp
  have fits: "log_fits ?log" using short published_in_le [of tr1] by (simp add: log_fits_def)
  obtain r h where ym: "sy_mem ym = (r, h)" by (cases "sy_mem ym")
  show thesis
  proof (rule sys_inv_subscribe [OF invm fits act])
    fix s assume s: "Subscribed i = Subscribed (length (sy_subs ym))" "sub_at y1 (length (sy_subs ym)) = Some s"
      "sy_pub y1 = sy_pub ym" "subscribe_as kind (sy_mem ym) = (s, sy_mem y1)" "sys_inv ?log y1"
    obtain r1 h1 where y1m: "sy_mem y1 = (r1, h1)" by (cases "sy_mem y1")
    note spec = subscribe_as_spec [OF sys_invD(1) [OF invm ym] fits s(4) [unfolded ym y1m]]
    have ix: "sr_index r1 = sr_index r"
      using spec(5) by (auto split: option.splits)
    have g: "guarded (length ?log) ?log y1 s" if "is_bounded y0" "kind \<noteq> Lossy"
    proof -
      have "is_bounded ym" using reaches_bounded [OF m(1) inv] short that(1) by simp
      then obtain bp where bp: "sr_backpressure r = Some bp" using ym by (auto simp: is_bounded_def)
      then have "registered r1 s" using spec(5) that(2) by (auto simp: registered_def)
      then show ?thesis using sys_invD(4) [OF invm ym] s(3) y1m by (simp add: guarded_def max.coboundedI2)
    qed
    show thesis using that [of y1 s] y1(2) s spec(2) ix g y1m by simp
  qed
qed

lemma empty_at_end:
  assumes run: "reaches y1 (tr @ [(TryRecv i, Received (Inl Empty))]) y" and inv: "sys_inv log y1"
    and short: "length log + length tr < 2 ^ 63 - 1"
  obtains s where "sub_at y i = Some s" "unat (sub_cursor s) = length (log @ published_in tr)"
proof -
  let ?L = "log @ published_in tr"
  obtain ym where m: "reaches y1 tr ym" "sys_do (TryRecv i) ym = (Received (Inl Empty), y)"
    using run by (elim reaches_snocE) auto
  have invm: "sys_inv ?L ym" by (rule reaches_inv [OF m(1) inv short])
  have fits: "log_fits ?L" using short published_in_le [of tr] by (simp add: log_fits_def)
  obtain s where s: "sub_at ym i = Some s"
    using m(2) by (cases "sub_at ym i") (auto simp: sys_do_def)
  show thesis
  proof (rule sys_inv_try_recv [OF invm fits s m(2)])
    fix res s' assume a: "Received (Inl Empty) = Received res" "sub_at y i = Some s'"
      "(res, unat (sub_cursor s')) = spec_recv (cap (fst (sy_mem ym))) ?L (unat (sub_cursor s))"
    have "subscriber_at s (fst (sy_mem ym)) ?L" using sys_invD(6) [OF invm surjective_pairing s] .
    then have "unat (sub_cursor s) \<le> length ?L" by (simp add: subscriber_at_def)
    with a show thesis using that [of s'] by (auto simp: spec_recv_def split: if_splits)
  qed
qed

lemma rejected_names_slow:
  assumes inv: "sys_inv log y" and fits: "log_fits log"
    and act: "sys_do (TryPublish v) y = (PublishResult (Inl e), y')"
  shows "e = Full v \<and> (\<exists>i s. sub_at y' i = Some s \<and> registered (fst (sy_mem y')) s \<and>
           unat (sub_cursor s) + window_of (fst (sy_mem y')) \<le> length log)"
proof -
  obtain r h where y: "sy_mem y = (r, h)" by (cases "sy_mem y") auto
  obtain res p' r' where pub: "Publisher_try_publish (sy_pub y) r h v = (res, p', r')" by (metis prod_cases3)
  have y': "y' = y\<lparr>sy_pub := p', sy_mem := (r', h)\<rparr>" and res: "res = Inl e"
    using act pub y by (auto simp: sys_do_def)
  have ok: "gate_ok (sy_pub y, (r, h))" using sys_inv_gate_ok [OF inv fits] y by simp
  have room: "Publisher_has_room (sy_pub y) r h = (False, p', r')" and e: "e = Full v"
    using pub res by (cases rule: try_publish_cases; simp)+
  from ok room show ?thesis
  proof (cases rule: has_room_cases)
    case (Scan bp m)
    then obtain a where a: "a \<in> set (live_trackers r h)" "unat m = tracker_value h a" by blast
    have "a \<in> set (bp_trackers bp)" using a(1) sys_inv_live [OF inv y Scan(1)] by simp
    then obtain i s where s: "sub_at y i = Some s" "sub_tracker s = Some a"
      using sys_inv_registered [OF inv y Scan(1)] by blast
    have "unat m = unat (sub_cursor s)"
      using a(2) sys_invD(8) [OF inv y s] by (simp add: tracker_value_def)
    moreover have "unat (pb_seq (sy_pub y)) = length log"
      using sys_invD(2) [OF inv y] by (simp add: publisher_log_def)
    moreover have "registered r' s" using Scan(1,6) a(1) s(2) by (auto simp: registered_def live_trackers_def)
    moreover have "window_of r' = window_of r" by (rule has_room_keeps_gates(2) [OF ok room])
    ultimately show ?thesis using s(1) y' Scan(7) e by (auto simp: not_less)
  qed auto
qed

text \<open>A subscriber of a bounded channel that only uses \<^verbatim>\<open>try_recv\<close> has received the messages from its subscription up
  to its position.\<close>

lemma bounded_receives:
  assumes "channel_bounded u c w = Inr (p, r)" and "unat c < 2 ^ 63" and "kind = Plain \<or> kind = Tracked"
    and "reaches (fresh_sys p r) (tr1 @ (Subscribe kind, Subscribed i) # tr2) y"
    and "\<forall>out. (Latest i, out) \<notin> set tr2" and "length tr1 + length tr2 + 1 < 2 ^ 63 - 1"
  obtains y1 n where "reaches y1 tr2 y" "sys_inv (published_in tr1) y1" "followed i y n" "length (published_in tr1) \<le> n"
    "received_in i tr2 = take (n - length (published_in tr1)) (published_in tr2)"
    "length (received_in i tr2) = n - length (published_in tr1)"
    "\<forall>k. (TryRecv i, Received (Inl (Lagged k))) \<notin> set tr2"
proof -
  let ?log = "published_in tr1"
  obtain y1 s where s: "reaches y1 tr2 y" "sys_inv ?log y1" "sub_at y1 i = Some s"
      "unat (sub_cursor s) = start_of kind (cap (fst (sy_mem y1))) ?log" "guarded (length ?log) ?log y1 s"
    by (rule subscribe_point [OF assms(4) bounded_fresh(1) [OF assms(1,2)] assms(6)])
      (use bounded_fresh(2) [OF assms(1,2)] assms(3) in auto)
  have st: "unat (sub_cursor s) = length ?log" using s(4) assms(3) by (auto simp: start_of_def)
  have short: "length ?log + length tr2 < 2 ^ 63 - 1" using assms(6) published_in_le [of tr1] by simp
  obtain n pre where n: "followed i y n" "length ?log \<le> n" "n \<le> length (?log @ published_in tr2)"
      "received_in i tr2 = pre @ take (n - length ?log) (published_in tr2)"
      "subseq pre (drop (length ?log) (take (min n (length ?log)) (?log @ published_in tr2)))"
      "\<forall>k. (TryRecv i, Received (Inl (Lagged k))) \<notin> set tr2"
    using follow_guarded [OF s(1,2) short s(3) assms(5) s(5)] st by auto
  have "pre = []" using n(2,5) by simp
  then show thesis using n s(1,2) by (intro that [of y1 n]) auto
qed

section \<open>Running a script\<close>

fun run_script :: "'a action list \<Rightarrow> 'a sys \<Rightarrow> 'a trace \<times> 'a sys" where
  "run_script [] y = ([], y)"
| "run_script (a # as) y =
     (let (out, y1) = sys_do a y; (tr, y2) = run_script as y1 in ((a, out) # tr, y2))"

lemma reaches_Cons:
  assumes "reaches y1 tr y2" "sys_do a y = (out, y1)"
  shows "reaches y ((a, out) # tr) y2"
  using assms
proof (induction rule: reaches.induct)
  case start
  then show ?case using reaches.act [OF reaches.start] by fastforce
next
  case (act tr y2 b out2 y3)
  then show ?case using reaches.act [of y "(a, out) # tr"] by simp
qed

lemma run_script_reaches: "run_script as y = (tr, y') \<Longrightarrow> reaches y tr y'"
  by (induction as arbitrary: y tr y')
    (auto simp: Let_def split: prod.splits intro: reaches.start reaches_Cons)

text \<open>Concrete runs on rings of two slots: the second publish of the message 3 comes after a receive
  has made room, and the lossy subscriber skips two messages.\<close>

definition demo_bounded :: "u64 sys" where
  "demo_bounded = (case projr (channel_bounded 0 2 0) of (p, r) \<Rightarrow> fresh_sys p r)"

definition demo_lossy :: "u64 sys" where
  "demo_lossy = (case projr (channel 0 2) of (p, r) \<Rightarrow> fresh_sys p r)"

definition demo_bounded_tail :: "u64 trace" where
  "demo_bounded_tail =
     [(TryPublish 1, PublishResult (Inr ())), (TryPublish 2, PublishResult (Inr ())),
      (TryPublish 3, PublishResult (Inl (Full 3))), (TryRecv 0, Received (Inr 1)),
      (TryPublish 3, PublishResult (Inr ())), (TryRecv 0, Received (Inr 2)),
      (TryRecv 0, Received (Inr 3)), (TryRecv 0, Received (Inl Empty))]"

definition demo_lossy_tail :: "u64 trace" where
  "demo_lossy_tail =
     [(TryPublish 1, PublishResult (Inr ())), (TryPublish 2, PublishResult (Inr ())),
      (TryPublish 3, PublishResult (Inr ())), (TryPublish 4, PublishResult (Inr ())),
      (TryRecv 0, Received (Inl (Lagged 2))), (TryRecv 0, Received (Inr 3)),
      (TryRecv 0, Received (Inr 4)), (TryRecv 0, Received (Inl Empty))]"

lemma demo_bounded_run:
  assumes "kind = Plain \<or> kind = FromOldest"
  shows "\<exists>y. reaches demo_bounded ([] @ (Subscribe kind, Subscribed 0) # demo_bounded_tail) y"
proof -
  have "fst (run_script (Subscribe kind # map fst demo_bounded_tail) demo_bounded) =
      (Subscribe kind, Subscribed 0) # demo_bounded_tail"
    using assms by (elim disjE; hypsubst; code_simp)
  then show ?thesis
    using run_script_reaches [of "Subscribe kind # map fst demo_bounded_tail" demo_bounded]
    by (metis append_Nil prod.collapse)
qed

lemma demo_lossy_run:
  "\<exists>y. reaches demo_lossy ([] @ (Subscribe Plain, Subscribed 0) # demo_lossy_tail) y"
proof -
  have "fst (run_script (Subscribe Plain # map fst demo_lossy_tail) demo_lossy) =
      (Subscribe Plain, Subscribed 0) # demo_lossy_tail"
    by code_simp
  then show ?thesis
    using run_script_reaches [of "Subscribe Plain # map fst demo_lossy_tail" demo_lossy]
    by (metis append_Nil prod.collapse)
qed

lemma demo_sys_channel:
  "\<exists>p r. channel_bounded (0 :: u64) 2 0 = Inr (p, r) \<and> demo_bounded = fresh_sys p r"
  "\<exists>p r. channel (0 :: u64) 2 = Inr (p, r) \<and> demo_lossy = fresh_sys p r"
  by (auto simp: channel_bounded_def SharedRing_new_bounded_def channel_def SharedRing_new_def
      RingIndex_new_def Let_def demo_bounded_def demo_lossy_def)

section \<open>Properties\<close>

text \<open>
  C1: no loss on a bounded channel. Whatever the publisher, this subscriber and any number of other
  subscribers do, in any order, a subscriber made with \<^verbatim>\<open>subscribe\<close> or \<^verbatim>\<open>subscribe_tracked\<close> receives
  the messages published after its subscription exactly once and in order, without a gap, and is
  never told that it lagged; if its last receive found nothing, it has received all of them.
\<close>

theorem bounded_channel_no_loss:
  assumes "channel_bounded u c w = Inr (p, r)" and "unat c < 2 ^ 63" and "kind = Plain \<or> kind = Tracked"
    and "reaches (fresh_sys p r) (tr1 @ (Subscribe kind, Subscribed i) # tr2) y"
    and "\<forall>out. (Latest i, out) \<notin> set tr2" and "length tr1 + length tr2 + 1 < 2 ^ 63 - 1"
  shows "received_in i tr2 = take (length (received_in i tr2)) (published_in tr2) \<and>
         (\<forall>k. (TryRecv i, Received (Inl (Lagged k))) \<notin> set tr2) \<and>
         (\<forall>tr3. tr2 = tr3 @ [(TryRecv i, Received (Inl Empty))] \<longrightarrow> received_in i tr2 = published_in tr2)"
proof -
  let ?log = "published_in tr1"
  obtain y1 n where n: "reaches y1 tr2 y" "sys_inv ?log y1" "followed i y n" "length ?log \<le> n"
      "received_in i tr2 = take (n - length ?log) (published_in tr2)" "length (received_in i tr2) = n - length ?log"
      "\<forall>k. (TryRecv i, Received (Inl (Lagged k))) \<notin> set tr2"
    by (rule bounded_receives [OF assms])
  have short: "length ?log + length tr2 < 2 ^ 63 - 1" using assms(6) published_in_le [of tr1] by simp
  have "received_in i tr2 = published_in tr2" if e: "tr2 = tr3 @ [(TryRecv i, Received (Inl Empty))]" for tr3
  proof (rule empty_at_end [OF n(1) [unfolded e] n(2)])
    fix s' assume s': "sub_at y i = Some s'" "unat (sub_cursor s') = length (?log @ published_in tr3)"
    then have "n = length ?log + length (published_in tr2)"
      using n(3) e by (simp add: followed_def published_in_other)
    then show ?thesis using n(5) by simp
  qed (use short e in simp)
  then show ?thesis using n(5,6,7) by simp
qed

theorem bounded_channel_no_loss_witness:
  "received_in 0 demo_bounded_tail = published_in demo_bounded_tail \<and> length (published_in demo_bounded_tail) = 3"
proof -
  obtain p r where pr: "channel_bounded (0 :: u64) 2 0 = Inr (p, r)" "demo_bounded = fresh_sys p r"
    using demo_sys_channel(1) by blast
  obtain y where y: "reaches (fresh_sys p r) ([] @ (Subscribe Plain, Subscribed 0) # demo_bounded_tail) y"
    using demo_bounded_run [of Plain] pr(2) by auto
  have "received_in 0 demo_bounded_tail = published_in demo_bounded_tail"
    using bounded_channel_no_loss [OF pr(1) _ _ y] by (simp add: demo_bounded_tail_def)
  then show ?thesis by (simp add: demo_bounded_tail_def published_in_def)
qed

text \<open>
  a subscriber made with \<^verbatim>\<open>subscribe_from_oldest\<close> on a bounded channel may lose part of the
  history it starts in, but what it receives is that history with gaps at most, followed by the
  messages published after its subscription, exactly once and in order, without a gap.
\<close>

theorem from_oldest_keeps_later_messages:
  assumes "channel_bounded u c w = Inr (p, r)" and "unat c < 2 ^ 63"
    and "reaches (fresh_sys p r) (tr1 @ (Subscribe FromOldest, Subscribed i) # tr2) y"
    and "\<forall>out. (Latest i, out) \<notin> set tr2" and "length tr1 + length tr2 + 1 < 2 ^ 63 - 1"
  shows "\<exists>old n. received_in i tr2 = old @ take n (published_in tr2) \<and> subseq old (published_in tr1)"
proof -
  let ?log = "published_in tr1"
  obtain y1 s where s: "reaches y1 tr2 y" "sys_inv ?log y1" "sub_at y1 i = Some s"
      "unat (sub_cursor s) = start_of FromOldest (cap (fst (sy_mem y1))) ?log" "guarded (length ?log) ?log y1 s"
    by (rule subscribe_point [OF assms(3) bounded_fresh(1) [OF assms(1,2)] assms(5)])
      (use bounded_fresh(2) [OF assms(1,2)] in auto)
  have st: "unat (sub_cursor s) \<le> length ?log" using s(4) by (auto simp: start_of_def)
  have short: "length ?log + length tr2 < 2 ^ 63 - 1" using assms(5) published_in_le [of tr1] by simp
  obtain n pre where n: "received_in i tr2 = pre @ take (n - length ?log) (published_in tr2)"
      "subseq pre (drop (unat (sub_cursor s)) (take (min n (length ?log)) (?log @ published_in tr2)))"
    using follow_guarded [OF s(1,2) short s(3) assms(4) s(5) st] by auto
  have "subseq (drop (unat (sub_cursor s)) (take (min n (length ?log)) ?log)) ?log"
    by (meson suffix_drop suffix_imp_subseq prefix_imp_subseq subseq_order.order_trans take_is_prefix)
  then have "subseq pre ?log" using n(2) subseq_order.order_trans by (simp add: min_def split: if_splits)
  then show ?thesis using n(1) by blast
qed

theorem from_oldest_keeps_later_messages_witness:
  "\<exists>old n. received_in 0 demo_bounded_tail = old @ take n (published_in demo_bounded_tail) \<and>
           subseq old (published_in ([] :: u64 trace))"
proof -
  obtain p r where pr: "channel_bounded (0 :: u64) 2 0 = Inr (p, r)" "demo_bounded = fresh_sys p r"
    using demo_sys_channel(1) by blast
  obtain y where y: "reaches (fresh_sys p r) ([] @ (Subscribe FromOldest, Subscribed 0) # demo_bounded_tail) y"
    using demo_bounded_run [of FromOldest] pr(2) by auto
  show ?thesis
    using from_oldest_keeps_later_messages [OF pr(1) _ y] by (simp add: demo_bounded_tail_def)
qed

text \<open>
  C8: exact accounting on a lossy channel. Whatever happens in between, what a subscriber received is
  a subsequence of what was published after its subscription, and when it has caught up, the
  messages received and the reported skip counts add up to exactly the number of messages
  published since.
\<close>

theorem lossy_accounting:
  assumes "channel u c = Inr (p, r)" and "unat c < 2 ^ 63" and "kind \<noteq> FromOldest"
    and "reaches (fresh_sys p r) (tr1 @ (Subscribe kind, Subscribed i) # tr2) y"
    and "\<forall>out. (Latest i, out) \<notin> set tr2" and "length tr1 + length tr2 + 1 < 2 ^ 63 - 1"
  shows "subseq (received_in i tr2) (published_in tr2) \<and>
         (\<forall>tr3. tr2 = tr3 @ [(TryRecv i, Received (Inl Empty))] \<longrightarrow>
            length (received_in i tr2) + lagged_in i tr2 = length (published_in tr2))"
proof -
  let ?log = "published_in tr1"
  obtain y1 s where s: "reaches y1 tr2 y" "sys_inv ?log y1" "sub_at y1 i = Some s"
      "unat (sub_cursor s) = start_of kind (cap (fst (sy_mem y1))) ?log"
    by (rule subscribe_point [OF assms(4) lossy_fresh [OF assms(1,2)] assms(6)]) auto
  have st: "unat (sub_cursor s) = length ?log" using s(4) assms(3) by (simp add: start_of_def)
  have short: "length ?log + length tr2 < 2 ^ 63 - 1" using assms(6) published_in_le [of tr1] by simp
  obtain n where n: "followed i y n" "n = length ?log + length (received_in i tr2) + lagged_in i tr2"
      "subseq (received_in i tr2) (drop (length ?log) (take n (?log @ published_in tr2)))"
    using follow_counts [OF s(1,2) short s(3) assms(5)] st by auto
  have "subseq (take (n - length ?log) (published_in tr2)) (published_in tr2)"
    by (meson prefix_imp_subseq take_is_prefix)
  moreover have "drop (length ?log) (take n (?log @ published_in tr2)) = take (n - length ?log) (published_in tr2)"
    using n(2) by simp
  ultimately have sub: "subseq (received_in i tr2) (published_in tr2)"
    using n(3) by (metis subseq_order.order_trans)
  have "length (received_in i tr2) + lagged_in i tr2 = length (published_in tr2)"
    if e: "tr2 = tr3 @ [(TryRecv i, Received (Inl Empty))]" for tr3
  proof (rule empty_at_end [OF s(1) [unfolded e] s(2)])
    fix s' assume "sub_at y i = Some s'" "unat (sub_cursor s') = length (?log @ published_in tr3)"
    then show ?thesis using n(1,2) e by (simp add: followed_def published_in_other)
  qed (use short e in simp)
  then show ?thesis using sub by blast
qed

theorem lossy_accounting_witness:
  "received_in 0 demo_lossy_tail = [3, 4] \<and>
   length (received_in 0 demo_lossy_tail) + lagged_in 0 demo_lossy_tail = length (published_in demo_lossy_tail)"
proof -
  obtain p r where pr: "channel (0 :: u64) 2 = Inr (p, r)" "demo_lossy = fresh_sys p r"
    using demo_sys_channel(2) by blast
  obtain y where y: "reaches (fresh_sys p r) ([] @ (Subscribe Plain, Subscribed 0) # demo_lossy_tail) y"
    using demo_lossy_run pr(2) by auto
  have "length (received_in 0 demo_lossy_tail) + lagged_in 0 demo_lossy_tail = length (published_in demo_lossy_tail)"
    using lossy_accounting [OF pr(1) _ _ y] by (simp add: demo_lossy_tail_def)
  then show ?thesis by (simp add: demo_lossy_tail_def received_in_def)
qed

text \<open>
  Only a live gating subscriber can block the publisher. Whenever a run's \<^verbatim>\<open>try_publish\<close> is
  refused, the refused value comes back and there is a subscriber that has not been dropped, whose
  tracker is registered, and which is \<^verbatim>\<open>capacity - watermark\<close> messages or more behind; lossy and
  dropped subscribers never hold the publisher back.
\<close>

theorem full_names_slow_subscriber:
  assumes "channel_bounded u c w = Inr (p, r)" and "unat c < 2 ^ 63"
    and "reaches (fresh_sys p r) (tr @ [(TryPublish v, PublishResult (Inl e))]) y"
    and "length tr < 2 ^ 63 - 1"
  shows "e = Full v \<and> (\<exists>i s. sub_at y i = Some s \<and> registered (fst (sy_mem y)) s \<and>
           unat (sub_cursor s) + window_of (fst (sy_mem y)) \<le> length (published_in tr))"
proof -
  obtain ym where m: "reaches (fresh_sys p r) tr ym" "sys_do (TryPublish v) ym = (PublishResult (Inl e), y)"
    using assms(3) by (elim reaches_snocE) auto
  have "sys_inv (published_in tr) ym"
    using reaches_inv [OF m(1) bounded_fresh(1) [OF assms(1,2)]] assms(4) by simp
  moreover have "log_fits (published_in tr)" using assms(4) published_in_le [of tr] by (simp add: log_fits_def)
  ultimately show ?thesis using m(2) by (rule rejected_names_slow)
qed

theorem full_names_slow_subscriber_witness:
  "\<exists>y. reaches demo_bounded
     ([(Subscribe Plain, Subscribed 0), (TryPublish 1, PublishResult (Inr ())),
       (TryPublish 2, PublishResult (Inr ()))] @ [(TryPublish 3, PublishResult (Inl (Full 3)))]) y \<and>
     (\<exists>i s. sub_at y i = Some s \<and> registered (fst (sy_mem y)) s)"
proof -
  let ?tr = "[(Subscribe Plain, Subscribed 0), (TryPublish 1, PublishResult (Inr ())),
       (TryPublish 2, PublishResult (Inr ()))] :: u64 trace"
  obtain p r where pr: "channel_bounded (0 :: u64) 2 0 = Inr (p, r)" "demo_bounded = fresh_sys p r"
    using demo_sys_channel(1) by blast
  have "reaches demo_bounded ((?tr @ [(TryPublish 3, PublishResult (Inl (Full 3)))]) @ drop 3 demo_bounded_tail) y
      \<Longrightarrow> \<exists>z. reaches demo_bounded (?tr @ [(TryPublish 3, PublishResult (Inl (Full 3)))]) z" for y
    using reaches_append by blast
  then obtain z where z: "reaches demo_bounded (?tr @ [(TryPublish 3, PublishResult (Inl (Full 3)))]) z"
    using demo_bounded_run [of Plain] by (auto simp: demo_bounded_tail_def)
  show ?thesis
    using full_names_slow_subscriber [OF pr(1) _ z [unfolded pr(2)]] z by auto
qed

text \<open>
  C31: \<^bold>\<open>A gated receive comes after the upstreams' receives.\<close>  Take any run of a bounded channel, an upstream that was
  made with \<^verbatim>\<open>subscribe\<close> or \<^verbatim>\<open>subscribe_tracked\<close>, has not been dropped and uses only \<^verbatim>\<open>try_recv\<close>, a barrier that holds its
  tracker, possibly among others, and a downstream subscriber whose position is not before the point where
  the upstream subscribed.  As long as the upstream has not received the message at the downstream's position, a gated receive of the
  downstream reports \<^verbatim>\<open>Empty\<close> and changes nothing; and a message that it returns is one the upstream has received, at
  the same place in the log.  (The barrier's own references to the trackers do not matter: only their values are read.)
\<close>

theorem gated_recv_after_upstreams:
  assumes "channel_bounded u c w = Inr (p, r)" and "unat c < 2 ^ 63" and "kind = Plain \<or> kind = Tracked"
    and "reaches (fresh_sys p r) (tr1 @ (Subscribe kind, Subscribed i) # tr2) y"
    and "\<forall>out. (Latest i, out) \<notin> set tr2" and "length tr1 + length tr2 + 1 < 2 ^ 63 - 1"
    and "sub_at y i = Some up" "sub_tracker up = Some t" "t \<in> set (db_upstreams b)"
    and "sub_at y j = Some s" "unat (sub_cursor s) = length (published_in tr1) + d"
    and "\<forall>a. arc_value (h ! a) = arc_value (snd (sy_mem y) ! a)"
    and "Subscriber_try_recv_gated b s (fst (sy_mem y), h) = (res, s', m')"
  shows "(length (received_in i tr2) \<le> d \<longrightarrow> res = Inl Empty \<and> s' = s \<and> m' = (fst (sy_mem y), h)) \<and>
    (\<forall>v. res = Inr v \<longrightarrow> d < length (received_in i tr2) \<and> v = received_in i tr2 ! d)"
proof -
  let ?log = "published_in tr1" and ?r = "fst (sy_mem y)"
  obtain y1 n where n: "reaches y1 tr2 y" "sys_inv ?log y1" "followed i y n" "length ?log \<le> n"
      "received_in i tr2 = take (n - length ?log) (published_in tr2)" "length (received_in i tr2) = n - length ?log"
    by (rule bounded_receives [OF assms(1-6)])
  have short: "length ?log + length tr2 < 2 ^ 63 - 1" using assms(6) published_in_le [of tr1] by simp
  have inv: "sys_inv (?log @ published_in tr2) y" by (rule reaches_inv [OF n(1,2) short])
  have fits: "log_fits (?log @ published_in tr2)" using short published_in_le [of tr2] by (simp add: log_fits_def)
  have "snd (sy_mem y) ! t = \<lparr>arc_strong = 1, arc_value = sub_cursor up\<rparr>"
    by (rule sys_invD(8) [OF inv surjective_pairing assms(7,8)])
  then have val: "tracker_value h t = n" using n(3) assms(7,12) by (simp add: tracker_value_def followed_def)
  have ne: "db_upstreams b \<noteq> []" using assms(9) by auto
  show ?thesis
  proof (cases "length (received_in i tr2) \<le> d")
    case True
    then have "n \<le> unat (sub_cursor s)" using n(4,6) assms(11) by simp
    then have "Subscriber_try_recv_gated b s (?r, h) = (Inl Empty, s, (?r, h))"
      using gated_closed [OF ne, of "(?r, h)" s] val assms(9) by auto
    then show ?thesis using assms(13) by simp
  next
    case False
    then have d: "d < length (received_in i tr2)" "d < n - length ?log" using n(6) by auto
    have at: "at_log (cap ?r) (?log @ published_in tr2) (s, (?r, h))"
      using sys_invD(1) [OF inv surjective_pairing] sys_invD(6) [OF inv surjective_pairing assms(10)] fits by (simp add: at_log_def)
    have "v = received_in i tr2 ! d" if "res = Inr v" for v
      using gated_recv_behind_upstreams [OF at ne assms(13)] that d(2) assms(11) n(5) by simp
    then show ?thesis using False d(1) by auto
  qed
qed

text \<open>An upstream and a downstream, both there before the first message; the upstream has taken the message 7.\<close>

definition demo_gate_script :: "u64 action list" where
  "demo_gate_script = [Subscribe Plain, TryPublish 7, TryRecv 0]"

theorem gated_recv_after_upstreams_witness:
  "\<exists>tr y s. run_script (Subscribe Plain # demo_gate_script) demo_bounded = ((Subscribe Plain, Subscribed 0) # tr, y) \<and>
     sub_at y 1 = Some s \<and> fst (Subscriber_try_recv_gated \<lparr>db_upstreams = [0]\<rparr> s (sy_mem y)) = Inr (received_in 0 tr ! 0)"
proof -
  let ?y = "snd (run_script (Subscribe Plain # demo_gate_script) demo_bounded)"
  let ?tr = "tl (fst (run_script (Subscribe Plain # demo_gate_script) demo_bounded))"
  have tr: "fst (run_script (Subscribe Plain # demo_gate_script) demo_bounded) =
      [(Subscribe Plain, Subscribed 0), (Subscribe Plain, Subscribed 1), (TryPublish 7, PublishResult (Inr ())),
       (TryRecv 0, Received (Inr 7))]"
    by code_simp
  have subs: "map_option sub_tracker (sub_at ?y 0) = Some (Some 0) \<and> map_option sub_cursor (sub_at ?y 1) = Some 0" by code_simp
  have gate: "map_option (\<lambda>s. fst (Subscriber_try_recv_gated \<lparr>db_upstreams = [0]\<rparr> s (sy_mem ?y))) (sub_at ?y 1) = Some (Inr 7)"
    by code_simp
  obtain up s where s: "sub_at ?y 0 = Some up" "sub_tracker up = Some 0" "sub_at ?y 1 = Some s" "unat (sub_cursor s) = 0"
    using subs by auto
  obtain p r where pr: "channel_bounded (0 :: u64) 2 0 = Inr (p, r)" "demo_bounded = fresh_sys p r"
    using demo_sys_channel(1) by blast
  have run: "run_script (Subscribe Plain # demo_gate_script) demo_bounded = ((Subscribe Plain, Subscribed 0) # ?tr, ?y)"
    using tr by (metis list.sel(3) prod.collapse)
  have reach: "reaches (fresh_sys p r) ([] @ (Subscribe Plain, Subscribed 0) # ?tr) ?y"
    using run_script_reaches [OF run] pr(2) by simp
  obtain res s' m' where g: "Subscriber_try_recv_gated \<lparr>db_upstreams = [0]\<rparr> s (fst (sy_mem ?y), snd (sy_mem ?y)) = (res, s', m')"
    by (metis prod_cases3)
  have "res = Inr 7" using gate s(3) g by simp
  then have "Inr 7 = (Inr (received_in 0 ?tr ! 0) :: try_recv_error + u64)"
    using gated_recv_after_upstreams [OF pr(1) _ _ reach _ _ s(1,2) _ s(3) _ _ g] tr s(4) by auto
  then show ?thesis using run s(3) g \<open>res = Inr 7\<close> by (metis fst_conv prod.collapse)
qed

end
