(* ===== verification/Event_Ring.thy ===== *)
theory Event_Ring
  imports Backpressure
begin

text \<open>
  \<^verbatim>\<open>src/src/event.rs\<close>: a ring whose slots own their values.  The publisher mutates a slot in place
  through a closure and every subscriber borrows the slot through another closure; there is no
  seqlock, and the two must never touch the same slot at the same time.

  The mutating closure is a function from the old value to the new one and to whether it panicked;
  a subscriber's closure returns a result or panics.  The value factory is called once for each
  slot, so it is a function of the call number.
\<close>

section \<open>State\<close>

record 'a event_ring =
  er_slots :: "'a list"
  er_index :: ring_index
  er_cursor :: u64
  er_trackers :: "addr list"

record event_publisher =
  ep_seq :: u64
  ep_cached_slowest :: u64

record event_subscriber =
  es_cursor :: u64
  es_tracker :: addr

definition event_channel ::
    "usize \<Rightarrow> (nat \<Rightarrow> 'a) \<Rightarrow> (event_publisher \<times> 'a event_ring) may_panic" where
  "event_channel capacity factory =
     (case RingIndex_new capacity of
        Inl e \<Rightarrow> Inl e
      | Inr index \<Rightarrow>
          Inr (\<lparr>ep_seq = 0, ep_cached_slowest = 0\<rparr>,
               \<lparr>er_slots = map factory [0..<unat capacity], er_index = index,
                er_cursor = u64_max, er_trackers = []\<rparr>))"

section \<open>Publisher\<close>

fun event_scan :: "heap \<Rightarrow> addr list \<Rightarrow> u64 \<Rightarrow> bool \<Rightarrow> u64 \<times> bool \<times> addr list" where
  "event_scan h [] mn any = (mn, any, [])"
| "event_scan h (weak # ws) mn any =
     (case weak_upgrade h weak of
        Some v \<Rightarrow> let (m, l, kept) = event_scan h ws (min mn v) True in (m, l, weak # kept)
      | None \<Rightarrow> event_scan h ws mn any)"

definition EventRing_slowest :: "'a event_ring \<Rightarrow> heap \<Rightarrow> u64 option \<times> 'a event_ring" where
  "EventRing_slowest r h =
     (let (mn, any, kept) = event_scan h (er_trackers r) u64_max False
      in (if any then Some mn else None, r\<lparr>er_trackers := kept\<rparr>))"

definition EventPublisher_has_room ::
    "event_publisher \<Rightarrow> 'a event_ring \<Rightarrow> heap \<Rightarrow> bool \<times> event_publisher \<times> 'a event_ring" where
  "EventPublisher_has_room p r h =
     (let capacity = ri_capacity (er_index r)
      in if ep_seq p \<ge> ep_cached_slowest p + capacity
         then (case EventRing_slowest r h of
                 (Some slowest, r') \<Rightarrow>
                   let p' = p\<lparr>ep_cached_slowest := slowest\<rparr>
                   in if ep_seq p \<ge> slowest + capacity then (False, p', r') else (True, p', r')
               | (None, r') \<Rightarrow> (True, p, r'))
         else (True, p, r))"

definition EventPublisher_write ::
    "event_publisher \<Rightarrow> 'a event_ring \<Rightarrow> ('a \<Rightarrow> 'a \<times> bool) \<Rightarrow>
     unit may_panic \<times> event_publisher \<times> 'a event_ring" where
  "EventPublisher_write p r f =
     (let idx = unat (RingIndex_slot (er_index r) (ep_seq p))
      in if idx < length (er_slots r)
         then
           let (v, panicked) = f (er_slots r ! idx);
               r1 = r\<lparr>er_slots := (er_slots r)[idx := v]\<rparr>
           in if panicked then (Inl ClosurePanic, p, r1)
              else (Inr (), p\<lparr>ep_seq := ep_seq p + 1\<rparr>, r1\<lparr>er_cursor := ep_seq p\<rparr>)
         else (Inl IndexOutOfBounds, p, r))"

definition EventPublisher_try_publish ::
    "event_publisher \<Rightarrow> 'a event_ring \<Rightarrow> heap \<Rightarrow> ('a \<Rightarrow> 'a \<times> bool) \<Rightarrow>
     bool may_panic \<times> event_publisher \<times> 'a event_ring" where
  "EventPublisher_try_publish p r h f =
     (case EventPublisher_has_room p r h of
        (False, p', r') \<Rightarrow> (Inr False, p', r')
      | (True, p', r') \<Rightarrow>
          (case EventPublisher_write p' r' f of
             (Inl e, p'', r'') \<Rightarrow> (Inl e, p'', r'')
           | (Inr _, p'', r'') \<Rightarrow> (Inr True, p'', r'')))"

text \<open>\<^verbatim>\<open>publish\<close> spins until there is room; the other threads act once per iteration.\<close>

fun EventPublisher_publish ::
    "('a event_ring \<times> heap \<Rightarrow> 'a event_ring \<times> heap) list \<Rightarrow> event_publisher \<Rightarrow> 'a event_ring \<times> heap \<Rightarrow>
     ('a \<Rightarrow> 'a \<times> bool) \<Rightarrow> (unit may_panic \<times> event_publisher \<times> 'a event_ring \<times> heap) option" where
  "EventPublisher_publish es p (r, h) f =
     (case EventPublisher_has_room p r h of
        (True, p', r') \<Rightarrow>
          let (res, p'', r'') = EventPublisher_write p' r' f in Some (res, p'', r'', h)
      | (False, p', r') \<Rightarrow>
          (case es of [] \<Rightarrow> None | e # es' \<Rightarrow> EventPublisher_publish es' p' (e (r', h)) f))"

declare EventPublisher_publish.simps [simp del]

definition EventPublisher_published :: "event_publisher \<Rightarrow> u64" where
  "EventPublisher_published p = ep_seq p"

definition EventPublisher_capacity :: "'a event_ring \<Rightarrow> u64" where
  "EventPublisher_capacity r = ri_capacity (er_index r)"

section \<open>Subscribers\<close>

definition EventSubscribable_subscribe ::
    "'a event_ring \<Rightarrow> heap \<Rightarrow> event_subscriber \<times> 'a event_ring \<times> heap" where
  "EventSubscribable_subscribe r h =
     (let head = er_cursor r;
          start = (if head = u64_max then 0 else head + 1);
          (tracker, h') = arc_new h start
      in (\<lparr>es_cursor = start, es_tracker = tracker\<rparr>,
          r\<lparr>er_trackers := er_trackers r @ [tracker]\<rparr>, h'))"

text \<open>The two halves of \<^verbatim>\<open>process\<close>: the check that lends the slot, and the closure's call with what
  follows it.\<close>

definition process_ready :: "event_subscriber \<Rightarrow> 'a event_ring \<Rightarrow> bool" where
  "process_ready s r =
     (let head = er_cursor r in \<not> (head = u64_max \<or> es_cursor s > head))"

definition process_run ::
    "event_subscriber \<Rightarrow> 'a event_ring \<Rightarrow> heap \<Rightarrow> ('a \<Rightarrow> 'r may_panic) \<Rightarrow>
     'r may_panic \<times> event_subscriber \<times> heap" where
  "process_run s r h f =
     (let idx = unat (RingIndex_slot (er_index r) (es_cursor s))
      in if idx < length (er_slots r)
         then (case f (er_slots r ! idx) of
                 Inl e \<Rightarrow> (Inl e, s, h)
               | Inr out \<Rightarrow>
                   let s' = s\<lparr>es_cursor := es_cursor s + 1\<rparr>
                   in (Inr out, s', arc_store h (es_tracker s) (es_cursor s')))
         else (Inl IndexOutOfBounds, s, h))"

definition EventSubscriber_process ::
    "event_subscriber \<Rightarrow> 'a event_ring \<Rightarrow> heap \<Rightarrow> ('a \<Rightarrow> 'r may_panic) \<Rightarrow>
     'r option may_panic \<times> event_subscriber \<times> heap" where
  "EventSubscriber_process s r h f =
     (if \<not> process_ready s r then (Inr None, s, h)
      else case process_run s r h f of
        (Inl e, s', h') \<Rightarrow> (Inl e, s', h')
      | (Inr out, s', h') \<Rightarrow> (Inr (Some out), s', h'))"

definition EventSubscriber_pending :: "event_subscriber \<Rightarrow> 'a event_ring \<Rightarrow> u64" where
  "EventSubscriber_pending s r =
     (let head = er_cursor r
      in if head = u64_max \<or> es_cursor s > head then 0 else head - es_cursor s + 1)"

section \<open>The event ring's gate\<close>

lemma event_scan_eq: "event_scan h ws mn any = scan_trackers h ws mn any"
proof (induction ws arbitrary: mn any)
  case (Cons w ws)
  have "min mn v = (if v < mn then v else mn)" for v :: u64 by (auto simp: min_def)
  then show ?case using Cons by (simp split: option.splits)
qed simp

definition event_gate_ok :: "event_publisher \<times> 'a event_ring \<times> heap \<Rightarrow> bool" where
  "event_gate_ok s \<longleftrightarrow> (case s of (p, (r, h)) \<Rightarrow>
     unat (ri_capacity (er_index r)) < 2 ^ 63 \<and> unat (ep_cached_slowest p) < 2 ^ 63 \<and>
     (\<forall>a \<in> set (live h (er_trackers r)). tracker_value h a < 2 ^ 63))"

definition event_room :: "event_publisher \<times> 'a event_ring \<times> heap \<Rightarrow> bool \<times> event_publisher \<times> 'a event_ring \<times> heap" where
  "event_room s = (let (p, (r, h)) = s; (b, p', r') = EventPublisher_has_room p r h in (b, (p', (r', h))))"

abbreviation ecap :: "'a event_ring \<Rightarrow> nat" where
  "ecap r \<equiv> unat (ri_capacity (er_index r))"

lemma event_slowest_Some:
  assumes "EventRing_slowest r h = (Some m, r')"
  shows "r' = r\<lparr>er_trackers := live h (er_trackers r)\<rparr>"
    "\<exists>a \<in> set (live h (er_trackers r)). unat m = tracker_value h a"
    "\<forall>a \<in> set (live h (er_trackers r)). unat m \<le> tracker_value h a"
proof -
  let ?r = "\<lparr>sr_slots = [], sr_index = er_index r, sr_cursor = 0,
      sr_backpressure = Some \<lparr>bp_watermark = 0, bp_trackers = er_trackers r\<rparr>, sr_next_seq = None\<rparr> :: unit shared_ring"
  obtain mn l kept where sc: "scan_trackers h (er_trackers r) u64_max False = (mn, l, kept)" by (metis prod_cases3)
  then have "SharedRing_slowest_cursor ?r h = (Some m, snd (SharedRing_slowest_cursor ?r h))"
    and r': "r' = r\<lparr>er_trackers := kept\<rparr>"
    using assms by (auto simp: EventRing_slowest_def SharedRing_slowest_cursor_def event_scan_eq split: if_splits)
  from slowest_cursor_Some [OF this(1)] show
    "\<exists>a \<in> set (live h (er_trackers r)). unat m = tracker_value h a"
    "\<forall>a \<in> set (live h (er_trackers r)). unat m \<le> tracker_value h a" by auto
  show "r' = r\<lparr>er_trackers := live h (er_trackers r)\<rparr>" using r' scan_trackers_spec [OF sc] by simp
qed

lemma event_slowest_None:
  assumes "EventRing_slowest r h = (None, r')"
  shows "r' = r\<lparr>er_trackers := []\<rparr>" "live h (er_trackers r) = []"
proof -
  obtain mn l kept where sc: "scan_trackers h (er_trackers r) u64_max False = (mn, l, kept)" by (metis prod_cases3)
  then have "\<not> l" "r' = r\<lparr>er_trackers := kept\<rparr>"
    using assms by (auto simp: EventRing_slowest_def event_scan_eq split: if_splits)
  then show "r' = r\<lparr>er_trackers := []\<rparr>" "live h (er_trackers r) = []"
    using scan_trackers_spec [OF sc] by auto
qed

lemma event_room_cases:
  assumes ok: "event_gate_ok (p, (r, h))" and room: "EventPublisher_has_room p r h = (b, p', r')"
  obtains (Fast) "unat (ep_seq p) < unat (ep_cached_slowest p) + ecap r" "b" "p' = p" "r' = r"
  | (Free) "unat (ep_cached_slowest p) + ecap r \<le> unat (ep_seq p)" "live h (er_trackers r) = []"
      "b" "p' = p" "r' = r\<lparr>er_trackers := []\<rparr>"
  | (Scan) m where "unat (ep_cached_slowest p) + ecap r \<le> unat (ep_seq p)"
      "\<exists>a \<in> set (live h (er_trackers r)). unat m = tracker_value h a"
      "\<forall>a \<in> set (live h (er_trackers r)). unat m \<le> tracker_value h a"
      "p' = p\<lparr>ep_cached_slowest := m\<rparr>" "r' = r\<lparr>er_trackers := live h (er_trackers r)\<rparr>"
      "b \<longleftrightarrow> unat (ep_seq p) < unat m + ecap r"
proof -
  have words: "unat (x + ri_capacity (er_index r)) = unat x + ecap r" if "unat x < 2 ^ 63" for x
    using that ok by (simp add: event_gate_ok_def unat_u64_add)
  have le: "ep_seq p \<ge> ep_cached_slowest p + ri_capacity (er_index r) \<longleftrightarrow>
      unat (ep_cached_slowest p) + ecap r \<le> unat (ep_seq p)"
    using ok words by (simp add: word_le_nat_alt event_gate_ok_def)
  obtain sl r1 where sc: "EventRing_slowest r h = (sl, r1)" by (metis prod.exhaust)
  consider "unat (ep_seq p) < unat (ep_cached_slowest p) + ecap r"
    | "unat (ep_cached_slowest p) + ecap r \<le> unat (ep_seq p)" "sl = None"
    | m where "unat (ep_cached_slowest p) + ecap r \<le> unat (ep_seq p)" "sl = Some m"
    by (cases sl) force+
  then show thesis
  proof cases
    case 1
    then show ?thesis using room le by (intro Fast) (auto simp: EventPublisher_has_room_def Let_def)
  next
    case 2
    then show ?thesis using room le sc event_slowest_None [of r h r1]
      by (intro Free) (auto simp: EventPublisher_has_room_def Let_def)
  next
    case (3 m)
    note spec = event_slowest_Some [OF sc [unfolded 3(2)]]
    have "unat m < 2 ^ 63" using spec(2) ok by (auto simp: event_gate_ok_def)
    then have "ep_seq p \<ge> m + ri_capacity (er_index r) \<longleftrightarrow> \<not> unat (ep_seq p) < unat m + ecap r"
      using words by (simp add: word_le_nat_alt not_less)
    then show ?thesis using room le sc 3 spec
      by (intro Scan [OF 3(1) spec(2,3)]) (auto simp: EventPublisher_has_room_def Let_def split: if_splits)
  qed
qed

lemma event_room_keeps:
  assumes ok: "event_gate_ok (p, (r, h))" and room: "EventPublisher_has_room p r h = (b, p', r')"
  shows "event_gate_ok (p', (r', h))" "ep_seq p' = ep_seq p" "er_index r' = er_index r"
    "er_slots r' = er_slots r" "er_cursor r' = er_cursor r"
    "live h (er_trackers r') = live h (er_trackers r)" "set (er_trackers r') \<subseteq> set (er_trackers r)"
proof -
  have "event_gate_ok (p', (r', h)) \<and> ep_seq p' = ep_seq p \<and> er_index r' = er_index r \<and>
      er_slots r' = er_slots r \<and> er_cursor r' = er_cursor r \<and>
      live h (er_trackers r') = live h (er_trackers r) \<and> set (er_trackers r') \<subseteq> set (er_trackers r)"
    using ok room
  proof (cases rule: event_room_cases)
    case (Scan m)
    then show ?thesis using ok by (auto simp: event_gate_ok_def live_def)
  qed (use ok in \<open>auto simp: event_gate_ok_def live_def\<close>)
  then show "event_gate_ok (p', (r', h))" "ep_seq p' = ep_seq p" "er_index r' = er_index r"
    "er_slots r' = er_slots r" "er_cursor r' = er_cursor r"
    "live h (er_trackers r') = live h (er_trackers r)" "set (er_trackers r') \<subseteq> set (er_trackers r)" by auto
qed

lemma event_roomE:
  assumes "event_room s = (b, s')"
  obtains p r h p' r' where "s = (p, (r, h))" "EventPublisher_has_room p r h = (b, p', r')" "s' = (p', (r', h))"
  using assms by (cases s) (auto simp: event_room_def split: prod.splits)

interpretation event_gate: backpressure_gate event_room
  "\<lambda>(p, m). unat (ep_seq p)" "\<lambda>(p, m). unat (ep_cached_slowest p)"
  "\<lambda>(p, (r, h)). ecap r" "\<lambda>(p, (r, h)). tracker_value h ` set (live h (er_trackers r))" event_gate_ok
proof (unfold_locales, goal_cases)
  case (1 s b s')
  then obtain p r h p' r' where x: "s = (p, (r, h))" "EventPublisher_has_room p r h = (b, p', r')" "s' = (p', (r', h))"
    by (elim event_roomE)
  show ?case using 1 x event_room_keeps [OF _ x(2)] by auto
next
  case (2 s b s')
  then obtain p r h p' r' where x: "s = (p, (r, h))" "EventPublisher_has_room p r h = (b, p', r')" "s' = (p', (r', h))"
    by (elim event_roomE)
  show ?case using 2 x by (cases rule: event_room_cases [OF _ x(2)]) auto
next
  case (3 s b s')
  then obtain p r h p' r' where x: "s = (p, (r, h))" "EventPublisher_has_room p r h = (b, p', r')" "s' = (p', (r', h))"
    by (elim event_roomE)
  show ?case using 3 x by (cases rule: event_room_cases [OF _ x(2)]) auto
next
  case (4 s b s')
  then obtain p r h p' r' where x: "s = (p, (r, h))" "EventPublisher_has_room p r h = (b, p', r')" "s' = (p', (r', h))"
    by (elim event_roomE)
  show ?case using 4 x by (cases rule: event_room_cases [OF _ x(2)]) auto
qed

section \<open>Interleaved runs\<close>

text \<open>
  The publisher's call is two steps: the check for room, after which it holds the slot mutably, and
  the mutation with the release of the cursor.  A subscriber's call is two steps too: the check of
  the head, after which it holds the slot, and the closure with the release of its tracker.  Other
  threads may act in between.  Each subscriber also carries two ghost fields: how many
  messages had been published when it subscribed, and the calls of its closures, each with the value it saw
  and whether it returned.
\<close>

record 'a esub =
  eu_sub :: event_subscriber
  eu_busy :: bool
  eu_from :: nat
  eu_calls :: "('a \<times> bool) list"

record 'a esys =
  ey_pub :: event_publisher
  ey_ring :: "'a event_ring"
  ey_heap :: heap
  ey_writing :: bool
  ey_subs :: "nat \<rightharpoonup> 'a esub"

text \<open>The value in the slot that \<^verbatim>\<open>process\<close> lends to the closure.\<close>

definition lent_value :: "'a esub \<Rightarrow> 'a esys \<Rightarrow> 'a" where
  "lent_value u y = er_slots (ey_ring y) ! unat (RingIndex_slot (er_index (ey_ring y)) (es_cursor (eu_sub u)))"

inductive ev_step :: "'a esys \<times> 'a list \<Rightarrow> 'a esys \<times> 'a list \<Rightarrow> bool" where
  room: "\<not> ey_writing y \<Longrightarrow> EventPublisher_has_room (ey_pub y) (ey_ring y) (ey_heap y) = (b, p, r) \<Longrightarrow>
     ev_step (y, log) (y\<lparr>ey_pub := p, ey_ring := r, ey_writing := b\<rparr>, log)"
| wrote: "ey_writing y \<Longrightarrow> EventPublisher_write (ey_pub y) (ey_ring y) f = (Inr (), p, r) \<Longrightarrow>
     ev_step (y, log) (y\<lparr>ey_pub := p, ey_ring := r, ey_writing := False\<rparr>,
        log @ [er_slots r ! unat (RingIndex_slot (er_index r) (ep_seq (ey_pub y)))])"
| wrote_panic: "ey_writing y \<Longrightarrow> EventPublisher_write (ey_pub y) (ey_ring y) f = (Inl e, p, r) \<Longrightarrow>
     ev_step (y, log) (y\<lparr>ey_pub := p, ey_ring := r, ey_writing := False\<rparr>, log)"
| subscribe: "ey_subs y i = None \<Longrightarrow>
     EventSubscribable_subscribe (ey_ring y) (ey_heap y) = (s, r, h) \<Longrightarrow>
     ev_step (y, log) (y\<lparr>ey_ring := r, ey_heap := h, ey_subs := (ey_subs y)(i \<mapsto>
        \<lparr>eu_sub = s, eu_busy = False, eu_from = length log, eu_calls = []\<rparr>)\<rparr>, log)"
| ready: "ey_subs y i = Some u \<Longrightarrow> \<not> eu_busy u \<Longrightarrow> process_ready (eu_sub u) (ey_ring y) \<Longrightarrow>
     ev_step (y, log) (y\<lparr>ey_subs := (ey_subs y)(i \<mapsto> u\<lparr>eu_busy := True\<rparr>)\<rparr>, log)"
| ran: "ey_subs y i = Some u \<Longrightarrow> eu_busy u \<Longrightarrow>
     process_run (eu_sub u) (ey_ring y) (ey_heap y) f = (Inr (out :: unit), s, h) \<Longrightarrow>
     ev_step (y, log) (y\<lparr>ey_heap := h, ey_subs := (ey_subs y)(i \<mapsto> u\<lparr>eu_sub := s, eu_busy := False,
        eu_calls := eu_calls u @ [(lent_value u y, True)]\<rparr>)\<rparr>, log)"
| ran_panic: "ey_subs y i = Some u \<Longrightarrow> eu_busy u \<Longrightarrow>
     process_run (eu_sub u) (ey_ring y) (ey_heap y) f = (Inl e :: unit may_panic, s, h) \<Longrightarrow>
     ev_step (y, log) (y\<lparr>ey_heap := h, ey_subs := (ey_subs y)(i \<mapsto> u\<lparr>eu_sub := s, eu_busy := False,
        eu_calls := eu_calls u @ [(lent_value u y, False)]\<rparr>)\<rparr>, log)"
| dropped: "ey_subs y i = Some u \<Longrightarrow> \<not> eu_busy u \<Longrightarrow>
     ev_step (y, log) (y\<lparr>ey_heap := arc_drop (ey_heap y) (es_tracker (eu_sub u)), ey_subs := (ey_subs y)(i := None)\<rparr>, log)"

definition ev_fresh :: "event_publisher \<Rightarrow> 'a event_ring \<Rightarrow> 'a esys" where
  "ev_fresh p r = \<lparr>ey_pub = p, ey_ring = r, ey_heap = [], ey_writing = False, ey_subs = Map.empty\<rparr>"

inductive ev_reaches :: "'a esys \<Rightarrow> 'a esys \<times> 'a list \<Rightarrow> bool" for y0 where
  init: "ev_reaches y0 (y0, [])"
| step: "ev_reaches y0 x \<Longrightarrow> ev_step x x' \<Longrightarrow> ev_reaches y0 x'"

section \<open>The invariant\<close>

text \<open>The calls of a subscriber that is next at message \<open>n\<close>: each sees the message it is at, and moves on to the next one
  exactly when it returns.\<close>

fun calls_from :: "'a list \<Rightarrow> nat \<Rightarrow> ('a \<times> bool) list \<Rightarrow> bool" where
  "calls_from log n [] = True"
| "calls_from log n ((v, returned) # cs) \<longleftrightarrow>
     n < length log \<and> v = log ! n \<and> calls_from log (if returned then Suc n else n) cs"

definition returns :: "('a \<times> bool) list \<Rightarrow> nat" where
  "returns cs = length (filter snd cs)"

lemma returns_simps [simp]:
  "returns [] = 0" "returns ((v, b) # cs) = (if b then Suc (returns cs) else returns cs)" "returns (cs @ ds) = returns cs + returns ds"
  by (simp_all add: returns_def)

lemma calls_from_snoc:
  "calls_from log n (cs @ [(v, b)]) \<longleftrightarrow> calls_from log n cs \<and> n + returns cs < length log \<and> v = log ! (n + returns cs)"
  by (induction log n cs rule: calls_from.induct) auto

lemma calls_from_append: "calls_from log n cs \<Longrightarrow> calls_from (log @ ls) n cs"
  by (induction log n cs rule: calls_from.induct) (auto simp: nth_append)

lemma calls_from_nth:
  "calls_from log n cs \<Longrightarrow> i < length cs \<Longrightarrow> fst (cs ! i) = log ! (n + returns (take i cs))"
proof (induction log n cs arbitrary: i rule: calls_from.induct)
  case (2 log n v returned cs)
  then show ?case by (cases i) (auto split: if_splits)
qed simp

text \<open>What the calls that returned have seen, in order.\<close>

lemma calls_from_seen:
  "calls_from log n cs \<Longrightarrow> map fst (filter snd cs) = take (returns cs) (drop n log)"
proof (induction log n cs rule: calls_from.induct)
  case (2 log n v returned cs)
  then show ?case by (cases returned) (auto simp: Cons_nth_drop_Suc [symmetric])
qed simp

definition calls_ok :: "'a list \<Rightarrow> 'a esub \<Rightarrow> bool" where
  "calls_ok log u \<longleftrightarrow>
     calls_from log (eu_from u) (eu_calls u) \<and> unat (es_cursor (eu_sub u)) = eu_from u + returns (eu_calls u)"

lemma calls_ok_busy [simp]: "calls_ok log (u\<lparr>eu_busy := b\<rparr>) = calls_ok log u"
  by (simp add: calls_ok_def)

lemma calls_ok_append: "calls_ok log u \<Longrightarrow> calls_ok (log @ ls) u"
  by (simp add: calls_ok_def calls_from_append)

definition esub_ok :: "'a esys \<Rightarrow> 'a list \<Rightarrow> 'a esub \<Rightarrow> bool" where
  "esub_ok y log u \<longleftrightarrow>
     (let c = unat (es_cursor (eu_sub u)); a = es_tracker (eu_sub u); k = ecap (ey_ring y); n = length log
      in c \<le> n \<and> n \<le> c + k \<and> unat (ep_cached_slowest (ey_pub y)) \<le> c \<and>
         (ey_writing y \<longrightarrow> n < c + k) \<and> (eu_busy u \<longrightarrow> c < n) \<and>
         a < length (ey_heap y) \<and> ey_heap y ! a = \<lparr>arc_strong = 1, arc_value = es_cursor (eu_sub u)\<rparr> \<and>
         a \<in> set (er_trackers (ey_ring y)) \<and>
         (\<forall>s. c \<le> s \<longrightarrow> s < n \<longrightarrow> er_slots (ey_ring y) ! (s mod k) = log ! s) \<and>
         calls_ok log u)"

definition ev_base :: "'a esys \<Rightarrow> 'a list \<Rightarrow> bool" where
  "ev_base y log \<longleftrightarrow>
     ring_index_ok (er_index (ey_ring y)) \<and> length (er_slots (ey_ring y)) = ecap (ey_ring y) \<and>
     ecap (ey_ring y) < 2 ^ 63 \<and> unat (ep_seq (ey_pub y)) = length log \<and> log_fits log \<and>
     (if log = [] then er_cursor (ey_ring y) = u64_max else unat (er_cursor (ey_ring y)) = length log - 1) \<and>
     unat (ep_cached_slowest (ey_pub y)) \<le> length log"

definition ev_inv :: "'a esys \<Rightarrow> 'a list \<Rightarrow> bool" where
  "ev_inv y log \<longleftrightarrow>
     ev_base y log \<and>
     (\<forall>i u. ey_subs y i = Some u \<longrightarrow> esub_ok y log u) \<and>
     (\<forall>a \<in> set (er_trackers (ey_ring y)). a < length (ey_heap y) \<and>
        (0 < arc_strong (ey_heap y ! a) \<longrightarrow> (\<exists>i u. ey_subs y i = Some u \<and> es_tracker (eu_sub u) = a))) \<and>
     (\<forall>i j u v. ey_subs y i = Some u \<longrightarrow> ey_subs y j = Some v \<longrightarrow>
        es_tracker (eu_sub u) = es_tracker (eu_sub v) \<longrightarrow> i = j)"

lemma ev_inv_live:
  assumes "ev_inv y log" "a \<in> set (live (ey_heap y) (er_trackers (ey_ring y)))"
  obtains i u where "ey_subs y i = Some u" "es_tracker (eu_sub u) = a"
    "tracker_value (ey_heap y) a = unat (es_cursor (eu_sub u))"
proof -
  have "a \<in> set (er_trackers (ey_ring y))" "0 < arc_strong (ey_heap y ! a)"
    using assms(2) by (auto simp: live_def weak_upgrade_def split: if_splits)
  then obtain i u where u: "ey_subs y i = Some u" "es_tracker (eu_sub u) = a"
    using assms(1) unfolding ev_inv_def by blast
  then have "esub_ok y log u" using assms(1) unfolding ev_inv_def by blast
  then show thesis using that u by (auto simp: esub_ok_def Let_def tracker_value_def)
qed

lemma ev_inv_sub_live:
  assumes "ev_inv y log" "ey_subs y i = Some u"
  shows "es_tracker (eu_sub u) \<in> set (live (ey_heap y) (er_trackers (ey_ring y)))"
    "tracker_value (ey_heap y) (es_tracker (eu_sub u)) = unat (es_cursor (eu_sub u))"
proof -
  have "esub_ok y log u" using assms unfolding ev_inv_def by blast
  then show "es_tracker (eu_sub u) \<in> set (live (ey_heap y) (er_trackers (ey_ring y)))"
    "tracker_value (ey_heap y) (es_tracker (eu_sub u)) = unat (es_cursor (eu_sub u))"
    by (auto simp: esub_ok_def Let_def live_def weak_upgrade_def tracker_value_def)
qed

lemma ev_inv_gate_ok:
  assumes "ev_inv y log"
  shows "event_gate_ok (ey_pub y, (ey_ring y, ey_heap y))"
proof -
  have base: "ev_base y log" using assms by (simp add: ev_inv_def)
  have n: "length log < 2 ^ 63" using base by (simp add: ev_base_def log_fits_def)
  have "tracker_value (ey_heap y) a < 2 ^ 63"
    if a: "a \<in> set (live (ey_heap y) (er_trackers (ey_ring y)))" for a
  proof (rule ev_inv_live [OF assms a])
    fix i u assume "ey_subs y i = Some u" "tracker_value (ey_heap y) a = unat (es_cursor (eu_sub u))"
    moreover have "esub_ok y log u" using assms calculation(1) unfolding ev_inv_def by blast
    ultimately show ?thesis using n by (simp add: esub_ok_def Let_def)
  qed
  then show ?thesis using base n by (simp add: event_gate_ok_def ev_base_def)
qed

lemma ev_invD:
  assumes "ev_inv y log"
  shows "ev_base y log" "ey_subs y i = Some u \<Longrightarrow> esub_ok y log u"
    "a \<in> set (er_trackers (ey_ring y)) \<Longrightarrow> a < length (ey_heap y)"
    "a \<in> set (er_trackers (ey_ring y)) \<Longrightarrow> 0 < arc_strong (ey_heap y ! a) \<Longrightarrow>
       \<exists>i u. ey_subs y i = Some u \<and> es_tracker (eu_sub u) = a"
    "ey_subs y i = Some u \<Longrightarrow> ey_subs y j = Some v \<Longrightarrow>
       es_tracker (eu_sub u) = es_tracker (eu_sub v) \<Longrightarrow> i = j"
  using assms unfolding ev_inv_def by blast+

lemma ev_slot:
  assumes "ev_base y log"
  shows "unat (RingIndex_slot (er_index (ey_ring y)) x) = unat x mod ecap (ey_ring y)"
    "unat x mod ecap (ey_ring y) < length (er_slots (ey_ring y))" "2 \<le> ecap (ey_ring y)"
  using assms ring_slot_mod ring_index_ok_capacity [of "er_index (ey_ring y)"]
  by (auto simp: ev_base_def)

lemma ev_inv_room:
  assumes inv: "ev_inv y log" and room: "EventPublisher_has_room (ey_pub y) (ey_ring y) (ey_heap y) = (b, p, r)"
  shows "ev_inv (y\<lparr>ey_pub := p, ey_ring := r, ey_writing := b\<rparr>) log"
proof -
  let ?y = "y\<lparr>ey_pub := p, ey_ring := r, ey_writing := b\<rparr>" and ?h = "ey_heap y"
  note ok = ev_inv_gate_ok [OF inv]
  note keep = event_room_keeps [OF ok room]
  have seq: "unat (ep_seq (ey_pub y)) = length log" using ev_invD(1) [OF inv] by (simp add: ev_base_def)
  have st: "event_room (ey_pub y, (ey_ring y, ?h)) = (b, (p, (r, ?h)))" using room by (simp add: event_room_def)
  have gates: "unat (ep_cached_slowest (ey_pub y)) \<le> x \<and> x \<le> length log"
    if "x \<in> tracker_value ?h ` set (live ?h (er_trackers (ey_ring y)))" for x
    using that
  proof (elim imageE)
    fix a assume x: "x = tracker_value ?h a" and a: "a \<in> set (live ?h (er_trackers (ey_ring y)))"
    show ?thesis by (rule ev_inv_live [OF inv a]) (use ev_invD(2) [OF inv] x in \<open>auto simp: esub_ok_def Let_def\<close>)
  qed
  have exact: "b \<longleftrightarrow> (\<forall>x \<in> tracker_value ?h ` set (live ?h (er_trackers (ey_ring y))). length log < x + ecap (ey_ring y))"
    and low: "\<forall>x \<in> tracker_value ?h ` set (live ?h (er_trackers r)). unat (ep_cached_slowest p) \<le> x"
    using event_gate.room_exact [OF ok st] gates seq by auto
  have cached: "unat (ep_cached_slowest p) \<le> length log"
    using event_gate.cached_le [OF ok st, of "length log"] gates ev_invD(1) [OF inv] by (auto simp: ev_base_def)
  have sub: "esub_ok ?y log u" if u: "ey_subs y i = Some u" for i u
  proof -
    note l = ev_inv_sub_live [OF inv u]
    have "unat (ep_cached_slowest p) \<le> unat (es_cursor (eu_sub u))" using low l keep(6) by fastforce
    moreover have "b \<Longrightarrow> length log < unat (es_cursor (eu_sub u)) + ecap r" using exact l keep(3) by fastforce
    moreover have "es_tracker (eu_sub u) \<in> set (er_trackers r)"
      using l(1) unfolding keep(6) [symmetric] by (simp add: live_def)
    ultimately show ?thesis using ev_invD(2) [OF inv u] keep(3,4) by (simp add: esub_ok_def Let_def)
  qed
  have "ev_base ?y log" using ev_invD(1) [OF inv] keep cached by (simp add: ev_base_def)
  moreover have "\<forall>a \<in> set (er_trackers r). a < length ?h \<and>
        (0 < arc_strong (?h ! a) \<longrightarrow> (\<exists>i u. ey_subs y i = Some u \<and> es_tracker (eu_sub u) = a))"
    using ev_invD(3,4) [OF inv] keep(7) by blast
  ultimately show ?thesis using sub ev_invD(5) [OF inv] unfolding ev_inv_def by simp
qed

text \<open>Mutating the slot at the publisher's position leaves alone what the subscribers can still see.\<close>

lemma ev_mutate_keeps:
  assumes u: "esub_ok y log u" and w: "ey_writing y" and base: "ev_base y log"
    and s: "unat (es_cursor (eu_sub u)) \<le> s" "s < length log"
  shows "(er_slots (ey_ring y))[length log mod ecap (ey_ring y) := v] ! (s mod ecap (ey_ring y)) = log ! s"
proof -
  have "length log < s + ecap (ey_ring y)" using u w s by (simp add: esub_ok_def Let_def)
  then have "s mod ecap (ey_ring y) \<noteq> length log mod ecap (ey_ring y)"
    using same_residue_gap [of s "ecap (ey_ring y)" "length log"] s(2) by auto
  then show ?thesis using u s by (simp add: esub_ok_def Let_def)
qed

lemma ev_inv_wrote:
  assumes inv: "ev_inv y log" and w: "ey_writing y"
    and wr: "EventPublisher_write (ey_pub y) (ey_ring y) f = (Inr (), p, r)"
    and fits: "log_fits (log @ [v])"
    and v: "v = er_slots r ! unat (RingIndex_slot (er_index r) (ep_seq (ey_pub y)))"
  shows "ev_inv (y\<lparr>ey_pub := p, ey_ring := r, ey_writing := False\<rparr>) (log @ [v])"
proof -
  let ?y = "y\<lparr>ey_pub := p, ey_ring := r, ey_writing := False\<rparr>" and ?k = "ecap (ey_ring y)" and ?n = "length log"
  note base = ev_invD(1) [OF inv] and slot = ev_slot [OF ev_invD(1) [OF inv]]
  have seq: "unat (ep_seq (ey_pub y)) = ?n" and n: "?n < 2 ^ 63 - 1"
    using base by (auto simp: ev_base_def log_fits_def)
  have eq: "p = (ey_pub y)\<lparr>ep_seq := ep_seq (ey_pub y) + 1\<rparr>"
      "r = (ey_ring y)\<lparr>er_slots := (er_slots (ey_ring y))[?n mod ?k := v], er_cursor := ep_seq (ey_pub y)\<rparr>"
    using wr v slot seq
    by (auto simp: EventPublisher_write_def Let_def split: prod.splits if_splits)
  have seq': "unat (ep_seq p) = Suc ?n" using seq n by (simp add: eq(1) unat_u64_Suc)
  have "ev_base ?y (log @ [v])" using base fits seq seq' by (simp add: ev_base_def eq)
  moreover have "esub_ok ?y (log @ [v]) u" if u: "ey_subs y i = Some u" for i u
  proof -
    note ok = ev_invD(2) [OF inv u]
    have slots: "er_slots r ! (s mod ?k) = (log @ [v]) ! s"
      if "unat (es_cursor (eu_sub u)) \<le> s" "s < length (log @ [v])" for s
      using that ev_mutate_keeps [OF ok w base] slot(2) [of "of_nat ?n"] slot(2) [of "ep_seq (ey_pub y)"] seq
      by (cases "s = ?n") (auto simp: eq(2) nth_append)
    have "unat (es_cursor (eu_sub u)) \<le> ?n" using ok by (simp add: esub_ok_def Let_def)
    then show ?thesis using ok w slots calls_ok_append by (auto simp: esub_ok_def Let_def eq)
  qed
  moreover have "er_trackers r = er_trackers (ey_ring y)" by (simp add: eq(2))
  ultimately show ?thesis using inv unfolding ev_inv_def by (auto 0 3)
qed

lemma ev_inv_wrote_panic:
  assumes inv: "ev_inv y log" and w: "ey_writing y"
    and wr: "EventPublisher_write (ey_pub y) (ey_ring y) f = (Inl e, p, r)"
  shows "ev_inv (y\<lparr>ey_pub := p, ey_ring := r, ey_writing := False\<rparr>) log"
proof -
  let ?y = "y\<lparr>ey_pub := p, ey_ring := r, ey_writing := False\<rparr>" and ?k = "ecap (ey_ring y)" and ?n = "length log"
  note base = ev_invD(1) [OF inv] and slot = ev_slot [OF ev_invD(1) [OF inv]]
  have seq: "unat (ep_seq (ey_pub y)) = ?n" using base by (simp add: ev_base_def)
  obtain v where eq: "p = ey_pub y" "r = (ey_ring y)\<lparr>er_slots := (er_slots (ey_ring y))[?n mod ?k := v]\<rparr>"
    using wr slot(1,2) [of "ep_seq (ey_pub y)"] seq
    by (auto simp: EventPublisher_write_def Let_def split: prod.splits if_splits)
  have "ev_base ?y log" using base by (simp add: ev_base_def eq)
  moreover have "esub_ok ?y log u" if u: "ey_subs y i = Some u" for i u
    using ev_invD(2) [OF inv u] ev_mutate_keeps [OF ev_invD(2) [OF inv u] w base]
    by (simp add: esub_ok_def Let_def eq)
  moreover have "er_trackers r = er_trackers (ey_ring y)" by (simp add: eq(2))
  ultimately show ?thesis using inv unfolding ev_inv_def by (auto 0 3)
qed

lemma ev_inv_update:
  assumes inv: "ev_inv y log" and base: "ev_base y' log" and subs: "ey_subs y' = (ey_subs y)(i := x)"
    and others: "\<And>j v. j \<noteq> i \<Longrightarrow> ey_subs y j = Some v \<Longrightarrow> esub_ok y' log v"
    and new: "\<And>u. x = Some u \<Longrightarrow> esub_ok y' log u"
    and apart: "\<And>u j v. x = Some u \<Longrightarrow> j \<noteq> i \<Longrightarrow> ey_subs y j = Some v \<Longrightarrow>
        es_tracker (eu_sub v) \<noteq> es_tracker (eu_sub u)"
    and reg: "\<And>a. a \<in> set (er_trackers (ey_ring y')) \<Longrightarrow> a < length (ey_heap y') \<and>
        (0 < arc_strong (ey_heap y' ! a) \<longrightarrow> (\<exists>u. x = Some u \<and> es_tracker (eu_sub u) = a) \<or>
          (\<exists>j v. j \<noteq> i \<and> ey_subs y j = Some v \<and> es_tracker (eu_sub v) = a))"
  shows "ev_inv y' log"
  unfolding ev_inv_def
proof (intro conjI ballI allI impI)
  fix j v assume "ey_subs y' j = Some v"
  then show "esub_ok y' log v" using others new by (cases "j = i") (auto simp: subs)
next
  fix a assume a: "a \<in> set (er_trackers (ey_ring y'))"
  show "a < length (ey_heap y')" using reg [OF a] by blast
  assume "0 < arc_strong (ey_heap y' ! a)"
  then consider u where "x = Some u" "es_tracker (eu_sub u) = a"
    | j v where "j \<noteq> i" "ey_subs y j = Some v" "es_tracker (eu_sub v) = a" using reg [OF a] by blast
  then show "\<exists>j v. ey_subs y' j = Some v \<and> es_tracker (eu_sub v) = a"
  proof cases
    case 1 then show ?thesis by (intro exI [of _ i]) (simp add: subs)
  next
    case 2 then show ?thesis by (intro exI [of _ j]) (simp add: subs)
  qed
next
  fix j1 j2 u v assume "ey_subs y' j1 = Some u" "ey_subs y' j2 = Some v" "es_tracker (eu_sub u) = es_tracker (eu_sub v)"
  then show "j1 = j2" using apart [of u j2 v] apart [of v j1 u] ev_invD(5) [OF inv, of j1 u j2 v]
    by (cases "j1 = i"; cases "j2 = i") (auto simp: subs)
qed (rule base)

lemma ev_inv_advance:
  assumes inv: "ev_inv y log" and u: "ey_subs y i = Some u" and base: "ev_base y' log"
    and subs: "ey_subs y' = (ey_subs y)(i \<mapsto> u')" "es_tracker (eu_sub u') = es_tracker (eu_sub u)"
    and heap: "length (ey_heap y') = length (ey_heap y)" "\<And>a. arc_strong (ey_heap y' ! a) = arc_strong (ey_heap y ! a)"
    and ring: "ey_ring y' = ey_ring y"
    and others: "\<And>j v. j \<noteq> i \<Longrightarrow> ey_subs y j = Some v \<Longrightarrow> esub_ok y' log v"
    and new: "esub_ok y' log u'"
  shows "ev_inv y' log"
proof (rule ev_inv_update [OF inv base subs(1)])
  show "es_tracker (eu_sub v) \<noteq> es_tracker (eu_sub w)" if "Some u' = Some w" "j \<noteq> i" "ey_subs y j = Some v" for w j v
    using ev_invD(5) [OF inv that(3) u] that subs(2) by auto
  show "a < length (ey_heap y') \<and> (0 < arc_strong (ey_heap y' ! a) \<longrightarrow>
      (\<exists>w. Some u' = Some w \<and> es_tracker (eu_sub w) = a) \<or>
      (\<exists>j v. j \<noteq> i \<and> ey_subs y j = Some v \<and> es_tracker (eu_sub v) = a))"
    if "a \<in> set (er_trackers (ey_ring y'))" for a
    using ev_invD(3,4) [OF inv, of a] that u subs(2) heap ring by (metis option.inject)
qed (use others new in auto)

lemma ev_inv_subscribe:
  assumes inv: "ev_inv y log" and i: "ey_subs y i = None"
    and sub: "EventSubscribable_subscribe (ey_ring y) (ey_heap y) = (s, r, h)"
  shows "ev_inv (y\<lparr>ey_ring := r, ey_heap := h, ey_subs := (ey_subs y)(i \<mapsto>
        \<lparr>eu_sub = s, eu_busy = False, eu_from = length log, eu_calls = []\<rparr>)\<rparr>) log"
proof -
  let ?r = "ey_ring y" and ?h = "ey_heap y" and ?n = "length log"
  let ?u = "\<lparr>eu_sub = s, eu_busy = False, eu_from = length log, eu_calls = []\<rparr> :: 'a esub"
  let ?y = "y\<lparr>ey_ring := r, ey_heap := h, ey_subs := (ey_subs y)(i \<mapsto> ?u)\<rparr>"
  note base = ev_invD(1) [OF inv]
  have n: "?n < 2 ^ 63 - 1" using base by (simp add: ev_base_def log_fits_def)
  have start: "unat (if er_cursor ?r = u64_max then 0 else er_cursor ?r + 1) = ?n"
  proof (cases "log = []")
    case False
    then have "unat (er_cursor ?r) = ?n - 1" using base by (simp add: ev_base_def)
    then show ?thesis using n False by (auto simp: u64_eq_max_iff unat_u64_Suc neq_Nil_conv)
  qed (use base in \<open>simp add: ev_base_def\<close>)
  have eq: "r = ?r\<lparr>er_trackers := er_trackers ?r @ [length ?h]\<rparr>" "es_tracker s = length ?h"
      "h = ?h @ [\<lparr>arc_strong = 1, arc_value = es_cursor s\<rparr>]" "unat (es_cursor s) = ?n"
    using sub start by (auto simp: EventSubscribable_subscribe_def Let_def arc_new_def)
  have old: "es_tracker (eu_sub u) < length ?h" if "ey_subs y j = Some u" for j u
    using ev_invD(2) [OF inv that] by (simp add: esub_ok_def Let_def)
  have oks: "esub_ok ?y log u" if u: "ey_subs y j = Some u" for j u
    using ev_invD(2) [OF inv u] by (auto simp: esub_ok_def Let_def eq nth_append)
  show ?thesis
  proof (rule ev_inv_update [OF inv])
    show "ey_subs ?y = (ey_subs y)(i := Some ?u)" by simp
    show "ev_base ?y log" using base by (simp add: ev_base_def eq)
    show "esub_ok ?y log u" if "Some ?u = Some u" for u
      using that base ev_slot(3) [OF base] by (auto simp: esub_ok_def Let_def eq ev_base_def calls_ok_def)
    show "es_tracker (eu_sub v) \<noteq> es_tracker (eu_sub u)" if "Some ?u = Some u" "ey_subs y j = Some v" for u j v
      using that old eq(2) by fastforce
    show "a < length (ey_heap ?y) \<and> (0 < arc_strong (ey_heap ?y ! a) \<longrightarrow>
        (\<exists>u. Some ?u = Some u \<and> es_tracker (eu_sub u) = a) \<or>
        (\<exists>j v. j \<noteq> i \<and> ey_subs y j = Some v \<and> es_tracker (eu_sub v) = a))"
      if "a \<in> set (er_trackers (ey_ring ?y))" for a
    proof (cases "a = length ?h")
      case True
      then show ?thesis using eq by simp
    next
      case False
      then have a: "a \<in> set (er_trackers ?r)" using that eq(1) by simp
      have "h ! a = ?h ! a" "a < length h" using ev_invD(3) [OF inv a] by (auto simp: eq(3) nth_append)
      moreover have "j \<noteq> i" if "ey_subs y j = Some v" for j v using that i by auto
      ultimately show ?thesis using ev_invD(4) [OF inv a] by simp blast
    qed
  qed (use oks in blast)
qed

lemma ev_inv_ready:
  assumes inv: "ev_inv y log" and u: "ey_subs y i = Some u" and rdy: "process_ready (eu_sub u) (ey_ring y)"
  shows "ev_inv (y\<lparr>ey_subs := (ey_subs y)(i \<mapsto> u\<lparr>eu_busy := True\<rparr>)\<rparr>) log"
proof -
  let ?y = "y\<lparr>ey_subs := (ey_subs y)(i \<mapsto> u\<lparr>eu_busy := True\<rparr>)\<rparr>"
  note base = ev_invD(1) [OF inv] and ok = ev_invD(2) [OF inv u]
  have "unat (es_cursor (eu_sub u)) < length log"
    using rdy base by (cases "log = []")
      (auto simp: process_ready_def Let_def ev_base_def word_less_nat_alt not_less neq_Nil_conv)
  then have "esub_ok ?y log (u\<lparr>eu_busy := True\<rparr>)" using ok by (simp add: esub_ok_def Let_def)
  moreover have "esub_ok ?y log v" if "ey_subs y j = Some v" for j v
    using ev_invD(2) [OF inv that] by (simp add: esub_ok_def Let_def)
  moreover have "ev_base ?y log" using base by (simp add: ev_base_def)
  ultimately show ?thesis
    by (intro ev_inv_advance [OF inv u, of ?y "u\<lparr>eu_busy := True\<rparr>"]) simp_all
qed

lemma process_run_ok:
  assumes base: "ev_base y log"
  shows "process_run s (ey_ring y) h f =
     (case f (er_slots (ey_ring y) ! (unat (es_cursor s) mod ecap (ey_ring y))) of
        Inl e \<Rightarrow> (Inl e, s, h)
      | Inr out \<Rightarrow> (Inr out, s\<lparr>es_cursor := es_cursor s + 1\<rparr>, arc_store h (es_tracker s) (es_cursor s + 1)))"
  using ev_slot [OF base] by (simp add: process_run_def Let_def cong: sum.case_cong split: sum.splits)

lemma ev_inv_ran:
  assumes inv: "ev_inv y log" and u: "ey_subs y i = Some u" and busy: "eu_busy u"
    and run: "process_run (eu_sub u) (ey_ring y) (ey_heap y) f = (Inr (out :: unit), s, h)"
  shows "ev_inv (y\<lparr>ey_heap := h, ey_subs := (ey_subs y)(i \<mapsto> u\<lparr>eu_sub := s, eu_busy := False,
        eu_calls := eu_calls u @ [(lent_value u y, True)]\<rparr>)\<rparr>) log"
proof -
  let ?c = "unat (es_cursor (eu_sub u))" and ?h = "ey_heap y" and ?k = "ecap (ey_ring y)"
  let ?a = "es_tracker (eu_sub u)"
  let ?u = "u\<lparr>eu_sub := s, eu_busy := False,
        eu_calls := eu_calls u @ [(lent_value u y, True)]\<rparr>"
  let ?y = "y\<lparr>ey_heap := h, ey_subs := (ey_subs y)(i \<mapsto> ?u)\<rparr>"
  note base = ev_invD(1) [OF inv] and ok = ev_invD(2) [OF inv u]
  have c: "?c < length log" and n: "length log < 2 ^ 63 - 1"
    using ok busy base by (auto simp: esub_ok_def Let_def ev_base_def log_fits_def)
  have eq: "s = (eu_sub u)\<lparr>es_cursor := es_cursor (eu_sub u) + 1\<rparr>" "h = arc_store ?h ?a (es_cursor (eu_sub u) + 1)"
    using run by (auto simp: process_run_ok [OF base] split: sum.splits)
  have c': "unat (es_cursor s) = Suc ?c" using c n by (simp add: eq unat_u64_Suc)
  have idx: "unat (RingIndex_slot (er_index (ey_ring y)) (es_cursor (eu_sub u))) = ?c mod ?k"
    using ev_slot(1) [OF base] .
  have at: "?a < length ?h" "?h ! ?a = \<lparr>arc_strong = 1, arc_value = es_cursor (eu_sub u)\<rparr>"
    using ok by (auto simp: esub_ok_def Let_def)
  have see: "er_slots (ey_ring y) ! (?c mod ?k) = log ! ?c" using ok c by (simp add: esub_ok_def Let_def)
  have "calls_ok log u" using ok by (simp add: esub_ok_def Let_def)
  then have seen: "calls_ok log ?u" using c c' idx see by (simp add: calls_ok_def calls_from_snoc lent_value_def)
  have others: "esub_ok ?y log v" if v: "ey_subs y j = Some v" "j \<noteq> i" for j v
  proof -
    have "es_tracker (eu_sub v) \<noteq> ?a" using ev_invD(5) [OF inv u v(1)] v(2) by auto
    then show ?thesis using ev_invD(2) [OF inv v(1)] by (auto simp: esub_ok_def Let_def eq arc_store_def)
  qed
  have "esub_ok ?y log ?u"
    using ok c c' seen at by (auto simp: esub_ok_def Let_def eq arc_store_def)
  moreover have "ev_base ?y log" using base by (simp add: ev_base_def)
  moreover have "length h = length ?h" "arc_strong (h ! a) = arc_strong (?h ! a)" for a
    using at(1) by (simp_all add: eq(2) arc_store_def nth_list_update)
  ultimately show ?thesis using others
    by (intro ev_inv_advance [OF inv u, of ?y ?u]) (simp_all add: eq(1))
qed

lemma ev_inv_ran_panic:
  assumes inv: "ev_inv y log" and u: "ey_subs y i = Some u" and busy: "eu_busy u"
    and run: "process_run (eu_sub u) (ey_ring y) (ey_heap y) f = (Inl e :: unit may_panic, s, h)"
  shows "ev_inv (y\<lparr>ey_heap := h, ey_subs := (ey_subs y)(i \<mapsto> u\<lparr>eu_sub := s, eu_busy := False,
        eu_calls := eu_calls u @ [(lent_value u y, False)]\<rparr>)\<rparr>) log"
proof -
  let ?u = "u\<lparr>eu_sub := s, eu_busy := False, eu_calls := eu_calls u @ [(lent_value u y, False)]\<rparr>"
  let ?y = "y\<lparr>ey_heap := h, ey_subs := (ey_subs y)(i \<mapsto> ?u)\<rparr>"
  note base = ev_invD(1) [OF inv] and ok = ev_invD(2) [OF inv u]
  have eq: "s = eu_sub u" "h = ey_heap y"
    using run by (auto simp: process_run_ok [OF base] split: sum.splits)
  have "esub_ok ?y log v" if "ey_subs y j = Some v" for j v
    using ev_invD(2) [OF inv that] by (simp add: esub_ok_def Let_def eq)
  moreover have "calls_ok log u" "unat (es_cursor (eu_sub u)) < length log"
      "er_slots (ey_ring y) ! (unat (es_cursor (eu_sub u)) mod ecap (ey_ring y)) = log ! unat (es_cursor (eu_sub u))"
    using ok busy by (auto simp: esub_ok_def Let_def)
  then have "calls_ok log ?u" using ev_slot(1) [OF base] by (simp add: eq calls_ok_def calls_from_snoc lent_value_def)
  then have "esub_ok ?y log ?u" using ok by (simp add: esub_ok_def Let_def eq)
  moreover have "ev_base ?y log" using base by (simp add: ev_base_def)
  ultimately show ?thesis by (intro ev_inv_advance [OF inv u, of ?y ?u]) (simp_all add: eq)
qed

lemma ev_inv_dropped:
  assumes inv: "ev_inv y log" and u: "ey_subs y i = Some u"
  shows "ev_inv (y\<lparr>ey_heap := arc_drop (ey_heap y) (es_tracker (eu_sub u)), ey_subs := (ey_subs y)(i := None)\<rparr>) log"
    (is "ev_inv ?y log")
proof (rule ev_inv_update [OF inv, of _ i None])
  let ?a = "es_tracker (eu_sub u)" and ?h = "ey_heap y"
  have a: "?a < length ?h" "arc_strong (?h ! ?a) = 1"
    using ev_invD(2) [OF inv u] by (auto simp: esub_ok_def Let_def)
  have h: "length (arc_drop ?h ?a) = length ?h" "b \<noteq> ?a \<Longrightarrow> arc_drop ?h ?a ! b = ?h ! b"
      "arc_strong (arc_drop ?h ?a ! ?a) = 0" for b
    using a by (auto simp: arc_drop_def)
  show "ev_base ?y log" using ev_invD(1) [OF inv] by (simp add: ev_base_def)
  show "esub_ok ?y log v" if "j \<noteq> i" "ey_subs y j = Some v" for j v
  proof -
    have "es_tracker (eu_sub v) \<noteq> ?a" using ev_invD(5) [OF inv that(2) u] that(1) by blast
    then show ?thesis using ev_invD(2) [OF inv that(2)] by (simp add: esub_ok_def Let_def h)
  qed
  show "b < length (ey_heap ?y) \<and> (0 < arc_strong (ey_heap ?y ! b) \<longrightarrow>
      (\<exists>w. None = Some w \<and> es_tracker (eu_sub w) = b) \<or>
      (\<exists>j v. j \<noteq> i \<and> ey_subs y j = Some v \<and> es_tracker (eu_sub v) = b))"
    if "b \<in> set (er_trackers (ey_ring ?y))" for b
  proof (cases "b = ?a")
    case True
    then show ?thesis using a h by simp
  next
    case False
    have b: "b \<in> set (er_trackers (ey_ring y))" using that by simp
    show ?thesis using ev_invD(3,4) [OF inv b] h False u by simp (metis option.inject)
  qed
qed simp_all

lemma ev_reaches_inv:
  assumes "ev_reaches y0 x" "ev_inv y0 []"
  shows "log_fits (snd x) \<Longrightarrow> ev_inv (fst x) (snd x)"
  using assms
proof (induction rule: ev_reaches.induct)
  case (step x x')
  from step.hyps(2) have "log_fits (snd x') \<Longrightarrow> log_fits (snd x)"
    by (cases rule: ev_step.cases) (auto simp: log_fits_def)
  then have inv: "ev_inv (fst x) (snd x)" using step by blast
  from step.hyps(2) show ?case using inv step.prems
    by (cases rule: ev_step.cases)
      (auto intro: ev_inv_room ev_inv_wrote ev_inv_wrote_panic ev_inv_subscribe ev_inv_ready ev_inv_ran
        ev_inv_ran_panic ev_inv_dropped)
qed simp

lemma event_channel_inv:
  assumes "event_channel c factory = Inr (p, r)" "unat c < 2 ^ 63"
  shows "ev_inv (ev_fresh p r) []"
proof -
  obtain ri where ri: "RingIndex_new c = Inr ri" using assms(1) by (auto simp: event_channel_def split: sum.splits)
  note ok = RingIndex_new_Inr [OF ri]
  show ?thesis using assms ri ok
    by (auto simp: event_channel_def ev_inv_def ev_base_def ev_fresh_def log_fits_def)
qed

section \<open>A concrete run\<close>

definition demo_event_ring :: "u64 event_ring" where
  "demo_event_ring = \<lparr>er_slots = [0, 0], er_index = projr (RingIndex_new 2), er_cursor = u64_max, er_trackers = []\<rparr>"

lemma demo_event_channel:
  "event_channel 2 (\<lambda>_. 0) = Inr (\<lparr>ep_seq = 0, ep_cached_slowest = 0\<rparr>, demo_event_ring)"
  by (simp add: event_channel_def demo_event_ring_def RingIndex_new_def Let_def upt_rec)

text \<open>A subscriber joins, one message is published, the subscriber borrows it, and the publisher starts
  on the next slot.\<close>

definition demo_event_sys :: "u64 esys" where
  "demo_event_sys =
     \<lparr>ey_pub = \<lparr>ep_seq = 1, ep_cached_slowest = 0\<rparr>,
      ey_ring = demo_event_ring\<lparr>er_slots := [7, 0], er_cursor := 0, er_trackers := [0]\<rparr>,
      ey_heap = [\<lparr>arc_strong = 1, arc_value = 0\<rparr>], ey_writing = True,
      ey_subs = [0 \<mapsto> \<lparr>eu_sub = \<lparr>es_cursor = 0, es_tracker = 0\<rparr>, eu_busy = True, eu_from = 0, eu_calls = []\<rparr>]\<rparr>"

lemma demo_event_reaches:
  "ev_reaches (ev_fresh \<lparr>ep_seq = 0, ep_cached_slowest = 0\<rparr> demo_event_ring) (demo_event_sys, [7])"
proof -
  let ?p = "\<lparr>ep_seq = 0, ep_cached_slowest = 0\<rparr>"
  let ?y0 = "ev_fresh ?p demo_event_ring"
  let ?u = "\<lparr>eu_sub = \<lparr>es_cursor = 0, es_tracker = 0\<rparr>, eu_busy = False, eu_from = 0, eu_calls = []\<rparr> :: u64 esub"
  let ?y1 = "?y0\<lparr>ey_ring := demo_event_ring\<lparr>er_trackers := [0]\<rparr>, ey_heap := [\<lparr>arc_strong = 1, arc_value = 0\<rparr>],
      ey_subs := [0 \<mapsto> ?u]\<rparr>"
  let ?y2 = "?y1\<lparr>ey_writing := True\<rparr>"
  let ?y3 = "?y2\<lparr>ey_pub := \<lparr>ep_seq = 1, ep_cached_slowest = 0\<rparr>,
      ey_ring := demo_event_ring\<lparr>er_slots := [7, 0], er_cursor := 0, er_trackers := [0]\<rparr>, ey_writing := False\<rparr>"
  let ?y4 = "?y3\<lparr>ey_subs := [0 \<mapsto> ?u\<lparr>eu_busy := True\<rparr>]\<rparr>"
  have idx: "projr (RingIndex_new 2) = \<lparr>ri_capacity = 2, ri_mask = 1, ri_reciprocal = 9223372036854775808, ri_is_pow2 = True\<rparr>"
    by code_simp
  have s1: "ev_step (?y0, []) (?y1, [])"
    using ev_step.subscribe [of ?y0 0 _ _ _ "[]"]
    by (simp add: ev_fresh_def EventSubscribable_subscribe_def demo_event_ring_def Let_def arc_new_def)
  have s2: "ev_step (?y1, []) (?y2, [])"
    using ev_step.room [of ?y1 True ?p "demo_event_ring\<lparr>er_trackers := [0]\<rparr>" "[]"]
    by (simp add: ev_fresh_def EventPublisher_has_room_def demo_event_ring_def Let_def idx)
  have s3: "ev_step (?y2, []) (?y3, [] @ [7])"
    using ev_step.wrote [of ?y2 "\<lambda>_. (7, False)" "\<lparr>ep_seq = 1, ep_cached_slowest = 0\<rparr>"
        "demo_event_ring\<lparr>er_slots := [7, 0], er_cursor := 0, er_trackers := [0]\<rparr>" "[]"]
    by (simp add: ev_fresh_def EventPublisher_write_def demo_event_ring_def Let_def idx RingIndex_slot_def)
  have s4: "ev_step (?y3, [7]) (?y4, [7])"
    using ev_step.ready [of ?y3 0 ?u "[7]"]
    by (simp add: ev_fresh_def process_ready_def demo_event_ring_def Let_def)
  have s5: "ev_step (?y4, [7]) (demo_event_sys, [7])"
    using ev_step.room [of ?y4 True "\<lparr>ep_seq = 1, ep_cached_slowest = 0\<rparr>"
        "demo_event_ring\<lparr>er_slots := [7, 0], er_cursor := 0, er_trackers := [0]\<rparr>" "[7]"]
    by (simp add: ev_fresh_def EventPublisher_has_room_def demo_event_ring_def Let_def idx demo_event_sys_def
        word_le_nat_alt)
  show ?thesis
    by (rule ev_reaches.step [OF ev_reaches.step [OF ev_reaches.step [OF ev_reaches.step
        [OF ev_reaches.step [OF ev_reaches.init s1] s2] s3 [unfolded append_Nil]] s4] s5])
qed

section \<open>Properties\<close>

text \<open>
  C9: the event ring's exclusive access. In every interleaving, while the publisher holds a slot
  mutably, between its check for room and the release of the cursor, no subscriber holds a
  reference to that slot: the slots of the subscribers inside their closures are all different
  ones.
\<close>

theorem event_ring_exclusive:
  assumes "event_channel c factory = Inr (p, r)" and "unat c < 2 ^ 63"
    and "ev_reaches (ev_fresh p r) (y, log)" and "log_fits log"
    and "ey_writing y" and "ey_subs y i = Some u" and "eu_busy u"
  shows "RingIndex_slot (er_index (ey_ring y)) (ep_seq (ey_pub y)) \<noteq>
         RingIndex_slot (er_index (ey_ring y)) (es_cursor (eu_sub u))"
proof -
  have inv: "ev_inv y log" using ev_reaches_inv [OF assms(3) event_channel_inv [OF assms(1,2)]] assms(4) by simp
  note base = ev_invD(1) [OF inv] and ok = ev_invD(2) [OF inv assms(6)]
  let ?c = "unat (es_cursor (eu_sub u))"
  have "?c < length log" "length log < ?c + ecap (ey_ring y)" using ok assms(5,7) by (auto simp: esub_ok_def Let_def)
  then have "?c mod ecap (ey_ring y) \<noteq> length log mod ecap (ey_ring y)"
    using same_residue_gap [of ?c "ecap (ey_ring y)" "length log"] by auto
  moreover have "unat (ep_seq (ey_pub y)) = length log" using base by (simp add: ev_base_def)
  ultimately show ?thesis using ev_slot(1) [OF base] by (metis)
qed

theorem event_ring_exclusive_witness:
  "RingIndex_slot (er_index demo_event_ring) 1 \<noteq> RingIndex_slot (er_index demo_event_ring) 0"
  using event_ring_exclusive [OF demo_event_channel _ demo_event_reaches, of 0]
  by (simp add: demo_event_sys_def log_fits_def)

text \<open>
  C11: in every interleaving, let \<open>eu_from\<close> be the number of messages that had been published when a subscriber
  subscribed.  The calls of its closures that returned have seen exactly the messages from that one on up to its
  cursor, in order and once each; every call, also one that panicked, has seen the first message that no earlier call had
  consumed, so that a message whose closure panicked is seen again; and the messages it has not consumed yet are still
  in their slots.
\<close>

theorem event_ring_exactly_once:
  assumes "event_channel c factory = Inr (p, r)" and "unat c < 2 ^ 63"
    and "ev_reaches (ev_fresh p r) (y, log)" and "log_fits log" and "ey_subs y i = Some u"
  shows "map fst (filter snd (eu_calls u)) = take (unat (es_cursor (eu_sub u)) - eu_from u) (drop (eu_from u) log) \<and>
         eu_from u \<le> unat (es_cursor (eu_sub u)) \<and>
         (\<forall>n < length (eu_calls u). fst (eu_calls u ! n) = log ! (eu_from u + length (filter snd (take n (eu_calls u))))) \<and>
         (\<forall>s. unat (es_cursor (eu_sub u)) \<le> s \<longrightarrow> s < length log \<longrightarrow>
            er_slots (ey_ring y) ! (s mod ecap (ey_ring y)) = log ! s)"
proof -
  have inv: "ev_inv y log" using ev_reaches_inv [OF assms(3) event_channel_inv [OF assms(1,2)]] assms(4) by simp
  then have ok: "calls_from log (eu_from u) (eu_calls u)" "unat (es_cursor (eu_sub u)) = eu_from u + returns (eu_calls u)"
    "\<forall>s. unat (es_cursor (eu_sub u)) \<le> s \<longrightarrow> s < length log \<longrightarrow> er_slots (ey_ring y) ! (s mod ecap (ey_ring y)) = log ! s"
    using ev_invD(2) [OF inv assms(5)] by (auto simp: esub_ok_def calls_ok_def Let_def)
  show ?thesis using calls_from_seen [OF ok(1)] calls_from_nth [OF ok(1)] ok(2,3) by (simp add: returns_def)
qed

text \<open>A run with a message before the subscription, and a closure that panics once.\<close>

datatype ev_move = Room | Wrote u64 | Join nat | Lend nat | Ran nat bool

definition ev_move :: "ev_move \<Rightarrow> u64 esys \<times> u64 list \<Rightarrow> (u64 esys \<times> u64 list) option" where
  "ev_move a x =
     (case (a, x) of
        (Room, (y, log)) \<Rightarrow>
          if ey_writing y then None
          else (case EventPublisher_has_room (ey_pub y) (ey_ring y) (ey_heap y) of
                  (b, p, r) \<Rightarrow> Some (y\<lparr>ey_pub := p, ey_ring := r, ey_writing := b\<rparr>, log))
      | (Wrote v, (y, log)) \<Rightarrow>
          if \<not> ey_writing y then None
          else (case EventPublisher_write (ey_pub y) (ey_ring y) (\<lambda>_. (v, False)) of
                  (Inr _, p, r) \<Rightarrow>
                    Some (y\<lparr>ey_pub := p, ey_ring := r, ey_writing := False\<rparr>,
                      log @ [er_slots r ! unat (RingIndex_slot (er_index r) (ep_seq (ey_pub y)))])
                | _ \<Rightarrow> None)
      | (Join i, (y, log)) \<Rightarrow>
          (case ey_subs y i of
             None \<Rightarrow>
               (case EventSubscribable_subscribe (ey_ring y) (ey_heap y) of
                  (s, r, h) \<Rightarrow> Some (y\<lparr>ey_ring := r, ey_heap := h, ey_subs := (ey_subs y)(i \<mapsto>
                    \<lparr>eu_sub = s, eu_busy = False, eu_from = length log, eu_calls = []\<rparr>)\<rparr>, log))
           | Some _ \<Rightarrow> None)
      | (Lend i, (y, log)) \<Rightarrow>
          (case ey_subs y i of
             None \<Rightarrow> None
           | Some u \<Rightarrow>
               if \<not> eu_busy u \<and> process_ready (eu_sub u) (ey_ring y)
               then Some (y\<lparr>ey_subs := (ey_subs y)(i \<mapsto> u\<lparr>eu_busy := True\<rparr>)\<rparr>, log) else None)
      | (Ran i b, (y, log)) \<Rightarrow>
          (case ey_subs y i of
             None \<Rightarrow> None
           | Some u \<Rightarrow>
               if eu_busy u
               then (case process_run (eu_sub u) (ey_ring y) (ey_heap y) (\<lambda>_. if b then Inr () else Inl ClosurePanic) of
                       (res, s, h) \<Rightarrow>
                         Some (y\<lparr>ey_heap := h, ey_subs := (ey_subs y)(i \<mapsto> u\<lparr>eu_sub := s, eu_busy := False,
                           eu_calls := eu_calls u @ [(lent_value u y, case res of Inl _ \<Rightarrow> False | Inr _ \<Rightarrow> True)]\<rparr>)\<rparr>, log))
               else None))"

lemma ev_move_step:
  assumes "ev_move a x = Some x'"
  shows "ev_step x x'"
proof -
  obtain y log where x: "x = (y, log)" by (cases x)
  show ?thesis
  proof (cases a)
    case Room
    then show ?thesis using assms by (auto simp: ev_move_def x split: if_splits prod.splits intro: ev_step.room)
  next
    case (Wrote v)
    then show ?thesis using assms by (auto simp: ev_move_def x split: if_splits prod.splits sum.splits intro: ev_step.wrote)
  next
    case (Join i)
    then show ?thesis using assms by (auto simp: ev_move_def x split: option.splits prod.splits intro: ev_step.subscribe)
  next
    case (Lend i)
    then show ?thesis using assms by (auto simp: ev_move_def x split: option.splits if_splits intro: ev_step.ready)
  next
    case (Ran i b)
    then show ?thesis using assms
      by (auto simp: ev_move_def x split: option.splits if_splits prod.splits sum.splits intro: ev_step.ran ev_step.ran_panic)
  qed
qed

primrec ev_moves :: "ev_move list \<Rightarrow> u64 esys \<times> u64 list \<Rightarrow> (u64 esys \<times> u64 list) option" where
  "ev_moves [] x = Some x"
| "ev_moves (a # as) x = (case ev_move a x of None \<Rightarrow> None | Some x' \<Rightarrow> ev_moves as x')"

lemma ev_moves_reaches: "ev_reaches y0 x \<Longrightarrow> ev_moves as x = Some x' \<Longrightarrow> ev_reaches y0 x'"
proof (induction as arbitrary: x)
  case (Cons a as)
  then obtain x1 where "ev_move a x = Some x1" "ev_moves as x1 = Some x'" by (auto split: option.splits)
  then show ?case using Cons.IH [of x1] ev_reaches.step [OF Cons.prems(1) ev_move_step] by blast
qed simp

theorem event_ring_exactly_once_witness:
  "\<exists>y u. ev_moves [Room, Wrote 5, Join 0, Room, Wrote 7, Lend 0, Ran 0 False, Lend 0, Ran 0 True]
       (ev_fresh \<lparr>ep_seq = 0, ep_cached_slowest = 0\<rparr> demo_event_ring, []) = Some (y, [5, 7]) \<and>
     ey_subs y 0 = Some u \<and> eu_from u = 1 \<and> map snd (eu_calls u) = [False, True] \<and>
     fst (eu_calls u ! 0) = 7 \<and> fst (eu_calls u ! 1) = 7 \<and> map fst (filter snd (eu_calls u)) = [7]"
proof -
  let ?x0 = "(ev_fresh \<lparr>ep_seq = 0, ep_cached_slowest = 0\<rparr> demo_event_ring, [])"
  let ?moves = "[Room, Wrote 5, Join 0, Room, Wrote 7, Lend 0, Ran 0 False, Lend 0, Ran 0 True]"
  have "(case ev_moves ?moves ?x0 of
      None \<Rightarrow> None
    | Some (y, log) \<Rightarrow> Some (log, map_option (\<lambda>u. (eu_from u, map snd (eu_calls u), es_cursor (eu_sub u))) (ey_subs y 0))) =
    Some ([5, 7], Some (1, [False, True], 2))" by code_simp
  then obtain y u where y: "ev_moves ?moves ?x0 = Some (y, [5, 7])" "ey_subs y 0 = Some u" "eu_from u = 1"
      "map snd (eu_calls u) = [False, True]" "es_cursor (eu_sub u) = 2"
    by (auto split: option.splits)
  obtain v1 v2 where calls: "eu_calls u = [(v1, False), (v2, True)]" using y(4) by (auto simp: map_eq_Cons_conv)
  have all: "map fst (filter snd (eu_calls u)) = [7]"
      "\<forall>n < length (eu_calls u). fst (eu_calls u ! n) = [5, 7] ! (1 + length (filter snd (take n (eu_calls u))))"
    using event_ring_exactly_once [OF demo_event_channel _ ev_moves_reaches [OF ev_reaches.init y(1)] _ y(2)] y(3,5)
    by (simp_all add: log_fits_def)
  then have "fst (eu_calls u ! 0) = 7" "fst (eu_calls u ! 1) = 7" by (auto simp: calls)
  then show ?thesis using y(1-4) all(1) by (intro exI [of _ y] exI [of _ u]) simp
qed

end
