(* ===== verification/Seqlock.thy ===== *)
theory Seqlock
  imports Publisher
begin

text \<open>
  The seqlock protocol of \<^verbatim>\<open>src/src/slot.rs\<close> under interleaving, one shared-memory access at a time:
  a reader loads the stamp, then the payload piece by piece (the stripes of the \<^verbatim>\<open>atomic-slots\<close>
  build, or whatever pieces a volatile copy is made of), then the stamp again, while writers act
  between any two of its loads.

  Accesses are interleaved in one global order: the model is sequentially consistent.  Theory
  \<open>Weak_Seqlock\<close> has the protocol with the memory orderings and fences of the source.
\<close>

section \<open>A ring whose payloads are lists of pieces\<close>

type_synonym 'c pring = "'c list shared_ring"

definition slot_at :: "'c pring \<Rightarrow> u64 \<Rightarrow> nat" where
  "slot_at r seq = unat (RingIndex_slot (sr_index r) seq)"

definition set_slot :: "'c pring \<Rightarrow> u64 \<Rightarrow> 'c list slot \<Rightarrow> 'c pring" where
  "set_slot r seq sl = r\<lparr>sr_slots := (sr_slots r)[slot_at r seq := sl]\<rparr>"

section \<open>The reader, one access at a time\<close>

datatype 'c reader =
    LoadStamp u64
  | LoadPayload u64 u64 "'c list"
  | ReadDone u64 "u64 + 'c list option"

primrec reader_seq :: "'c reader \<Rightarrow> u64" where
  "reader_seq (LoadStamp seq) = seq"
| "reader_seq (LoadPayload seq s1 buf) = seq"
| "reader_seq (ReadDone seq res) = seq"

definition reader_step :: "u64 \<Rightarrow> 'c list \<Rightarrow> 'c reader \<Rightarrow> 'c reader" where
  "reader_step stamp payload rd =
     (case rd of
        LoadStamp seq \<Rightarrow>
          let expected = seq * 2 + 2; s1 = stamp
          in if s1 = expected then LoadPayload seq s1 []
             else if s1 AND 1 \<noteq> 0 then ReadDone seq (Inr None)
             else ReadDone seq (Inl s1)
      | LoadPayload seq s1 buf \<Rightarrow>
          if length buf < length payload then LoadPayload seq s1 (buf @ [payload ! length buf])
          else let s2 = stamp
               in if s1 = s2 then ReadDone seq (Inr (Some buf)) else ReadDone seq (Inr None)
      | ReadDone seq res \<Rightarrow> ReadDone seq res)"

text \<open>A reader run beside the writers: any number of writer steps between two of its accesses.\<close>

inductive observed ::
    "('s \<Rightarrow> 's \<Rightarrow> bool) \<Rightarrow> ('s \<Rightarrow> nat \<Rightarrow> u64) \<Rightarrow> ('s \<Rightarrow> nat \<Rightarrow> 'c list) \<Rightarrow> nat \<Rightarrow> 's \<Rightarrow> 'c reader \<Rightarrow>
     's \<Rightarrow> 'c reader \<Rightarrow> bool"
  for step stamp payload k s0 rd0 where
  begin_read: "observed step stamp payload k s0 rd0 s0 rd0"
| writer: "observed step stamp payload k s0 rd0 s rd \<Longrightarrow> step s s' \<Longrightarrow>
     observed step stamp payload k s0 rd0 s' rd"
| access: "observed step stamp payload k s0 rd0 s rd \<Longrightarrow> i = unat (reader_seq rd) mod k \<Longrightarrow>
     observed step stamp payload k s0 rd0 s (reader_step (stamp s i) (payload s i) rd)"

text \<open>Several accesses of the reader in a row.\<close>

fun read_run :: "('s \<Rightarrow> nat \<Rightarrow> u64) \<Rightarrow> ('s \<Rightarrow> nat \<Rightarrow> 'c list) \<Rightarrow> nat \<Rightarrow> nat \<Rightarrow> 's \<Rightarrow> 'c reader \<Rightarrow> 'c reader" where
  "read_run stamp payload k 0 s rd = rd"
| "read_run stamp payload k (Suc n) s rd =
     (let i = unat (reader_seq rd) mod k
      in read_run stamp payload k n s (reader_step (stamp s i) (payload s i) rd))"

lemma observed_reads:
  assumes "observed step stamp payload k s0 rd0 s rd"
  shows "observed step stamp payload k s0 rd0 s (read_run stamp payload k n s rd)"
  using assms by (induction n arbitrary: rd) (auto simp: Let_def intro: observed.access)

section \<open>The contract of the writers\<close>

text \<open>
  What the reader relies on.  Stamps only grow; while a stamp is even no writer touches the
  payload; a done stamp certifies the payload of its message; and a message, once committed, is
  fixed.  Every writer of the crate has to keep this contract.
\<close>

locale seqlock_writers =
  fixes step :: "'s \<Rightarrow> 's \<Rightarrow> bool"
    and stamp :: "'s \<Rightarrow> nat \<Rightarrow> u64"
    and payload :: "'s \<Rightarrow> nat \<Rightarrow> 'c list"
    and msg :: "'s \<Rightarrow> nat \<Rightarrow> 'c list"
    and inv :: "'s \<Rightarrow> bool"
    and k :: nat
  assumes inv_step: "inv s \<Longrightarrow> step s s' \<Longrightarrow> inv s'"
    and stamp_mono: "inv s \<Longrightarrow> step s s' \<Longrightarrow> i < k \<Longrightarrow> unat (stamp s i) \<le> unat (stamp s' i)"
    and even_quiet: "inv s \<Longrightarrow> step s s' \<Longrightarrow> i < k \<Longrightarrow> even (unat (stamp s i)) \<Longrightarrow>
        stamp s' i = stamp s i \<Longrightarrow> payload s' i = payload s i"
    and done_payload: "inv s \<Longrightarrow> unat (stamp s (q mod k)) = 2 * q + 2 \<Longrightarrow> payload s (q mod k) = msg s q"
    and msg_fixed: "inv s \<Longrightarrow> step s s' \<Longrightarrow> 2 * q + 2 \<le> unat (stamp s (q mod k)) \<Longrightarrow> msg s' q = msg s q"
    and slots: "0 < k"
begin

definition reader_ok :: "'s \<Rightarrow> 'c reader \<Rightarrow> bool" where
  "reader_ok s rd \<longleftrightarrow>
     (case rd of
        LoadStamp seq \<Rightarrow> True
      | LoadPayload seq s1 buf \<Rightarrow>
          s1 = seq * 2 + 2 \<and> 2 * unat seq + 2 \<le> unat (stamp s (unat seq mod k)) \<and>
          (stamp s (unat seq mod k) = s1 \<longrightarrow>
             length buf \<le> length (msg s (unat seq)) \<and> buf = take (length buf) (msg s (unat seq)))
      | ReadDone seq res \<Rightarrow>
          (\<forall>buf. res = Inr (Some buf) \<longrightarrow>
             2 * unat seq + 2 \<le> unat (stamp s (unat seq mod k)) \<and> buf = msg s (unat seq)))"

lemma reader_ok_writer:
  assumes i: "inv s" and st: "step s s'" and fit: "unat (reader_seq rd) < 2 ^ 63 - 1" and ok: "reader_ok s rd"
  shows "reader_ok s' rd"
proof -
  let ?q = "unat (reader_seq rd)" and ?i = "unat (reader_seq rd) mod k"
  have mono: "unat (stamp s ?i) \<le> unat (stamp s' ?i)" using stamp_mono [OF i st] slots by simp
  note fixed = msg_fixed [OF i st, of ?q]
  show ?thesis
  proof (cases rd)
    case (LoadPayload seq s1 buf)
    then have s1: "unat s1 = 2 * unat seq + 2" using ok fit by (simp add: reader_ok_def unat_u64_stamp_done)
    have "stamp s ?i = s1" if "stamp s' ?i = s1"
      using that mono ok LoadPayload s1 by (simp add: reader_ok_def u64_eq_iff)
    then show ?thesis using ok mono fixed LoadPayload by (auto simp: reader_ok_def)
  next
    case (ReadDone seq res)
    then show ?thesis using ok mono fixed by (fastforce simp: reader_ok_def)
  qed (simp add: reader_ok_def)
qed

lemma reader_ok_access:
  assumes i: "inv s" and fit: "unat (reader_seq rd) < 2 ^ 63 - 1" and ok: "reader_ok s rd"
  shows "reader_ok s (reader_step (stamp s (unat (reader_seq rd) mod k)) (payload s (unat (reader_seq rd) mod k)) rd)"
proof (cases rd)
  case (LoadStamp seq)
  then show ?thesis using fit by (auto simp: reader_step_def reader_ok_def Let_def unat_u64_stamp_done)
next
  case (LoadPayload seq s1 buf)
  let ?i = "unat seq mod k"
  have s1: "s1 = seq * 2 + 2" "unat s1 = 2 * unat seq + 2"
    using ok fit LoadPayload by (simp_all add: reader_ok_def unat_u64_stamp_done)
  have "payload s ?i = msg s (unat seq)" if "stamp s ?i = s1"
    using that s1 done_payload [OF i, of "unat seq"] by simp
  then show ?thesis using ok LoadPayload s1
    by (auto simp: reader_step_def reader_ok_def Let_def take_Suc_conv_app_nth)
qed (use ok in \<open>simp add: reader_step_def\<close>)

lemma reader_step_seq [simp]: "reader_seq (reader_step st pl rd) = reader_seq rd"
  by (simp add: reader_step_def Let_def split: reader.splits)

lemma observed_ok:
  assumes "observed step stamp payload k s0 rd0 s rd" "inv s0" "unat (reader_seq rd0) < 2 ^ 63 - 1" "reader_ok s0 rd0"
  shows "inv s \<and> reader_ok s rd \<and> reader_seq rd = reader_seq rd0"
  using assms
proof (induction rule: observed.induct)
  case (writer s rd s')
  then have "inv s" "unat (reader_seq rd) < 2 ^ 63 - 1" "reader_ok s rd" "reader_seq rd = reader_seq rd0" by auto
  then show ?case using inv_step [OF _ writer.hyps(2)] reader_ok_writer [OF _ writer.hyps(2)] by blast
next
  case (access s rd i)
  then have "inv s" "unat (reader_seq rd) < 2 ^ 63 - 1" "reader_ok s rd" "reader_seq rd = reader_seq rd0" by auto
  then show ?case using reader_ok_access [of s rd] access.hyps(2) by simp
qed simp

lemma no_torn_read:
  assumes "observed step stamp payload k s0 (LoadStamp seq) s (ReadDone seq' (Inr (Some buf)))" "inv s0"
    and "unat seq < 2 ^ 63 - 1"
  shows "buf = msg s (unat seq)" "2 * unat seq + 2 \<le> unat (stamp s (unat seq mod k))"
proof -
  have "reader_ok s0 (LoadStamp seq)" by (simp add: reader_ok_def)
  from observed_ok [OF assms(1,2) _ this] assms(3)
  have "reader_ok s (ReadDone seq' (Inr (Some buf)))" "seq' = seq" by auto
  then show "buf = msg s (unat seq)" "2 * unat seq + 2 \<le> unat (stamp s (unat seq mod k))"
    by (auto simp: reader_ok_def)
qed

end

end
