(* ===== verification/Spmc_Seqlock.thy ===== *)
theory Spmc_Seqlock
  imports Seqlock
begin

text \<open>
  The single producer under interleaving: \<^verbatim>\<open>Publisher::publish_unchecked\<close> of
  \<^verbatim>\<open>src/src/channel/publisher.rs\<close> and the \<^verbatim>\<open>Slot::write\<close> inside it, one shared-memory access at a time.
  Run to its end it is the operation of the sequential model; and it keeps the seqlock contract, so that
  a reader never accepts a torn payload.
\<close>

section \<open>The publisher, one access at a time\<close>

datatype 'c ppc = Ready | Storing "'c list" nat | StoreCursor

record 'c spsys =
  sq_ring :: "'c pring"
  sq_pub :: publisher
  sq_pc :: "'c ppc"
  sq_log :: "'c list list"

definition Publisher_publish_step :: "'c list \<Rightarrow> 'c spsys \<Rightarrow> 'c spsys" where
  "Publisher_publish_step v y =
     (let r = sq_ring y; p = sq_pub y; seq = pb_seq p;
          i = unat (RingIndex_slot (pb_index p) seq); sl = sr_slots r ! i
      in case sq_pc y of
           Ready \<Rightarrow>
             y\<lparr>sq_ring := r\<lparr>sr_slots := (sr_slots r)[i := sl\<lparr>slot_stamp := seq * 2 + 1\<rparr>]\<rparr>,
               sq_pc := Storing v 0, sq_log := sq_log y @ [v]\<rparr>
         | Storing u j \<Rightarrow>
             if j < length u
             then y\<lparr>sq_ring := r\<lparr>sr_slots := (sr_slots r)[i := sl\<lparr>slot_value := (slot_value sl)[j := u ! j]\<rparr>]\<rparr>,
                    sq_pc := Storing u (Suc j)\<rparr>
             else y\<lparr>sq_ring := r\<lparr>sr_slots := (sr_slots r)[i := sl\<lparr>slot_stamp := seq * 2 + 2\<rparr>]\<rparr>,
                    sq_pc := StoreCursor\<rparr>
         | StoreCursor \<Rightarrow>
             y\<lparr>sq_ring := r\<lparr>sr_cursor := seq\<rparr>, sq_pub := p\<lparr>pb_seq := seq + 1\<rparr>, sq_pc := Ready\<rparr>)"

inductive sp_step :: "nat \<Rightarrow> 'c spsys \<Rightarrow> 'c spsys \<Rightarrow> bool" for w where
  sp_stepI: "length v = w \<Longrightarrow> sq_pc y = Ready \<longrightarrow> length (sq_log y) < 2 ^ 63 - 2 \<Longrightarrow>
     sp_step w y (Publisher_publish_step v y)"

inductive sp_reaches :: "nat \<Rightarrow> 'c spsys \<Rightarrow> 'c spsys \<Rightarrow> bool" for w y0 where
  sp_start: "sp_reaches w y0 y0"
| sp_next: "sp_reaches w y0 y \<Longrightarrow> sp_step w y y' \<Longrightarrow> sp_reaches w y0 y'"

definition sp_fresh :: "publisher \<Rightarrow> 'c pring \<Rightarrow> 'c spsys" where
  "sp_fresh p r = \<lparr>sq_ring = r, sq_pub = p, sq_pc = Ready, sq_log = []\<rparr>"

definition sp_stamp :: "'c spsys \<Rightarrow> nat \<Rightarrow> u64" where
  "sp_stamp y i = Slot_stamp_load (sr_slots (sq_ring y) ! i)"

definition sp_payload :: "'c spsys \<Rightarrow> nat \<Rightarrow> 'c list" where
  "sp_payload y i = slot_value (sr_slots (sq_ring y) ! i)"

definition sp_message :: "'c spsys \<Rightarrow> nat \<Rightarrow> 'c list" where
  "sp_message y q = sq_log y ! q"

section \<open>The invariant\<close>

definition sp_base :: "nat \<Rightarrow> nat \<Rightarrow> 'c spsys \<Rightarrow> bool" where
  "sp_base k w y \<longleftrightarrow>
     ring_index_ok (pb_index (sq_pub y)) \<and> unat (ri_capacity (pb_index (sq_pub y))) = k \<and>
     length (sr_slots (sq_ring y)) = k \<and> length (sq_log y) < 2 ^ 63 - 1 \<and> (\<forall>v \<in> set (sq_log y). length v = w) \<and>
     (\<forall>i < k. length (sp_payload y i) = w)"

definition sp_slot :: "nat \<Rightarrow> 'c spsys \<Rightarrow> nat \<Rightarrow> bool" where
  "sp_slot k y i \<longleftrightarrow> unat (sp_stamp y i) = 0 \<or>
     (\<exists>q < length (sq_log y). q mod k = i \<and>
        (unat (sp_stamp y i) = 2 * q + 1 \<and> Suc q = length (sq_log y) \<and> (\<exists>u j. sq_pc y = Storing u j) \<or>
         unat (sp_stamp y i) = 2 * q + 2 \<and> sp_payload y i = sq_log y ! q))"

fun sp_pc_ok :: "nat \<Rightarrow> nat \<Rightarrow> 'c spsys \<Rightarrow> 'c ppc \<Rightarrow> bool" where
  "sp_pc_ok k w y Ready \<longleftrightarrow> unat (pb_seq (sq_pub y)) = length (sq_log y)"
| "sp_pc_ok k w y (Storing u j) \<longleftrightarrow>
     (let q = unat (pb_seq (sq_pub y))
      in Suc q = length (sq_log y) \<and> u = sq_log y ! q \<and> j \<le> w \<and> unat (sp_stamp y (q mod k)) = 2 * q + 1 \<and>
         take j (sp_payload y (q mod k)) = take j u)"
| "sp_pc_ok k w y StoreCursor \<longleftrightarrow> Suc (unat (pb_seq (sq_pub y))) = length (sq_log y)"

definition sp_inv :: "nat \<Rightarrow> nat \<Rightarrow> 'c spsys \<Rightarrow> bool" where
  "sp_inv k w y \<longleftrightarrow> sp_base k w y \<and> (\<forall>i < k. sp_slot k y i) \<and> sp_pc_ok k w y (sq_pc y)"

lemma sp_inv_fresh:
  assumes "channel uninit c = Inr (p, r)" "length uninit = w"
  shows "sp_inv (unat c) w (sp_fresh p r)"
proof -
  from assms(1) obtain index where ix: "RingIndex_new c = Inr index" and
      r: "r = \<lparr>sr_slots = map (\<lambda>_. Slot_new uninit) [0..<unat c], sr_index = index, sr_cursor = u64_max,
               sr_backpressure = None, sr_next_seq = None\<rparr>" and p: "p = make_publisher r"
    by (auto simp: channel_def SharedRing_new_def split: sum.splits)
  show ?thesis using RingIndex_new_Inr [OF ix] assms(2)
    by (auto simp: sp_inv_def sp_base_def sp_slot_def sp_fresh_def sp_stamp_def sp_payload_def r p make_publisher_def
        Slot_new_def Slot_stamp_load_def)
qed

lemma sp_base_slots:
  assumes "sp_base k w y"
  shows "0 < k" "unat (RingIndex_slot (pb_index (sq_pub y)) seq) = unat seq mod k" "q mod k < length (sr_slots (sq_ring y))"
proof -
  have ok: "ring_index_ok (pb_index (sq_pub y))" "unat (ri_capacity (pb_index (sq_pub y))) = k"
      "length (sr_slots (sq_ring y)) = k"
    using assms by (auto simp: sp_base_def)
  have "2 \<le> k" using ring_index_ok_capacity [OF ok(1)] ok(2) by simp
  then show "0 < k" "q mod k < length (sr_slots (sq_ring y))" using ok(3) by auto
  show "unat (RingIndex_slot (pb_index (sq_pub y)) seq) = unat seq mod k"
    using RingIndex_slot_unat ok by (auto simp: ring_index_ok_def)
qed

text \<open>What one access does, slot by slot.\<close>

lemma sp_step_view:
  assumes "sp_base k w y" and "y' = Publisher_publish_step v y"
  defines "q \<equiv> unat (pb_seq (sq_pub y))"
  shows "sq_pc y = Ready \<Longrightarrow> sp_stamp y' i = (if i = q mod k then pb_seq (sq_pub y) * 2 + 1 else sp_stamp y i) \<and>
      sp_payload y' i = sp_payload y i \<and> sq_pc y' = Storing v 0 \<and> sq_log y' = sq_log y @ [v] \<and> sq_pub y' = sq_pub y"
    and "sq_pc y = Storing u j \<Longrightarrow> j < length u \<Longrightarrow> sp_stamp y' i = sp_stamp y i \<and>
      sp_payload y' i = (if i = q mod k then (sp_payload y i)[j := u ! j] else sp_payload y i) \<and>
      sq_pc y' = Storing u (Suc j) \<and> sq_log y' = sq_log y \<and> sq_pub y' = sq_pub y"
    and "sq_pc y = Storing u j \<Longrightarrow> \<not> j < length u \<Longrightarrow>
      sp_stamp y' i = (if i = q mod k then pb_seq (sq_pub y) * 2 + 2 else sp_stamp y i) \<and>
      sp_payload y' i = sp_payload y i \<and> sq_pc y' = StoreCursor \<and> sq_log y' = sq_log y \<and> sq_pub y' = sq_pub y"
    and "sq_pc y = StoreCursor \<Longrightarrow> sp_stamp y' i = sp_stamp y i \<and> sp_payload y' i = sp_payload y i \<and>
      sq_pc y' = Ready \<and> sq_log y' = sq_log y \<and> sq_pub y' = (sq_pub y)\<lparr>pb_seq := pb_seq (sq_pub y) + 1\<rparr>"
    and "length (sr_slots (sq_ring y')) = length (sr_slots (sq_ring y))"
  using sp_base_slots [OF assms(1)] assms(2)
  by (auto simp: Publisher_publish_step_def Let_def sp_stamp_def sp_payload_def Slot_stamp_load_def q_def nth_list_update
      split: ppc.splits)

lemma sp_invD:
  assumes "sp_inv k w y"
  shows "sp_base k w y" "i < k \<Longrightarrow> sp_slot k y i" "sp_pc_ok k w y (sq_pc y)"
  using assms by (auto simp: sp_inv_def)

lemma sp_slot_le:
  assumes "sp_slot k y i"
  shows "unat (sp_stamp y i) \<le> 2 * length (sq_log y)"
  using assms by (auto simp: sp_slot_def)

lemma sp_quiet_slot:
  assumes "sp_slot k y i" "\<And>u j. sq_pc y = Storing u j \<Longrightarrow> i \<noteq> (length (sq_log y) - 1) mod k"
    and "sp_stamp y' i = sp_stamp y i" "sp_payload y' i = sp_payload y i" "\<exists>vs. sq_log y' = sq_log y @ vs"
  shows "sp_slot k y' i"
proof -
  have "unat (sp_stamp y i) = 0 \<or>
     (\<exists>q < length (sq_log y). q mod k = i \<and> unat (sp_stamp y i) = 2 * q + 2 \<and> sp_payload y i = sq_log y ! q)"
    using assms(1,2) unfolding sp_slot_def by (metis diff_Suc_1)
  then show ?thesis using assms(3-5) unfolding sp_slot_def by (fastforce simp: nth_append)
qed

lemma sp_inv_step:
  assumes inv: "sp_inv k w y" and "sp_step w y y'"
  shows "sp_inv k w y'"
proof -
  from assms(2) obtain v where v: "length v = w" "sq_pc y = Ready \<longrightarrow> length (sq_log y) < 2 ^ 63 - 2"
      and y': "y' = Publisher_publish_step v y"
    by (rule sp_step.cases) simp
  note base = sp_invD(1) [OF inv] and slot = sp_invD(2) [OF inv] and pc = sp_invD(3) [OF inv]
  note view = sp_step_view [OF base y']
  let ?seq = "pb_seq (sq_pub y)"
  let ?q = "unat ?seq"
  have k: "0 < k" using sp_base_slots [OF base] by simp
  have n: "length (sq_log y) < 2 ^ 63 - 1" using base by (simp add: sp_base_def)
  show ?thesis
  proof (cases "sq_pc y")
    case Ready
    have q: "?q = length (sq_log y)" using pc Ready by simp
    have st: "unat (?seq * 2 + 1) = 2 * ?q + 1" using q n by (intro unat_u64_stamp) simp
    have "sp_base k w y'" using base view(1) [OF Ready] view(5) v Ready by (auto simp: sp_base_def)
    moreover have "sp_slot k y' i" if "i < k" for i
    proof (cases "i = ?q mod k")
      case True
      then show ?thesis using view(1) [OF Ready, of i] st q by (auto simp: sp_slot_def)
    next
      case False
      then show ?thesis using view(1) [OF Ready, of i] Ready by (intro sp_quiet_slot [OF slot [OF that]]) auto
    qed
    moreover have "sp_pc_ok k w y' (sq_pc y')" using view(1) [OF Ready] q st by (simp add: Let_def nth_append)
    ultimately show ?thesis by (simp add: sp_inv_def)
  next
    case (Storing u j)
    then have q: "Suc ?q = length (sq_log y)" "u = sq_log y ! ?q" "j \<le> w" "unat (sp_stamp y (?q mod k)) = 2 * ?q + 1"
        "take j (sp_payload y (?q mod k)) = take j u"
      using pc by (auto simp: Let_def)
    have last: "length (sq_log y) - 1 = ?q" using q(1) by simp
    have lens: "length u = w" "length (sp_payload y (?q mod k)) = w"
      using base q(1,2) k by (auto simp: sp_base_def)
    show ?thesis
    proof (cases "j < length u")
      case True
      note view = view(2) [OF Storing True]
      have "sp_base k w y'" using base view sp_step_view(5) [OF base y'] by (auto simp: sp_base_def)
      moreover have "sp_slot k y' i" if "i < k" for i
      proof (cases "i = ?q mod k")
        case True
        then show ?thesis using view [of i] q(1,4) unfolding sp_slot_def
          by (intro disjI2 exI [of _ ?q]) simp
      next
        case False
        then show ?thesis using view [of i] last by (intro sp_quiet_slot [OF slot [OF that]]) auto
      qed
      moreover have "sp_pc_ok k w y' (sq_pc y')"
        using view [of "?q mod k"] q lens True by (simp add: Let_def take_Suc_conv_app_nth)
      ultimately show ?thesis by (simp add: sp_inv_def)
    next
      case False
      note view = view(3) [OF Storing False]
      have st: "unat (?seq * 2 + 2) = 2 * ?q + 2" using q(1) n by (intro unat_u64_stamp_done) simp
      have "sp_base k w y'" using base view sp_step_view(5) [OF base y'] by (auto simp: sp_base_def)
      moreover have "sp_slot k y' i" if "i < k" for i
      proof (cases "i = ?q mod k")
        case True
        have "sp_payload y (?q mod k) = sq_log y ! ?q" using q lens False by simp
        then show ?thesis using view [of i] st q(1) True unfolding sp_slot_def
          by (intro disjI2 exI [of _ ?q]) simp
      next
        case False
        then show ?thesis using view [of i] last by (intro sp_quiet_slot [OF slot [OF that]]) auto
      qed
      moreover have "sp_pc_ok k w y' (sq_pc y')" using view [of 0] q(1) by simp
      ultimately show ?thesis by (simp add: sp_inv_def)
    qed
  next
    case StoreCursor
    note view = view(4) [OF StoreCursor]
    have "unat (?seq + 1) = ?q + 1" using pc StoreCursor n by (intro unat_u64_Suc) simp
    then have "sp_pc_ok k w y' (sq_pc y')" using view [of 0] pc StoreCursor by simp
    moreover have "sp_base k w y'" using base view sp_step_view(5) [OF base y'] by (auto simp: sp_base_def)
    moreover have "sp_slot k y' i" if "i < k" for i
      using view [of i] StoreCursor by (intro sp_quiet_slot [OF slot [OF that]]) auto
    ultimately show ?thesis by (simp add: sp_inv_def)
  qed
qed

lemma sp_step_slot:
  assumes inv: "sp_inv k w y" and "sp_step w y y'" and i: "i < k"
  shows "unat (sp_stamp y i) \<le> unat (sp_stamp y' i) \<and>
    (even (unat (sp_stamp y i)) \<and> sp_stamp y' i = sp_stamp y i \<longrightarrow> sp_payload y' i = sp_payload y i)"
proof -
  from assms(2) obtain v where y': "y' = Publisher_publish_step v y" by (rule sp_step.cases) simp
  note base = sp_invD(1) [OF inv] and slot = sp_invD(2) [OF inv i] and pc = sp_invD(3) [OF inv]
  note view = sp_step_view [OF base y']
  let ?seq = "pb_seq (sq_pub y)"
  have n: "length (sq_log y) < 2 ^ 63 - 1" using base by (simp add: sp_base_def)
  show ?thesis
  proof (cases "sq_pc y")
    case Ready
    then have "unat (?seq * 2 + 1) = 2 * length (sq_log y) + 1" using pc n by (subst unat_u64_stamp) simp_all
    then show ?thesis using view(1) [OF Ready, of i] sp_slot_le [OF slot] by auto
  next
    case (Storing u j)
    then have q: "Suc (unat ?seq) = length (sq_log y)" "unat (sp_stamp y (unat ?seq mod k)) = 2 * unat ?seq + 1"
      using pc by (auto simp: Let_def)
    then have "unat (?seq * 2 + 2) = 2 * unat ?seq + 2" using n by (subst unat_u64_stamp_done) simp_all
    then show ?thesis using view(2,3) [OF Storing, of i] q(2) by (cases "j < length u") auto
  next
    case StoreCursor
    then show ?thesis using view(4) by simp
  qed
qed

section \<open>The publisher keeps the seqlock contract\<close>

interpretation sp: seqlock_writers "sp_step w" sp_stamp sp_payload sp_message "sp_inv (Suc k) w" "Suc k"
  for w k
proof
  fix y y' :: "'a spsys" and i q :: nat
  assume inv: "sp_inv (Suc k) w y"
  show "sp_inv (Suc k) w y'" if "sp_step w y y'" using sp_inv_step [OF inv that] .
  show "unat (sp_stamp y i) \<le> unat (sp_stamp y' i)" if "sp_step w y y'" "i < Suc k"
    using sp_step_slot [OF inv that] by simp
  show "sp_payload y' i = sp_payload y i"
    if "sp_step w y y'" "i < Suc k" "even (unat (sp_stamp y i))" "sp_stamp y' i = sp_stamp y i"
    using sp_step_slot [OF inv that(1,2)] that(3,4) by simp
  have slot: "sp_slot (Suc k) y (q mod Suc k)" using sp_invD(2) [OF inv] by simp
  show "sp_payload y (q mod Suc k) = sp_message y q" if "unat (sp_stamp y (q mod Suc k)) = 2 * q + 2"
  proof -
    have "odd (2 * p + 1)" "even (2 * q + 2)" for p :: nat by simp_all
    then have "2 * q + 2 \<noteq> 2 * p + 1" for p :: nat by metis
    then show ?thesis using slot that unfolding sp_slot_def sp_message_def by auto
  qed
  show "sp_message y' q = sp_message y q"
    if "sp_step w y y'" "2 * q + 2 \<le> unat (sp_stamp y (q mod Suc k))"
  proof -
    have "q < length (sq_log y)" using sp_slot_le [OF slot] that(2) by simp
    moreover have "\<exists>vs. sq_log y' = sq_log y @ vs"
      using that(1) by (auto simp: Publisher_publish_step_def Let_def split: ppc.splits elim!: sp_step.cases)
    ultimately show ?thesis by (auto simp: sp_message_def nth_append)
  qed
qed simp

section \<open>A whole publish\<close>

fun sp_run :: "nat \<Rightarrow> 'c list \<Rightarrow> 'c spsys \<Rightarrow> 'c spsys" where
  "sp_run 0 v y = y"
| "sp_run (Suc n) v y = sp_run n v (Publisher_publish_step v y)"

lemma sp_run_add: "sp_run (m + n) v y = sp_run n v (sp_run m v y)"
  by (induction m arbitrary: y) simp_all

lemma sp_run_Suc: "sp_run (Suc n) v y = Publisher_publish_step v (sp_run n v y)"
  using sp_run_add [of n 1 v y] by simp

lemma publish_step_log: "length (sq_log (Publisher_publish_step v y)) \<le> Suc (length (sq_log y))"
  by (auto simp: Publisher_publish_step_def Let_def split: ppc.splits)

lemma sp_run_log: "length (sq_log (sp_run n v y)) \<le> length (sq_log y) + n"
proof (induction n)
  case (Suc n)
  then show ?case using publish_step_log [of v "sp_run n v y"] by (simp only: sp_run_Suc)
qed simp

lemma sp_run_reaches:
  assumes "length v = w" "length (sq_log y) + n < 2 ^ 63 - 2"
  shows "sp_reaches w y (sp_run n v y)"
  using assms(2)
proof (induction n)
  case (Suc n)
  then have "length (sq_log (sp_run n v y)) < 2 ^ 63 - 2" using sp_run_log [of n v y] by simp
  then have "sp_step w (sp_run n v y) (Publisher_publish_step v (sp_run n v y))" using assms(1) by (simp add: sp_stepI)
  moreover have "sp_reaches w y (sp_run n v y)" using Suc by simp
  ultimately show ?case unfolding sp_run_Suc by (rule sp_next [rotated])
qed (simp add: sp_start)

lemma sp_run_pieces:
  assumes pc: "sq_pc y = Storing u 0" and j: "j \<le> length u"
    and i: "i = unat (RingIndex_slot (pb_index (sq_pub y)) (pb_seq (sq_pub y)))" "i < length (sr_slots (sq_ring y))"
    and len: "length (slot_value (sr_slots (sq_ring y) ! i)) = length u"
  shows "sp_run j v y =
    y\<lparr>sq_ring := (sq_ring y)\<lparr>sr_slots := (sr_slots (sq_ring y))
        [i := (sr_slots (sq_ring y) ! i)\<lparr>slot_value := take j u @ drop j (slot_value (sr_slots (sq_ring y) ! i))\<rparr>]\<rparr>,
      sq_pc := Storing u j\<rparr>"
  using j
proof (induction j)
  case 0
  show ?case using pc by simp
next
  case (Suc j)
  have "(take j u @ drop j (slot_value (sr_slots (sq_ring y) ! i)))[j := u ! j] =
      take (Suc j) u @ drop (Suc j) (slot_value (sr_slots (sq_ring y) ! i))"
    using Suc.prems len
    by (simp add: list_update_append take_Suc_conv_app_nth Cons_nth_drop_Suc [symmetric])
  then have "Publisher_publish_step v (sp_run j v y) =
      y\<lparr>sq_ring := (sq_ring y)\<lparr>sr_slots := (sr_slots (sq_ring y))
          [i := (sr_slots (sq_ring y) ! i)\<lparr>slot_value := take (Suc j) u @ drop (Suc j) (slot_value (sr_slots (sq_ring y) ! i))\<rparr>]\<rparr>,
        sq_pc := Storing u (Suc j)\<rparr>"
    using Suc i(2) by (simp add: Publisher_publish_step_def Let_def i(1) [symmetric])
  then show ?case by (simp only: sp_run_Suc)
qed

lemma sp_run_publish:
  assumes inv: "sp_inv k w y" and pc: "sq_pc y = Ready" and len: "length v = w"
  shows "sp_run (w + 3) v y =
    (let (p, r) = Publisher_publish_unchecked (sq_pub y) (sq_ring y) v
     in \<lparr>sq_ring = r, sq_pub = p, sq_pc = Ready, sq_log = sq_log y @ [v]\<rparr>)"
proof -
  note base = sp_invD(1) [OF inv]
  define i where "i = unat (RingIndex_slot (pb_index (sq_pub y)) (pb_seq (sq_pub y)))"
  let ?y1 = "Publisher_publish_step v y"
  have i: "i < length (sr_slots (sq_ring y))" using sp_base_slots(2,3) [OF base] i_def by simp
  then have l: "length (slot_value (sr_slots (sq_ring y) ! i)) = w" using base by (simp add: sp_base_def sp_payload_def)
  have y1: "?y1 = y\<lparr>sq_ring := (sq_ring y)\<lparr>sr_slots := (sr_slots (sq_ring y))
        [i := (sr_slots (sq_ring y) ! i)\<lparr>slot_stamp := pb_seq (sq_pub y) * 2 + 1\<rparr>]\<rparr>,
      sq_pc := Storing v 0, sq_log := sq_log y @ [v]\<rparr>"
    using pc by (simp add: Publisher_publish_step_def Let_def i_def)
  have "sp_run w v ?y1 = ?y1\<lparr>sq_ring := (sq_ring ?y1)\<lparr>sr_slots := (sr_slots (sq_ring ?y1))
        [i := (sr_slots (sq_ring ?y1) ! i)\<lparr>slot_value := v\<rparr>]\<rparr>, sq_pc := Storing v w\<rparr>"
    using sp_run_pieces [of ?y1 v w i v] y1 i l len by (simp add: i_def)
  then have y2: "sp_run w v ?y1 = y\<lparr>sq_ring := (sq_ring y)\<lparr>sr_slots := (sr_slots (sq_ring y))
        [i := (sr_slots (sq_ring y) ! i)\<lparr>slot_stamp := pb_seq (sq_pub y) * 2 + 1, slot_value := v\<rparr>]\<rparr>,
      sq_pc := Storing v w, sq_log := sq_log y @ [v]\<rparr>"
    using y1 i by simp
  have "w + 3 = Suc (w + 2)" by simp
  then have "sp_run (w + 3) v y = sp_run 2 v (sp_run w v ?y1)" by (simp only: sp_run.simps sp_run_add)
  also have "\<dots> = Publisher_publish_step v (Publisher_publish_step v (sp_run w v ?y1))"
    by (simp add: numeral_2_eq_2)
  also have "Publisher_publish_step v (sp_run w v ?y1) = y\<lparr>sq_ring := (sq_ring y)\<lparr>sr_slots := (sr_slots (sq_ring y))
        [i := Slot_write (sr_slots (sq_ring y) ! i) (pb_seq (sq_pub y)) v]\<rparr>,
      sq_pc := StoreCursor, sq_log := sq_log y @ [v]\<rparr>"
    unfolding y2 using i len by (simp add: Publisher_publish_step_def Slot_write_def Let_def i_def [symmetric])
  also have "Publisher_publish_step v \<dots> =
    (let (p, r) = Publisher_publish_unchecked (sq_pub y) (sq_ring y) v
     in \<lparr>sq_ring = r, sq_pub = p, sq_pc = Ready, sq_log = sq_log y @ [v]\<rparr>)"
    by (simp add: Publisher_publish_step_def Publisher_publish_unchecked_def Let_def i_def [symmetric])
  finally show ?thesis .
qed

section \<open>Properties\<close>

text \<open>
  \<^bold>\<open>A publish is its accesses.\<close>  From any state between two publishes, the accesses of
  \<^verbatim>\<open>publish_unchecked\<close> and \<^verbatim>\<open>Slot::write\<close> (the writing stamp, the payload piece by piece, the done
  stamp, the cursor) run one after the other give exactly the ring and the publisher of the
  sequential \<^verbatim>\<open>publish_unchecked\<close>, and the message is appended to the log.
\<close>

theorem publish_accesses_refine:
  assumes "channel uninit c = Inr (p, r)" "length uninit = w" "sp_reaches w (sp_fresh p r) y"
    and "sq_pc y = Ready" "length v = w"
  shows "sp_run (w + 3) v y =
    (let (p', r') = Publisher_publish_unchecked (sq_pub y) (sq_ring y) v
     in \<lparr>sq_ring = r', sq_pub = p', sq_pc = Ready, sq_log = sq_log y @ [v]\<rparr>)"
proof -
  have "sp_inv (unat c) w y" using assms(3) sp_inv_fresh [OF assms(1,2)]
    by (induction rule: sp_reaches.induct) (auto intro: sp_inv_step)
  then show ?thesis using sp_run_publish assms(4,5) by blast
qed

definition demo_sp :: "nat spsys" where
  "demo_sp = (case channel [0, 0] 2 of Inr (p, r) \<Rightarrow> sp_fresh p r | Inl e \<Rightarrow> undefined)"

lemma demo_sp_fresh: "\<exists>p r. channel [0, 0] 2 = Inr (p, r) \<and> demo_sp = sp_fresh p r \<and> sq_log demo_sp = []"
proof -
  have "case channel [0 :: nat, 0] 2 of Inl e \<Rightarrow> False | Inr r \<Rightarrow> True" by code_simp
  then show ?thesis unfolding demo_sp_def
    by (cases "channel [0 :: nat, 0] 2") (auto simp: sp_fresh_def)
qed

theorem publish_accesses_refine_witness:
  "sr_slots (sq_ring (sp_run 5 [7, 8] demo_sp)) ! 0 = \<lparr>slot_stamp = 2, slot_value = [7, 8]\<rparr> \<and>
   sp_run 5 [7, 8] demo_sp =
     (let (p', r') = Publisher_publish_unchecked (sq_pub demo_sp) (sq_ring demo_sp) [7, 8]
      in \<lparr>sq_ring = r', sq_pub = p', sq_pc = Ready, sq_log = sq_log demo_sp @ [[7, 8]]\<rparr>)"
proof -
  obtain p r where c: "channel [0 :: nat, 0] 2 = Inr (p, r)" "demo_sp = sp_fresh p r" using demo_sp_fresh by blast
  have "sq_pc demo_sp = Ready" unfolding c(2) by (simp add: sp_fresh_def)
  then have "sp_run (2 + 3) [7, 8] demo_sp =
     (let (p', r') = Publisher_publish_unchecked (sq_pub demo_sp) (sq_ring demo_sp) [7, 8]
      in \<lparr>sq_ring = r', sq_pub = p', sq_pc = Ready, sq_log = sq_log demo_sp @ [[7, 8]]\<rparr>)"
    using publish_accesses_refine [OF c(1), of 2 demo_sp "[7, 8]"] c(2) by (simp add: sp_start)
  moreover have "sr_slots (sq_ring (sp_run 5 [7, 8] demo_sp)) ! 0 = \<lparr>slot_stamp = 2, slot_value = [7, 8]\<rparr>" by code_simp
  ultimately show ?thesis by simp
qed

text \<open>
  \<^bold>\<open>No torn reads.\<close>  While the producer keeps publishing, a reader that accepts the payload of
  sequence number \<open>seq\<close> (both of its stamp loads agree) has read exactly the message that was published
  under \<open>seq\<close>, whatever accesses of the producer happened between its own loads.
\<close>

theorem spmc_no_torn_read:
  assumes "channel uninit c = Inr (p, r)" "length uninit = w" "sp_reaches w (sp_fresh p r) y"
    and "observed (sp_step w) sp_stamp sp_payload (unat c) y (LoadStamp seq) y' (ReadDone seq (Inr (Some buf)))"
    and "unat seq < 2 ^ 63 - 1"
  shows "unat seq < length (sq_log y') \<and> buf = sq_log y' ! unat seq"
proof -
  have inv: "sp_inv (unat c) w y" using assms(3) sp_inv_fresh [OF assms(1,2)]
    by (induction rule: sp_reaches.induct) (auto intro: sp_inv_step)
  then obtain k where k: "unat c = Suc k" using sp_base_slots(1) [OF sp_invD(1) [OF inv]] by (cases "unat c") auto
  note obs = assms(4) [unfolded k] and inv' = inv [unfolded k]
  have "sp_inv (Suc k) w y'" using sp.observed_ok [OF obs inv'] assms(5) by (simp add: sp.reader_ok_def)
  then have "sp_slot (Suc k) y' (unat seq mod Suc k)" by (rule sp_invD(2)) simp
  then have "unat seq < length (sq_log y')"
    using sp.no_torn_read(2) [OF obs inv' assms(5)] sp_slot_le by fastforce
  then show ?thesis using sp.no_torn_read(1) [OF obs inv' assms(5)] by (simp add: sp_message_def)
qed

lemma observed_publisher:
  assumes "sp_reaches w y y'" "observed (sp_step w) sp_stamp sp_payload k y0 rd0 y rd"
  shows "observed (sp_step w) sp_stamp sp_payload k y0 rd0 y' rd"
  using assms by (induction rule: sp_reaches.induct) (auto intro: observed.writer)

definition demo_one :: "nat spsys" where
  "demo_one = sp_run 5 [7, 8] demo_sp"

definition demo_two :: "nat spsys" where
  "demo_two = sp_run 2 [5, 6] demo_one"

theorem spmc_no_torn_read_witness:
  "read_run sp_stamp sp_payload 2 2 demo_two (read_run sp_stamp sp_payload 2 2 demo_one (LoadStamp 0)) =
     ReadDone 0 (Inr (Some [7, 8])) \<and>
   sq_pc demo_two = Storing [5, 6] 1 \<and> [7, 8] = sq_log demo_two ! 0"
proof -
  obtain p r where c: "channel [0 :: nat, 0] 2 = Inr (p, r)" "demo_sp = sp_fresh p r" "sq_log demo_sp = []"
    using demo_sp_fresh by blast
  have run: "sq_pc demo_two = Storing [5, 6] 1" "length (sq_log demo_one) = 1" by code_simp+
  have reach: "sp_reaches 2 (sp_fresh p r) demo_one" "sp_reaches 2 demo_one demo_two"
    unfolding demo_two_def using c run(2) by (auto simp: demo_one_def intro!: sp_run_reaches)
  have rd: "read_run sp_stamp sp_payload 2 2 demo_two (read_run sp_stamp sp_payload 2 2 demo_one (LoadStamp 0)) =
      ReadDone 0 (Inr (Some [7, 8]))"
    by code_simp
  have "observed (sp_step 2) sp_stamp sp_payload 2 demo_one (LoadStamp 0) demo_two (ReadDone 0 (Inr (Some [7, 8])))"
    using observed_reads [OF observed_publisher [OF reach(2) observed_reads [OF observed.begin_read]], where n = 2]
    by (simp only: rd [symmetric])
  then have "[7, 8] = sq_log demo_two ! 0"
    using spmc_no_torn_read [OF c(1) _ reach(1), of 0 demo_two "[7, 8]"] by simp
  with rd run show ?thesis by blast
qed

end
