(* ===== verification/Mp_Publisher.thy ===== *)
theory Mp_Publisher
  imports Seqlock
begin

text \<open>
  The multi-producer write side: \<^verbatim>\<open>src/src/channel/mp_publisher.rs\<close> and \<^verbatim>\<open>channel_mpmc\<close>.

  Any number of threads are inside \<^verbatim>\<open>publish\<close> at once.  A thread's program counter says which
  shared-memory access it makes next, with the values it holds in local variables; one step of a
  thread is one access.  The payload is a list of pieces, stored one at a time.  The ghost list
  \<open>mq_claims\<close> records the value of every claimed sequence number.  Every access sees the newest values:
  the accesses of \<^verbatim>\<open>publish\<close> with the orderings of the source, under which a failed compare-and-exchange and a
  load may see older ones, are those of theory \<open>Weak_Cursor\<close>.
\<close>

section \<open>Program counters\<close>

datatype 'c pc =
    Idle
  | WaitSlot u64 "'c list"
  | BeginWrite u64 "'c list"
  | StorePayload u64 "'c list" nat
  | FirstCas u64
  | WaitPred u64
  | SecondCas u64
  | CheckCursor u64
  | CatchUp u64
  | CatchUpStamp u64
  | CatchUpCas u64

definition stamp_load_at :: "'c pring \<Rightarrow> u64 \<Rightarrow> u64" where
  "stamp_load_at r seq = Slot_stamp_load (sr_slots r ! slot_at r seq)"

text \<open>\<^verbatim>\<open>AtomicU64::compare_exchange\<close> on the cursor.\<close>

definition cursor_cas :: "'c pring \<Rightarrow> u64 \<Rightarrow> u64 \<Rightarrow> bool \<times> 'c pring" where
  "cursor_cas r expected new =
     (if sr_cursor r = expected then (True, r\<lparr>sr_cursor := new\<rparr>) else (False, r))"

section \<open>One access of a publishing thread\<close>

definition MpPublisher_claim :: "'c pring \<Rightarrow> 'c list \<Rightarrow> 'c pc \<times> 'c pring" where
  "MpPublisher_claim r v =
     (case sr_next_seq r of
        None \<Rightarrow> (Idle, r)
      | Some seq \<Rightarrow> (WaitSlot seq v, r\<lparr>sr_next_seq := Some (seq + 1)\<rparr>))"

definition MpPublisher_wait_for_slot :: "'c pring \<Rightarrow> u64 \<Rightarrow> 'c list \<Rightarrow> 'c pc" where
  "MpPublisher_wait_for_slot r seq v =
     (let cp = ri_capacity (sr_index r)
      in if seq < cp then BeginWrite seq v
         else
           let lap_done = (seq - cp) * 2 + 2
           in if stamp_load_at r seq < lap_done then WaitSlot seq v else BeginWrite seq v)"

definition slot_write_begin :: "'c pring \<Rightarrow> u64 \<Rightarrow> 'c list \<Rightarrow> 'c pc \<times> 'c pring" where
  "slot_write_begin r seq v =
     (let writing = seq * 2 + 1; sl = sr_slots r ! slot_at r seq
      in (StorePayload seq v 0, set_slot r seq (sl\<lparr>slot_stamp := writing\<rparr>)))"

definition slot_write_piece :: "'c pring \<Rightarrow> u64 \<Rightarrow> 'c list \<Rightarrow> nat \<Rightarrow> 'c pc \<times> 'c pring" where
  "slot_write_piece r seq v j =
     (let done = seq * 2 + 2; sl = sr_slots r ! slot_at r seq
      in if j < length v
         then (StorePayload seq v (Suc j), set_slot r seq (sl\<lparr>slot_value := (slot_value sl)[j := v ! j]\<rparr>))
         else (FirstCas seq, set_slot r seq (sl\<lparr>slot_stamp := done\<rparr>)))"

definition expected_cursor :: "u64 \<Rightarrow> u64" where
  "expected_cursor seq = (if seq = 0 then u64_max else seq - 1)"

definition advance_first_cas :: "'c pring \<Rightarrow> u64 \<Rightarrow> 'c pc \<times> 'c pring" where
  "advance_first_cas r seq =
     (case cursor_cas r (expected_cursor seq) seq of
        (True, r') \<Rightarrow> (CatchUp seq, r')
      | (False, r') \<Rightarrow> (if seq > 0 then WaitPred seq else SecondCas seq, r'))"

definition advance_wait_pred :: "'c pring \<Rightarrow> u64 \<Rightarrow> 'c pc" where
  "advance_wait_pred r seq =
     (let pred_done = (seq - 1) * 2 + 2
      in if stamp_load_at r (seq - 1) < pred_done then WaitPred seq else SecondCas seq)"

definition advance_second_cas :: "'c pring \<Rightarrow> u64 \<Rightarrow> 'c pc \<times> 'c pring" where
  "advance_second_cas r seq = (CheckCursor seq, snd (cursor_cas r (expected_cursor seq) seq))"

definition advance_check :: "'c pring \<Rightarrow> u64 \<Rightarrow> 'c pc" where
  "advance_check r seq = (if sr_cursor r = seq then CatchUp seq else Idle)"

definition catch_up_bound :: "'c pring \<Rightarrow> u64 \<Rightarrow> 'c pc" where
  "catch_up_bound r seq =
     (let next = seq + 1
      in case sr_next_seq r of
           None \<Rightarrow> Idle
         | Some claimed \<Rightarrow> if next \<ge> claimed then Idle else CatchUpStamp seq)"

definition catch_up_stamp :: "'c pring \<Rightarrow> u64 \<Rightarrow> 'c pc" where
  "catch_up_stamp r seq =
     (let next = seq + 1; done_stamp = next * 2 + 2
      in if stamp_load_at r next < done_stamp then Idle else CatchUpCas seq)"

definition catch_up_cas :: "'c pring \<Rightarrow> u64 \<Rightarrow> 'c pc \<times> 'c pring" where
  "catch_up_cas r seq =
     (let next = seq + 1
      in case cursor_cas r seq next of
           (True, r') \<Rightarrow> (CatchUp next, r')
         | (False, r') \<Rightarrow> (Idle, r'))"

definition MpPublisher_publish_step :: "'c list \<Rightarrow> 'c pc \<Rightarrow> 'c pring \<Rightarrow> 'c pc \<times> 'c pring" where
  "MpPublisher_publish_step v p r =
     (case p of
        Idle \<Rightarrow> MpPublisher_claim r v
      | WaitSlot seq u \<Rightarrow> (MpPublisher_wait_for_slot r seq u, r)
      | BeginWrite seq u \<Rightarrow> slot_write_begin r seq u
      | StorePayload seq u j \<Rightarrow> slot_write_piece r seq u j
      | FirstCas seq \<Rightarrow> advance_first_cas r seq
      | WaitPred seq \<Rightarrow> (advance_wait_pred r seq, r)
      | SecondCas seq \<Rightarrow> advance_second_cas r seq
      | CheckCursor seq \<Rightarrow> (advance_check r seq, r)
      | CatchUp seq \<Rightarrow> (catch_up_bound r seq, r)
      | CatchUpStamp seq \<Rightarrow> (catch_up_stamp r seq, r)
      | CatchUpCas seq \<Rightarrow> catch_up_cas r seq)"

definition MpPublisher_published :: "'a shared_ring \<Rightarrow> u64" where
  "MpPublisher_published r = (case sr_next_seq r of Some n \<Rightarrow> n | None \<Rightarrow> 0)"

definition MpPublisher_capacity :: "'a shared_ring \<Rightarrow> u64" where
  "MpPublisher_capacity r = SharedRing_capacity r"

definition channel_mpmc :: "'a \<Rightarrow> usize \<Rightarrow> 'a shared_ring may_panic" where
  "channel_mpmc uninit capacity = SharedRing_new_mpmc uninit capacity"

section \<open>The system of all threads\<close>

record 'c mpsys =
  mq_ring :: "'c pring"
  mq_pc :: "nat \<Rightarrow> 'c pc"
  mq_claims :: "'c list list"

definition mp_do :: "nat \<Rightarrow> 'c list \<Rightarrow> 'c mpsys \<Rightarrow> 'c mpsys" where
  "mp_do t v y =
     (let (p, r) = MpPublisher_publish_step v (mq_pc y t) (mq_ring y)
      in \<lparr>mq_ring = r, mq_pc = (mq_pc y)(t := p),
          mq_claims = (if mq_pc y t = Idle then mq_claims y @ [v] else mq_claims y)\<rparr>)"

text \<open>Payloads of one channel all have the same number \<open>w\<close> of pieces, and fewer than \<open>2^63 - 1\<close> sequence
  numbers are claimed, so that no stamp wraps.\<close>

inductive mp_step :: "nat \<Rightarrow> 'c mpsys \<Rightarrow> 'c mpsys \<Rightarrow> bool" for w where
  mp_stepI: "length v = w \<Longrightarrow> mq_pc y t = Idle \<longrightarrow> length (mq_claims y) < 2 ^ 63 - 2 \<Longrightarrow>
     mp_step w y (mp_do t v y)"

definition mp_fresh :: "'c pring \<Rightarrow> 'c mpsys" where
  "mp_fresh r = \<lparr>mq_ring = r, mq_pc = (\<lambda>_. Idle), mq_claims = []\<rparr>"

inductive mp_reaches :: "nat \<Rightarrow> 'c mpsys \<Rightarrow> 'c mpsys \<Rightarrow> bool" for w y0 where
  mp_start: "mp_reaches w y0 y0"
| mp_next: "mp_reaches w y0 y \<Longrightarrow> mp_step w y y' \<Longrightarrow> mp_reaches w y0 y'"

section \<open>The invariant\<close>

abbreviation stp :: "'c mpsys \<Rightarrow> nat \<Rightarrow> nat" where
  "stp y i \<equiv> unat (slot_stamp (sr_slots (mq_ring y) ! i))"

abbreviation pld :: "'c mpsys \<Rightarrow> nat \<Rightarrow> 'c list" where
  "pld y i \<equiv> slot_value (sr_slots (mq_ring y) ! i)"

definition lap_done :: "nat \<Rightarrow> nat \<Rightarrow> nat" where
  "lap_done k q = (if q < k then 0 else 2 * (q - k) + 2)"

definition committed :: "nat \<Rightarrow> 'c mpsys \<Rightarrow> nat \<Rightarrow> bool" where
  "committed k y q \<longleftrightarrow> 2 * q + 2 \<le> stp y (q mod k)"

text \<open>The sequence number a thread has claimed and not yet committed.\<close>

fun pending_seq :: "'c pc \<Rightarrow> nat option" where
  "pending_seq (WaitSlot seq v) = Some (unat seq)"
| "pending_seq (BeginWrite seq v) = Some (unat seq)"
| "pending_seq (StorePayload seq v j) = Some (unat seq)"
| "pending_seq _ = None"

text \<open>The number of messages below the cursor, and the threads that are bound to move it from there.\<close>

definition visible :: "'c mpsys \<Rightarrow> nat" where
  "visible y = (if sr_cursor (mq_ring y) = u64_max then 0 else unat (sr_cursor (mq_ring y)) + 1)"

fun mover :: "'c pc \<Rightarrow> nat \<Rightarrow> bool" where
  "mover (FirstCas seq) m \<longleftrightarrow> unat seq = m"
| "mover (WaitPred seq) m \<longleftrightarrow> unat seq = m"
| "mover (SecondCas seq) m \<longleftrightarrow> unat seq = m"
| "mover (CheckCursor seq) m \<longleftrightarrow> Suc (unat seq) = m"
| "mover (CatchUp seq) m \<longleftrightarrow> Suc (unat seq) = m"
| "mover (CatchUpStamp seq) m \<longleftrightarrow> Suc (unat seq) = m"
| "mover (CatchUpCas seq) m \<longleftrightarrow> Suc (unat seq) = m"
| "mover _ m \<longleftrightarrow> False"

fun pc_ok :: "nat \<Rightarrow> nat \<Rightarrow> 'c mpsys \<Rightarrow> 'c pc \<Rightarrow> bool" where
  "pc_ok k w y Idle \<longleftrightarrow> True"
| "pc_ok k w y (WaitSlot seq v) \<longleftrightarrow>
     (let q = unat seq in q < length (mq_claims y) \<and> v = mq_claims y ! q \<and> stp y (q mod k) \<le> lap_done k q)"
| "pc_ok k w y (BeginWrite seq v) \<longleftrightarrow>
     (let q = unat seq in q < length (mq_claims y) \<and> v = mq_claims y ! q \<and> stp y (q mod k) = lap_done k q)"
| "pc_ok k w y (StorePayload seq v j) \<longleftrightarrow>
     (let q = unat seq in q < length (mq_claims y) \<and> v = mq_claims y ! q \<and> stp y (q mod k) = 2 * q + 1 \<and>
        j \<le> w \<and> take j (pld y (q mod k)) = take j v)"
| "pc_ok k w y (FirstCas seq) \<longleftrightarrow> unat seq < length (mq_claims y) \<and> committed k y (unat seq)"
| "pc_ok k w y (WaitPred seq) \<longleftrightarrow> 0 < unat seq \<and> unat seq < length (mq_claims y) \<and> committed k y (unat seq)"
| "pc_ok k w y (SecondCas seq) \<longleftrightarrow> unat seq < length (mq_claims y) \<and> committed k y (unat seq)"
| "pc_ok k w y (CheckCursor seq) \<longleftrightarrow> unat seq < length (mq_claims y)"
| "pc_ok k w y (CatchUp seq) \<longleftrightarrow> unat seq < length (mq_claims y)"
| "pc_ok k w y (CatchUpStamp seq) \<longleftrightarrow> Suc (unat seq) < length (mq_claims y)"
| "pc_ok k w y (CatchUpCas seq) \<longleftrightarrow> Suc (unat seq) < length (mq_claims y) \<and> committed k y (Suc (unat seq))"

definition mp_base :: "nat \<Rightarrow> nat \<Rightarrow> 'c mpsys \<Rightarrow> bool" where
  "mp_base k w y \<longleftrightarrow>
     ring_index_ok (sr_index (mq_ring y)) \<and> cap (mq_ring y) = k \<and> length (sr_slots (mq_ring y)) = k \<and>
     length (mq_claims y) < 2 ^ 63 - 1 \<and>
     (\<exists>n. sr_next_seq (mq_ring y) = Some n \<and> unat n = length (mq_claims y)) \<and>
     (\<forall>v \<in> set (mq_claims y). length v = w) \<and> (\<forall>i < k. length (pld y i) = w)"

definition slots_ok :: "nat \<Rightarrow> 'c mpsys \<Rightarrow> bool" where
  "slots_ok k y \<longleftrightarrow> (\<forall>i < k. stp y i = 0 \<or>
     (\<exists>q < length (mq_claims y). q mod k = i \<and>
        (stp y i = 2 * q + 1 \<or> stp y i = 2 * q + 2 \<and> pld y i = mq_claims y ! q)))"

definition claims_ok :: "nat \<Rightarrow> 'c mpsys \<Rightarrow> bool" where
  "claims_ok k y \<longleftrightarrow>
     (\<forall>q < length (mq_claims y). committed k y q \<or> (\<exists>t. pending_seq (mq_pc y t) = Some q)) \<and>
     (\<forall>t t' q. pending_seq (mq_pc y t) = Some q \<longrightarrow> pending_seq (mq_pc y t') = Some q \<longrightarrow> t = t')"

definition cursor_ok :: "nat \<Rightarrow> 'c mpsys \<Rightarrow> bool" where
  "cursor_ok k y \<longleftrightarrow>
     visible y \<le> length (mq_claims y) \<and> (\<forall>q < visible y. committed k y q) \<and>
     (visible y < length (mq_claims y) \<longrightarrow> committed k y (visible y) \<longrightarrow> (\<exists>t. mover (mq_pc y t) (visible y)))"

definition mp_inv :: "nat \<Rightarrow> nat \<Rightarrow> 'c mpsys \<Rightarrow> bool" where
  "mp_inv k w y \<longleftrightarrow>
     mp_base k w y \<and> (\<forall>t. pc_ok k w y (mq_pc y t)) \<and> slots_ok k y \<and> claims_ok k y \<and> cursor_ok k y"

lemma mp_invD:
  assumes "mp_inv k w y"
  shows "mp_base k w y" "pc_ok k w y (mq_pc y t)" "slots_ok k y" "claims_ok k y" "cursor_ok k y"
  using assms by (auto simp: mp_inv_def)

lemma mp_base_cap: "mp_base k w y \<Longrightarrow> 2 \<le> k"
  using ring_index_ok_capacity by (auto simp: mp_base_def)

lemma slot_at_mod: "mp_base k w y \<Longrightarrow> slot_at (mq_ring y) seq = unat seq mod k"
  by (auto simp: mp_base_def slot_at_def ring_slot_mod)

lemma stamp_load_at_mod:
  "mp_base k w y \<Longrightarrow> unat (stamp_load_at (mq_ring y) seq) = stp y (unat seq mod k)"
  by (simp add: stamp_load_at_def Slot_stamp_load_def slot_at_mod)

lemma lap_done_less: "0 < k \<Longrightarrow> lap_done k q < 2 * q + 1"
proof (cases "q < k")
  case False
  assume "0 < k"
  then have "2 * (q - k) + 2 < 2 * q + 1" using False by linarith
  then show ?thesis using False by (simp add: lap_done_def)
qed (simp add: lap_done_def)

lemma lap_done_even: "even (lap_done k q)"
  by (simp add: lap_done_def)

lemma lap_done_inj:
  assumes "lap_done k p = lap_done k q" "p mod k = q mod k"
  shows "p = q"
  using assms by (auto simp: lap_done_def split: if_splits)

text \<open>Two sequence numbers of the same slot are a lap apart.\<close>

lemma lap_later:
  assumes "p mod k = q mod k" "p < q"
  shows "2 * p + 2 \<le> lap_done k q"
  using same_residue_gap [OF assms] assms by (auto simp: lap_done_def)

lemma pending_ok:
  assumes "pc_ok k w y p" "pending_seq p = Some q" "0 < k"
  shows "q < length (mq_claims y)" "stp y (q mod k) \<le> 2 * q + 1"
proof -
  have "lap_done k q \<le> 2 * q + 1" using lap_done_less [OF assms(3), of q] by simp
  then have "q < length (mq_claims y) \<and> stp y (q mod k) \<le> 2 * q + 1"
    using assms(1,2) by (cases p) (auto simp: Let_def)
  then show "q < length (mq_claims y)" "stp y (q mod k) \<le> 2 * q + 1" by auto
qed

lemma slots_cases:
  assumes "slots_ok k y" "i < k"
  obtains (Fresh) "stp y i = 0"
  | (Writing) q where "q < length (mq_claims y)" "q mod k = i" "stp y i = 2 * q + 1"
  | (Done) q where "q < length (mq_claims y)" "q mod k = i" "stp y i = 2 * q + 2" "pld y i = mq_claims y ! q"
proof -
  have "stp y i = 0 \<or> (\<exists>q < length (mq_claims y). q mod k = i \<and>
        (stp y i = 2 * q + 1 \<or> stp y i = 2 * q + 2 \<and> pld y i = mq_claims y ! q))"
    using assms unfolding slots_ok_def by (elim allE [of _ i]) simp
  then show thesis using that by (elim disjE exE conjE) simp_all
qed

section \<open>Steps that only move a program counter\<close>

lemma pc_ok_pc [simp]: "pc_ok k w (y\<lparr>mq_pc := f\<rparr>) p = pc_ok k w y p"
  by (cases p) (auto simp: committed_def Let_def)

lemma mp_inv_pc:
  assumes inv: "mp_inv k w y" and ok: "pc_ok k w y p" and pend: "pending_seq p = pending_seq (mq_pc y t)"
    and mv: "visible y < length (mq_claims y) \<Longrightarrow> committed k y (visible y) \<Longrightarrow>
        mover (mq_pc y t) (visible y) \<Longrightarrow> mover p (visible y)"
  shows "mp_inv k w (y\<lparr>mq_pc := (mq_pc y)(t := p)\<rparr>)"
proof -
  let ?y = "y\<lparr>mq_pc := (mq_pc y)(t := p)\<rparr>"
  have pend': "pending_seq (mq_pc ?y t') = pending_seq (mq_pc y t')" for t' using pend by simp
  have "claims_ok k ?y" using mp_invD(4) [OF inv] pend unfolding claims_ok_def pend' by (simp add: committed_def)
  moreover have "cursor_ok k ?y"
  proof -
    have vis: "visible ?y = visible y" "committed k ?y q = committed k y q" for q
      by (simp_all add: visible_def committed_def)
    have "\<exists>t'. mover (mq_pc ?y t') (visible y)"
      if c: "visible y < length (mq_claims y)" "committed k y (visible y)"
    proof -
      obtain t' where "mover (mq_pc y t') (visible y)" using c mp_invD(5) [OF inv] by (auto simp: cursor_ok_def)
      then show ?thesis using mv [OF c] by (cases "t' = t") auto
    qed
    then show ?thesis using mp_invD(5) [OF inv] unfolding cursor_ok_def vis by simp
  qed
  moreover have "mp_base k w ?y" "slots_ok k ?y"
    using mp_invD(1,3) [OF inv] by (auto simp: mp_base_def slots_ok_def)
  moreover have "pc_ok k w ?y (mq_pc ?y t')" for t' using ok mp_invD(2) [OF inv] by simp
  ultimately show ?thesis by (simp add: mp_inv_def)
qed

section \<open>Claiming a sequence number\<close>

lemma pc_ok_claim:
  assumes "pc_ok k w y p" "mq_claims y' = mq_claims y @ [v]" "sr_slots (mq_ring y') = sr_slots (mq_ring y)"
  shows "pc_ok k w y' p"
  using assms by (cases p) (auto simp: committed_def Let_def nth_append)

lemma mp_inv_claim:
  assumes inv: "mp_inv k w y" and idle: "mq_pc y t = Idle" and v: "length v = w"
    and room: "length (mq_claims y) < 2 ^ 63 - 2"
  shows "mp_inv k w (mp_do t v y)"
proof -
  let ?y = "mp_do t v y" and ?n = "length (mq_claims y)"
  note base = mp_invD(1) [OF inv] and slots = mp_invD(3) [OF inv]
  have k: "2 \<le> k" using mp_base_cap [OF base] .
  obtain n where n: "sr_next_seq (mq_ring y) = Some n" "unat n = ?n" using base by (auto simp: mp_base_def)
  have y': "?y = \<lparr>mq_ring = (mq_ring y)\<lparr>sr_next_seq := Some (n + 1)\<rparr>,
      mq_pc = (mq_pc y)(t := WaitSlot n v), mq_claims = mq_claims y @ [v]\<rparr>"
    using idle n by (simp add: mp_do_def MpPublisher_publish_step_def MpPublisher_claim_def)
  have small: "stp y (?n mod k) \<le> lap_done k ?n"
  proof -
    have "?n mod k < k" using k by simp
    with slots show ?thesis by (cases rule: slots_cases) (use lap_later [of _ k ?n] in fastforce)+
  qed
  have nc: "\<not> committed k y ?n" using small lap_done_less [of k ?n] k by (simp add: committed_def)
  have n1: "unat (n + 1) = Suc ?n" using n(2) room by (simp add: unat_u64_Suc)
  have "mp_base k w ?y" using base room v n1 by (auto simp: mp_base_def y')
  moreover have "pc_ok k w ?y (mq_pc ?y t')" for t'
    using pc_ok_claim [OF mp_invD(2) [OF inv, of t'], of ?y v] small n(2) by (auto simp: y' Let_def)
  moreover have "slots_ok k ?y"
    using slots unfolding slots_ok_def by (auto simp: y' nth_append)
  moreover have "claims_ok k ?y"
  proof -
    have old: "pending_seq (mq_pc y t') \<noteq> Some ?n" for t'
      using pending_ok(1) [OF mp_invD(2) [OF inv, of t'], of ?n] k by auto
    have "committed k ?y q \<or> (\<exists>t'. pending_seq (mq_pc ?y t') = Some q)" if "q < Suc ?n" for q
    proof (cases "q = ?n")
      case True
      then show ?thesis using n(2) by (auto simp: y')
    next
      case False
      then have "committed k y q \<or> (\<exists>t'. pending_seq (mq_pc y t') = Some q)"
        using mp_invD(4) [OF inv] that by (simp add: claims_ok_def)
      then show ?thesis using idle by (auto simp: y' committed_def) (metis option.distinct(1) pending_seq.simps(4))
    qed
    then show ?thesis using mp_invD(4) [OF inv] idle old n(2) by (auto simp: claims_ok_def y' split: if_splits)
  qed
  moreover have "cursor_ok k ?y"
  proof -
    have vis: "visible ?y = visible y" "committed k ?y q = committed k y q" for q
      by (simp_all add: y' visible_def committed_def)
    have "\<exists>t'. mover (mq_pc ?y t') (visible y)" if c: "visible y < Suc ?n" "committed k y (visible y)"
    proof -
      have "visible y \<noteq> ?n" using c(2) nc by auto
      then obtain t' where "mover (mq_pc y t') (visible y)"
        using c mp_invD(5) [OF inv] by (auto simp: cursor_ok_def)
      moreover have "t' \<noteq> t" using calculation idle by auto
      ultimately show ?thesis by (auto simp: y')
    qed
    then show ?thesis using mp_invD(5) [OF inv] unfolding cursor_ok_def vis by (simp add: y')
  qed
  ultimately show ?thesis by (simp add: mp_inv_def)
qed

section \<open>Writing a slot\<close>

text \<open>What a step of the writer of \<open>q\<close> on its slot changes.\<close>

lemma set_slot_view:
  assumes base: "mp_base k w y" and y': "mq_ring y' = set_slot (mq_ring y) seq sl"
  shows "stp y' i = (if i = unat seq mod k then unat (slot_stamp sl) else stp y i)"
    "pld y' i = (if i = unat seq mod k then slot_value sl else pld y i)"
    "sr_cursor (mq_ring y') = sr_cursor (mq_ring y)" "sr_next_seq (mq_ring y') = sr_next_seq (mq_ring y)"
    "sr_index (mq_ring y') = sr_index (mq_ring y)" "length (sr_slots (mq_ring y')) = length (sr_slots (mq_ring y))"
proof -
  have "unat seq mod k < length (sr_slots (mq_ring y))"
    using base mp_base_cap [OF base] by (simp add: mp_base_def)
  then show "stp y' i = (if i = unat seq mod k then unat (slot_stamp sl) else stp y i)"
    "pld y' i = (if i = unat seq mod k then slot_value sl else pld y i)"
    "sr_cursor (mq_ring y') = sr_cursor (mq_ring y)" "sr_next_seq (mq_ring y') = sr_next_seq (mq_ring y)"
    "sr_index (mq_ring y') = sr_index (mq_ring y)" "length (sr_slots (mq_ring y')) = length (sr_slots (mq_ring y))"
    using y' slot_at_mod [OF base] by (auto simp: set_slot_def nth_list_update)
qed

text \<open>Another thread's assertion survives, as the writer's stamps stay between the previous lap's done
  stamp and its own.\<close>

lemma pc_ok_other:
  assumes ok: "pc_ok k w y p" and claims: "mq_claims y' = mq_claims y"
    and far: "\<And>i. i \<noteq> q mod k \<Longrightarrow> stp y' i = stp y i \<and> pld y' i = pld y i"
    and old: "lap_done k q \<le> stp y (q mod k)" "stp y (q mod k) < 2 * q + 2"
    and new: "stp y (q mod k) \<le> stp y' (q mod k)" "stp y' (q mod k) \<le> 2 * q + 2"
    and other: "pending_seq p \<noteq> Some q" and k: "0 < k"
  shows "pc_ok k w y' p"
proof (cases "pending_seq p")
  case None
  have "committed k y' x" if "committed k y x" for x
    using that far [of "x mod k"] new(1) by (cases "x mod k = q mod k") (auto simp: committed_def)
  then show ?thesis using ok None claims by (cases p) auto
next
  case (Some p')
  have ne: "p' mod k \<noteq> q mod k \<or> q + k \<le> p'"
  proof (cases "p' mod k = q mod k")
    case True
    have "\<not> p' < q"
    proof
      assume "p' < q"
      then have "2 * p' + 2 \<le> stp y (q mod k)" using lap_later [OF True] old(1) by linarith
      then show False using pending_ok(2) [OF ok Some k] True by simp
    qed
    then show ?thesis using same_residue_gap [of q k p'] True other Some by (metis linorder_neqE_nat)
  qed simp
  have later: "stp y' (p' mod k) \<le> lap_done k p' \<and> stp y (p' mod k) \<noteq> lap_done k p' \<and> stp y (p' mod k) \<noteq> 2 * p' + 1"
    if "p' mod k = q mod k"
  proof -
    have "2 * q + 2 \<le> lap_done k p'" "2 * q + 2 < 2 * p' + 1"
      using ne that k lap_later [of q k p'] by auto
    then show ?thesis using that old new by simp
  qed
  show ?thesis
  proof (cases "p' mod k = q mod k")
    case True
    then show ?thesis using ok Some claims later [OF True] by (cases p) (auto simp: Let_def)
  next
    case False
    then have "stp y' (p' mod k) = stp y (p' mod k)" "pld y' (p' mod k) = pld y (p' mod k)" using far by auto
    then show ?thesis using ok Some claims by (cases p) (auto simp: Let_def)
  qed
qed

lemma mp_inv_writer:
  assumes inv: "mp_inv k w y" and pend: "pending_seq (mq_pc y t) = Some q" "q = unat seq"
    and y': "y' = y\<lparr>mq_ring := set_slot (mq_ring y) seq sl, mq_pc := (mq_pc y)(t := p)\<rparr>"
    and old: "lap_done k q \<le> stp y (q mod k)"
    and new: "stp y (q mod k) \<le> unat (slot_stamp sl)" "unat (slot_stamp sl) \<le> 2 * q + 2"
    and len: "length (slot_value sl) = w"
    and content: "unat (slot_stamp sl) = 2 * q + 1 \<or> unat (slot_stamp sl) = 2 * q + 2 \<and> slot_value sl = mq_claims y ! q"
    and p: "pc_ok k w y' p" "unat (slot_stamp sl) = 2 * q + 2 \<Longrightarrow> pending_seq p = None \<and> mover p q"
      "unat (slot_stamp sl) < 2 * q + 2 \<Longrightarrow> pending_seq p = Some q"
  shows "mp_inv k w y'"
proof -
  note base = mp_invD(1) [OF inv] and ok = mp_invD(2) [OF inv] and uniq = mp_invD(4) [OF inv]
  have k: "0 < k" using mp_base_cap [OF base] by simp
  have view: "stp y' i = (if i = q mod k then unat (slot_stamp sl) else stp y i)"
    "pld y' i = (if i = q mod k then slot_value sl else pld y i)"
    "sr_cursor (mq_ring y') = sr_cursor (mq_ring y)" "sr_next_seq (mq_ring y') = sr_next_seq (mq_ring y)"
    "sr_index (mq_ring y') = sr_index (mq_ring y)" "length (sr_slots (mq_ring y')) = length (sr_slots (mq_ring y))" for i
    using set_slot_view [OF base, of y' seq sl] y' pend(2) by simp_all
  have claims: "mq_claims y' = mq_claims y" and pcs: "mq_pc y' = (mq_pc y)(t := p)" using y' by simp_all
  have q: "q < length (mq_claims y)" "stp y (q mod k) < 2 * q + 2"
    using pending_ok [OF ok pend(1) k] by auto
  have "pc_ok k w y' (mq_pc y' t')" for t'
  proof (cases "t' = t")
    case False
    then have "pending_seq (mq_pc y t') \<noteq> Some q" using uniq pend(1) unfolding claims_ok_def by blast
    then show ?thesis using False pcs pc_ok_other [OF ok claims _ old q(2) _ _ _ k, of t'] new view by simp
  qed (use p(1) pcs in simp)
  moreover have com: "committed k y' x \<longleftrightarrow> committed k y x \<or> x = q \<and> unat (slot_stamp sl) = 2 * q + 2" for x
  proof (cases "x mod k = q mod k")
    case True
    have "x < q \<Longrightarrow> 2 * x + 2 \<le> lap_done k q" using lap_later [OF True] .
    then show ?thesis using True view(1) [of "q mod k"] old new q(2)
      by (cases x q rule: linorder_cases) (auto simp: committed_def)
  qed (auto simp: committed_def view(1))
  have vis: "visible y' = visible y" by (simp add: visible_def view)
  have "claims_ok k y'"
  proof -
    have "committed k y' x \<or> (\<exists>t'. pending_seq (mq_pc y' t') = Some x)" if x: "x < length (mq_claims y)" for x
    proof (cases "x = q")
      case True
      then show ?thesis using com [of q] p(3) new(2) pcs by (cases "unat (slot_stamp sl) = 2 * q + 2") auto
    next
      case False
      obtain t' where "committed k y x \<or> pending_seq (mq_pc y t') = Some x"
        using uniq x unfolding claims_ok_def by blast
      then show ?thesis using com [of x] pend(1) False pcs by (cases "t' = t") auto
    qed
    moreover have "t1 = t2" if "pending_seq (mq_pc y' t1) = Some x" "pending_seq (mq_pc y' t2) = Some x" for t1 t2 x
    proof -
      have "pending_seq (mq_pc y t') = Some x" if "pending_seq (mq_pc y' t') = Some x" for t'
        using that pend(1) p(2,3) new(2) pcs
        by (cases "t' = t"; cases "unat (slot_stamp sl) = 2 * q + 2") (auto split: if_splits)
      then show ?thesis using that uniq unfolding claims_ok_def by blast
    qed
    ultimately show ?thesis unfolding claims_ok_def claims by blast
  qed
  moreover have "cursor_ok k y'"
  proof -
    have "\<exists>t'. mover (mq_pc y' t') (visible y)" if c: "visible y < length (mq_claims y)" "committed k y' (visible y)"
    proof (cases "committed k y (visible y)")
      case True
      then obtain t' where t': "mover (mq_pc y t') (visible y)"
        using c mp_invD(5) [OF inv] by (auto simp: cursor_ok_def)
      moreover have "t' \<noteq> t" using t' pend(1) by (cases "mq_pc y t") auto
      ultimately show ?thesis using pcs by auto
    next
      case False
      then show ?thesis using com [of "visible y"] c(2) p(2) pcs by auto
    qed
    then show ?thesis using mp_invD(5) [OF inv] com unfolding cursor_ok_def vis claims by blast
  qed
  moreover have "slots_ok k y'"
    using mp_invD(3) [OF inv] content q(1) unfolding slots_ok_def claims by (auto simp: view)
  moreover have "mp_base k w y'" using base len view claims by (auto simp: mp_base_def)
  ultimately show ?thesis by (simp add: mp_inv_def)
qed

section \<open>Moving the cursor\<close>

lemma expected_cursor_iff:
  assumes inv: "mp_inv k w y" and q: "unat seq < length (mq_claims y)"
  shows "sr_cursor (mq_ring y) = expected_cursor seq \<longleftrightarrow> visible y = unat seq"
proof -
  have n: "length (mq_claims y) < 2 ^ 63 - 1" using mp_invD(1) [OF inv] by (simp add: mp_base_def)
  have v: "visible y \<le> length (mq_claims y)" using mp_invD(5) [OF inv] by (simp add: cursor_ok_def)
  show ?thesis
  proof (cases "seq = 0")
    case True
    then show ?thesis by (simp add: expected_cursor_def visible_def)
  next
    case False
    then have "0 < unat seq" by (simp add: unat_gt_0)
    then have "unat (seq - 1) = unat seq - 1" "seq - 1 \<noteq> u64_max"
      using q n by (auto simp: unat_u64_pred u64_eq_max_iff)
    moreover have "sr_cursor (mq_ring y) = seq - 1 \<longleftrightarrow> unat (sr_cursor (mq_ring y)) = unat (seq - 1)"
      by (rule u64_eq_iff)
    ultimately show ?thesis using False \<open>0 < unat seq\<close>
      by (auto simp: expected_cursor_def visible_def)
  qed
qed

lemma mp_inv_cursor:
  assumes inv: "mp_inv k w y" and at: "visible y = unat seq" "unat seq < length (mq_claims y)" "committed k y (unat seq)"
    and p: "pc_ok k w y p" "pending_seq p = pending_seq (mq_pc y t)" "mover p (Suc (unat seq))"
  shows "mp_inv k w (y\<lparr>mq_ring := (mq_ring y)\<lparr>sr_cursor := seq\<rparr>, mq_pc := (mq_pc y)(t := p)\<rparr>)"
proof -
  let ?y = "y\<lparr>mq_ring := (mq_ring y)\<lparr>sr_cursor := seq\<rparr>, mq_pc := (mq_pc y)(t := p)\<rparr>"
  have "unat seq \<noteq> unat u64_max" using at(2) mp_invD(1) [OF inv] by (auto simp: mp_base_def)
  then have vis: "visible ?y = Suc (unat seq)" by (auto simp: visible_def)
  have com: "committed k ?y x = committed k y x" for x by (simp add: committed_def)
  have pend: "pending_seq (mq_pc ?y t') = pending_seq (mq_pc y t')" for t' using p(2) by simp
  have "cursor_ok k ?y"
    using mp_invD(5) [OF inv] at p(3) unfolding cursor_ok_def vis com by (auto simp: less_Suc_eq)
  moreover have "claims_ok k ?y" using mp_invD(4) [OF inv] unfolding claims_ok_def pend com by simp
  moreover have "pc_ok k w ?y (mq_pc ?y t')" for t'
  proof -
    have "pc_ok k w ?y x = pc_ok k w y x" for x by (cases x) (simp_all add: Let_def committed_def)
    then show ?thesis using p(1) mp_invD(2) [OF inv] by simp
  qed
  moreover have "mp_base k w ?y" "slots_ok k ?y"
    using mp_invD(1,3) [OF inv] by (auto simp: mp_base_def slots_ok_def)
  ultimately show ?thesis by (simp add: mp_inv_def)
qed

section \<open>Every access keeps the invariant\<close>

lemma mp_do_busy:
  assumes "mq_pc y t \<noteq> Idle" "MpPublisher_publish_step v (mq_pc y t) (mq_ring y) = (p, r)"
  shows "mp_do t v y = y\<lparr>mq_ring := r, mq_pc := (mq_pc y)(t := p)\<rparr>"
  using assms by (simp add: mp_do_def)

lemma mp_do_local:
  assumes "mq_pc y t \<noteq> Idle" "MpPublisher_publish_step v (mq_pc y t) (mq_ring y) = (p, mq_ring y)"
  shows "mp_do t v y = y\<lparr>mq_pc := (mq_pc y)(t := p)\<rparr>"
  using mp_do_busy [OF assms] by simp

lemma seq_words:
  fixes seq :: u64
  assumes "mp_inv k w y" "unat seq < length (mq_claims y)"
  shows "unat (seq * 2 + 1) = 2 * unat seq + 1" "unat (seq * 2 + 2) = 2 * unat seq + 2"
    "unat (seq + 1) = Suc (unat seq)"
    "Suc (unat seq) < length (mq_claims y) \<Longrightarrow> unat ((seq + 1) * 2 + 2) = 2 * Suc (unat seq) + 2"
proof -
  have "length (mq_claims y) < 2 ^ 63 - 1" using mp_invD(1) [OF assms(1)] by (simp add: mp_base_def)
  then show "unat (seq * 2 + 1) = 2 * unat seq + 1" "unat (seq * 2 + 2) = 2 * unat seq + 2"
    "unat (seq + 1) = Suc (unat seq)"
    "Suc (unat seq) < length (mq_claims y) \<Longrightarrow> unat ((seq + 1) * 2 + 2) = 2 * Suc (unat seq) + 2"
    using assms(2) unat_u64_stamp [of seq] unat_u64_stamp_done [of seq] unat_u64_Suc [of seq]
      unat_u64_stamp_done [of "seq + 1"] by auto
qed

lemma mp_inv_wait_slot:
  assumes inv: "mp_inv k w y" and pc: "mq_pc y t = WaitSlot seq u"
  shows "mp_inv k w (mp_do t v y)"
proof -
  note base = mp_invD(1) [OF inv]
  have ok: "pc_ok k w y (WaitSlot seq u)" using mp_invD(2) [OF inv, of t] pc by simp
  let ?q = "unat seq" and ?c = "ri_capacity (sr_index (mq_ring y))"
  have c: "unat ?c = k" and n: "length (mq_claims y) < 2 ^ 63 - 1" using base by (auto simp: mp_base_def)
  have q: "?q < length (mq_claims y)" using ok by (simp add: Let_def)
  have lap: "unat ((seq - ?c) * 2 + 2) = lap_done k ?q" if "\<not> seq < ?c"
  proof -
    have d: "unat (seq - ?c) = ?q - k" using that c by (simp add: unat_u64_diff word_less_nat_alt)
    then have "unat ((seq - ?c) * 2 + 2) = 2 * unat (seq - ?c) + 2"
      using q n by (intro unat_u64_stamp_done) simp
    then show ?thesis using that c d by (simp add: lap_done_def word_less_nat_alt)
  qed
  have lt: "seq < ?c \<longleftrightarrow> ?q < k" using c by (simp add: word_less_nat_alt)
  have stamp: "unat (stamp_load_at (mq_ring y) seq) = stp y (?q mod k)" by (rule stamp_load_at_mod [OF base])
  have "pc_ok k w y (MpPublisher_wait_for_slot (mq_ring y) seq u)"
  proof (cases "seq < ?c")
    case True
    then have "lap_done k ?q = 0" using lt by (simp add: lap_done_def)
    then show ?thesis using ok True by (simp add: MpPublisher_wait_for_slot_def Let_def)
  next
    case False
    then show ?thesis using ok stamp lap [OF False]
      by (auto simp: MpPublisher_wait_for_slot_def Let_def word_less_nat_alt)
  qed
  moreover have "pending_seq (MpPublisher_wait_for_slot (mq_ring y) seq u) = Some ?q"
    by (simp add: MpPublisher_wait_for_slot_def Let_def)
  moreover have "mp_do t v y = y\<lparr>mq_pc := (mq_pc y)(t := MpPublisher_wait_for_slot (mq_ring y) seq u)\<rparr>"
    using pc by (intro mp_do_local) (simp_all add: MpPublisher_publish_step_def)
  ultimately show ?thesis using pc mp_inv_pc [OF inv, of _ t] by simp
qed

lemma mp_inv_begin:
  assumes inv: "mp_inv k w y" and pc: "mq_pc y t = BeginWrite seq u"
  shows "mp_inv k w (mp_do t v y)"
proof -
  let ?q = "unat seq" and ?sl = "sr_slots (mq_ring y) ! slot_at (mq_ring y) seq"
  let ?sl' = "?sl\<lparr>slot_stamp := seq * 2 + 1\<rparr>"
  let ?y = "y\<lparr>mq_ring := set_slot (mq_ring y) seq ?sl', mq_pc := (mq_pc y)(t := StorePayload seq u 0)\<rparr>"
  note base = mp_invD(1) [OF inv]
  have ok: "pc_ok k w y (BeginWrite seq u)" using mp_invD(2) [OF inv, of t] pc by simp
  have q: "?q < length (mq_claims y)" "stp y (?q mod k) = lap_done k ?q" "u = mq_claims y ! ?q"
    using ok by (auto simp: Let_def)
  have k: "0 < k" using mp_base_cap [OF base] by simp
  have st: "unat (slot_stamp ?sl') = 2 * ?q + 1" using seq_words [OF inv q(1)] by simp
  have lt: "lap_done k ?q < 2 * ?q + 1" using lap_done_less [OF k] .
  have len: "length (slot_value ?sl') = w" using base k by (simp add: mp_base_def slot_at_mod [OF base])
  have "pc_ok k w ?y (StorePayload seq u 0)"
    using q st set_slot_view(1) [OF base, of ?y seq ?sl'] by (simp add: Let_def)
  then have "mp_inv k w ?y"
    using q(2) st lt len pc by (intro mp_inv_writer [OF inv _ refl refl, of t]) simp_all
  moreover have "mp_do t v y = ?y"
    using pc by (intro mp_do_busy) (simp_all add: MpPublisher_publish_step_def slot_write_begin_def Let_def)
  ultimately show ?thesis by simp
qed

lemma mp_inv_piece:
  assumes inv: "mp_inv k w y" and pc: "mq_pc y t = StorePayload seq u j"
  shows "mp_inv k w (mp_do t v y)"
proof -
  let ?q = "unat seq" and ?sl = "sr_slots (mq_ring y) ! slot_at (mq_ring y) seq"
  note base = mp_invD(1) [OF inv]
  have ok: "pc_ok k w y (StorePayload seq u j)" using mp_invD(2) [OF inv, of t] pc by simp
  have q: "?q < length (mq_claims y)" "stp y (?q mod k) = 2 * ?q + 1" "u = mq_claims y ! ?q" "j \<le> w"
      "take j (pld y (?q mod k)) = take j u"
    using ok by (auto simp: Let_def)
  have k: "0 < k" using mp_base_cap [OF base] by simp
  have at: "slot_at (mq_ring y) seq = ?q mod k" by (rule slot_at_mod [OF base])
  have lens: "length (pld y (?q mod k)) = w" "length u = w" using base k q(1,3) by (auto simp: mp_base_def)
  have lt: "lap_done k ?q < 2 * ?q + 1" using lap_done_less [OF k] .
  show ?thesis
  proof (cases "j < length u")
    case True
    let ?sl' = "?sl\<lparr>slot_value := (slot_value ?sl)[j := u ! j]\<rparr>"
    let ?y = "y\<lparr>mq_ring := set_slot (mq_ring y) seq ?sl', mq_pc := (mq_pc y)(t := StorePayload seq u (Suc j))\<rparr>"
    have "take (Suc j) (slot_value ?sl') = take (Suc j) u"
      using True lens q(5) by (simp add: at take_Suc_conv_app_nth)
    then have "pc_ok k w ?y (StorePayload seq u (Suc j))"
      using q True lens set_slot_view(1,2) [OF base, of ?y seq ?sl'] by (simp add: Let_def at)
    then have "mp_inv k w ?y"
      using q(2) lt lens pc by (intro mp_inv_writer [OF inv _ refl refl, of t]) (simp_all add: at)
    moreover have "mp_do t v y = ?y"
      using pc True by (intro mp_do_busy) (simp_all add: MpPublisher_publish_step_def slot_write_piece_def Let_def)
    ultimately show ?thesis by simp
  next
    case False
    let ?sl' = "?sl\<lparr>slot_stamp := seq * 2 + 2\<rparr>"
    let ?y = "y\<lparr>mq_ring := set_slot (mq_ring y) seq ?sl', mq_pc := (mq_pc y)(t := FirstCas seq)\<rparr>"
    have full: "slot_value ?sl' = mq_claims y ! ?q" using False lens q(3,4,5) by (simp add: at)
    have st: "unat (slot_stamp ?sl') = 2 * ?q + 2" using seq_words [OF inv q(1)] by simp
    have "pc_ok k w ?y (FirstCas seq)"
      using q(1) st set_slot_view(1) [OF base, of ?y seq ?sl'] by (simp add: committed_def)
    then have "mp_inv k w ?y"
      using q(2) lt lens pc st full by (intro mp_inv_writer [OF inv _ refl refl, of t]) (simp_all add: at)
    moreover have "mp_do t v y = ?y"
      using pc False by (intro mp_do_busy) (simp_all add: MpPublisher_publish_step_def slot_write_piece_def Let_def)
    ultimately show ?thesis by simp
  qed
qed

lemma mp_inv_first_cas:
  assumes inv: "mp_inv k w y" and pc: "mq_pc y t = FirstCas seq"
  shows "mp_inv k w (mp_do t v y)"
proof -
  have q: "unat seq < length (mq_claims y)" "committed k y (unat seq)" using mp_invD(2) [OF inv, of t] pc by auto
  show ?thesis
  proof (cases "visible y = unat seq")
    case True
    then have "mp_do t v y = y\<lparr>mq_ring := (mq_ring y)\<lparr>sr_cursor := seq\<rparr>, mq_pc := (mq_pc y)(t := CatchUp seq)\<rparr>"
      using pc expected_cursor_iff [OF inv q(1)]
      by (intro mp_do_busy) (simp_all add: MpPublisher_publish_step_def advance_first_cas_def cursor_cas_def)
    then show ?thesis using mp_inv_cursor [OF inv True q, of "CatchUp seq" t] q pc by simp
  next
    case False
    let ?p = "if seq > 0 then WaitPred seq else SecondCas seq :: 'a pc"
    have "mp_do t v y = y\<lparr>mq_pc := (mq_pc y)(t := ?p)\<rparr>"
      using pc False expected_cursor_iff [OF inv q(1)]
      by (intro mp_do_local) (simp_all add: MpPublisher_publish_step_def advance_first_cas_def cursor_cas_def)
    moreover have "pc_ok k w y ?p" using q by (auto simp: word_less_nat_alt)
    ultimately show ?thesis using mp_inv_pc [OF inv, of ?p t] pc False by auto
  qed
qed

lemma mp_inv_wait_pred:
  assumes inv: "mp_inv k w y" and pc: "mq_pc y t = WaitPred seq"
  shows "mp_inv k w (mp_do t v y)"
proof -
  let ?p = "advance_wait_pred (mq_ring y) seq"
  have "unat seq < length (mq_claims y)" "0 < unat seq" "committed k y (unat seq)"
    using mp_invD(2) [OF inv, of t] pc by auto
  then have "pc_ok k w y ?p" "pending_seq ?p = None" "mover ?p m = mover (WaitPred seq :: 'a pc) m" for m
    by (simp_all add: advance_wait_pred_def Let_def)
  moreover have "mp_do t v y = y\<lparr>mq_pc := (mq_pc y)(t := ?p)\<rparr>"
    using pc by (intro mp_do_local) (simp_all add: MpPublisher_publish_step_def)
  ultimately show ?thesis using mp_inv_pc [OF inv, of ?p t] pc by simp
qed

lemma mp_inv_second_cas:
  assumes inv: "mp_inv k w y" and pc: "mq_pc y t = SecondCas seq"
  shows "mp_inv k w (mp_do t v y)"
proof -
  have q: "unat seq < length (mq_claims y)" "committed k y (unat seq)" using mp_invD(2) [OF inv, of t] pc by auto
  show ?thesis
  proof (cases "visible y = unat seq")
    case True
    then have "mp_do t v y = y\<lparr>mq_ring := (mq_ring y)\<lparr>sr_cursor := seq\<rparr>, mq_pc := (mq_pc y)(t := CheckCursor seq)\<rparr>"
      using pc expected_cursor_iff [OF inv q(1)]
      by (intro mp_do_busy) (simp_all add: MpPublisher_publish_step_def advance_second_cas_def cursor_cas_def)
    then show ?thesis using mp_inv_cursor [OF inv True q, of "CheckCursor seq" t] q pc by simp
  next
    case False
    have "mp_do t v y = y\<lparr>mq_pc := (mq_pc y)(t := CheckCursor seq)\<rparr>"
      using pc False expected_cursor_iff [OF inv q(1)]
      by (intro mp_do_local) (simp_all add: MpPublisher_publish_step_def advance_second_cas_def cursor_cas_def)
    then show ?thesis using mp_inv_pc [OF inv, of "CheckCursor seq" t] q pc False by simp
  qed
qed

lemma visible_Suc:
  assumes "mp_inv k w y" "unat seq < length (mq_claims y)"
  shows "visible y = Suc (unat seq) \<longleftrightarrow> sr_cursor (mq_ring y) = seq"
proof -
  have "length (mq_claims y) < 2 ^ 63 - 1" using mp_invD(1) [OF assms(1)] by (simp add: mp_base_def)
  then have "unat seq \<noteq> 18446744073709551615" using assms(2) by simp
  then show ?thesis by (auto simp: visible_def u64_eq_iff)
qed

lemma mp_inv_check:
  assumes inv: "mp_inv k w y" and pc: "mq_pc y t = CheckCursor seq"
  shows "mp_inv k w (mp_do t v y)"
proof -
  let ?p = "advance_check (mq_ring y) seq :: 'a pc"
  have q: "unat seq < length (mq_claims y)" using mp_invD(2) [OF inv, of t] pc by simp
  have "mp_do t v y = y\<lparr>mq_pc := (mq_pc y)(t := ?p)\<rparr>"
    using pc by (intro mp_do_local) (simp_all add: MpPublisher_publish_step_def)
  moreover have "pc_ok k w y ?p" "pending_seq ?p = None" using q by (simp_all add: advance_check_def)
  moreover have "mover ?p (visible y)" if "mover (CheckCursor seq :: 'a pc) (visible y)"
    using that visible_Suc [OF inv q] by (simp add: advance_check_def)
  ultimately show ?thesis using mp_inv_pc [OF inv, of ?p t] pc by simp
qed

lemma mp_inv_catch_bound:
  assumes inv: "mp_inv k w y" and pc: "mq_pc y t = CatchUp seq"
  shows "mp_inv k w (mp_do t v y)"
proof -
  let ?p = "catch_up_bound (mq_ring y) seq :: 'a pc"
  have q: "unat seq < length (mq_claims y)" using mp_invD(2) [OF inv, of t] pc by simp
  obtain n where n: "sr_next_seq (mq_ring y) = Some n" "unat n = length (mq_claims y)"
    using mp_invD(1) [OF inv] by (auto simp: mp_base_def)
  have p: "?p = (if length (mq_claims y) \<le> Suc (unat seq) then Idle else CatchUpStamp seq)"
    using n seq_words(3) [OF inv q] by (simp add: catch_up_bound_def Let_def word_le_nat_alt)
  have "mp_do t v y = y\<lparr>mq_pc := (mq_pc y)(t := ?p)\<rparr>"
    using pc by (intro mp_do_local) (simp_all add: MpPublisher_publish_step_def)
  moreover have "pc_ok k w y ?p" "pending_seq ?p = None" using q by (simp_all add: p)
  ultimately show ?thesis using mp_inv_pc [OF inv, of ?p t] pc p by auto
qed

lemma mp_inv_catch_stamp:
  assumes inv: "mp_inv k w y" and pc: "mq_pc y t = CatchUpStamp seq"
  shows "mp_inv k w (mp_do t v y)"
proof -
  let ?p = "catch_up_stamp (mq_ring y) seq :: 'a pc"
  have q: "Suc (unat seq) < length (mq_claims y)" using mp_invD(2) [OF inv, of t] pc by simp
  then have q': "unat seq < length (mq_claims y)" by simp
  note words = seq_words(3,4) [OF inv q']
  have p: "?p = (if committed k y (Suc (unat seq)) then CatchUpCas seq else Idle)"
    using words q stamp_load_at_mod [OF mp_invD(1) [OF inv], of "seq + 1"]
    by (simp add: catch_up_stamp_def Let_def word_less_nat_alt committed_def not_less)
  have "mp_do t v y = y\<lparr>mq_pc := (mq_pc y)(t := ?p)\<rparr>"
    using pc by (intro mp_do_local) (simp_all add: MpPublisher_publish_step_def)
  moreover have "pc_ok k w y ?p" "pending_seq ?p = None" using q by (simp_all add: p)
  ultimately show ?thesis using mp_inv_pc [OF inv, of ?p t] pc p by auto
qed

lemma mp_inv_catch_cas:
  assumes inv: "mp_inv k w y" and pc: "mq_pc y t = CatchUpCas seq"
  shows "mp_inv k w (mp_do t v y)"
proof -
  have q: "Suc (unat seq) < length (mq_claims y)" "committed k y (Suc (unat seq))"
    using mp_invD(2) [OF inv, of t] pc by auto
  then have q': "unat seq < length (mq_claims y)" by simp
  note word = seq_words(3) [OF inv q']
  show ?thesis
  proof (cases "sr_cursor (mq_ring y) = seq")
    case True
    then have "mp_do t v y =
        y\<lparr>mq_ring := (mq_ring y)\<lparr>sr_cursor := seq + 1\<rparr>, mq_pc := (mq_pc y)(t := CatchUp (seq + 1))\<rparr>"
      using pc by (intro mp_do_busy) (simp_all add: MpPublisher_publish_step_def catch_up_cas_def cursor_cas_def Let_def)
    then show ?thesis
      using mp_inv_cursor [OF inv, of "seq + 1" "CatchUp (seq + 1)" t] True visible_Suc [OF inv q'] q pc word by simp
  next
    case False
    then have "mp_do t v y = y\<lparr>mq_pc := (mq_pc y)(t := Idle)\<rparr>"
      using pc by (intro mp_do_local) (simp_all add: MpPublisher_publish_step_def catch_up_cas_def cursor_cas_def Let_def)
    then show ?thesis using mp_inv_pc [OF inv, of Idle t] pc False visible_Suc [OF inv q'] by simp
  qed
qed

lemma mp_inv_step:
  assumes inv: "mp_inv k w y" and "mp_step w y y'"
  shows "mp_inv k w y'"
proof -
  from assms(2) obtain t v where v: "length v = w" and n: "mq_pc y t = Idle \<longrightarrow> length (mq_claims y) < 2 ^ 63 - 2"
      and y': "y' = mp_do t v y"
    by (rule mp_step.cases) simp
  show ?thesis unfolding y'
  proof (cases "mq_pc y t")
    case Idle
    then show "mp_inv k w (mp_do t v y)" using v n by (intro mp_inv_claim [OF inv]) simp_all
  qed (rule mp_inv_wait_slot mp_inv_begin mp_inv_piece mp_inv_first_cas mp_inv_wait_pred mp_inv_second_cas
        mp_inv_check mp_inv_catch_bound mp_inv_catch_stamp mp_inv_catch_cas, rule inv, assumption)+
qed

end
