(* ===== verification/Mpmc_Safety.thy ===== *)
theory Mpmc_Safety
  imports Mp_Publisher
begin

text \<open>
  What the multi-producer protocol guarantees: a fresh ring satisfies the invariant, every run keeps
  it, and the writers therefore honour the seqlock contract.  The properties: readers never accept a
  mixture of two messages, two writers never fill the same slot, the cursor never passes an unfinished
  message, the publishers never wait for each other in a circle, and once they are done every message
  the ring has room for can be read by its stamp.  The memory is sequentially consistent here; what the
  source's orderings add to the behaviour of the cursor is in theory \<open>Weak_Cursor\<close>.
\<close>

section \<open>Every run keeps the invariant\<close>

lemma mp_inv_fresh:
  assumes "channel_mpmc uninit c = Inr r" "length uninit = w"
  shows "mp_inv (unat c) w (mp_fresh r)"
proof -
  from assms(1) obtain index where ix: "RingIndex_new c = Inr index" and
      r: "r = \<lparr>sr_slots = map (\<lambda>_. Slot_new uninit) [0..<unat c], sr_index = index, sr_cursor = u64_max,
               sr_backpressure = None, sr_next_seq = Some 0\<rparr>"
    by (auto simp: channel_mpmc_def SharedRing_new_mpmc_def split: sum.splits)
  note ri = RingIndex_new_Inr [OF ix]
  have "mp_base (unat c) w (mp_fresh r)"
    using ri assms(2) by (auto simp: mp_base_def mp_fresh_def r Slot_new_def)
  moreover have "slots_ok (unat c) (mp_fresh r)"
    by (simp add: slots_ok_def mp_fresh_def r Slot_new_def)
  moreover have "claims_ok (unat c) (mp_fresh r)" "cursor_ok (unat c) (mp_fresh r)"
    by (simp_all add: claims_ok_def cursor_ok_def visible_def mp_fresh_def r)
  ultimately show ?thesis by (simp add: mp_inv_def mp_fresh_def)
qed

lemma mp_reaches_inv:
  assumes "mp_reaches w y0 y" "mp_inv k w y0"
  shows "mp_inv k w y"
  using assms by (induction rule: mp_reaches.induct) (auto intro: mp_inv_step)

lemma mp_reachable_inv:
  assumes "channel_mpmc uninit c = Inr r" "length uninit = w" "mp_reaches w (mp_fresh r) y"
  shows "mp_inv (unat c) w y"
  using mp_reaches_inv [OF assms(3) mp_inv_fresh [OF assms(1,2)]] .

section \<open>What a step does to the slots and the claims\<close>

lemma mp_step_claims:
  assumes "mp_step w y y'"
  shows "\<exists>vs. mq_claims y' = mq_claims y @ vs"
  using assms by (auto simp: mp_do_def split: prod.splits elim!: mp_step.cases)

lemma mp_do_slots_busy:
  assumes "mq_pc y t \<noteq> Idle" "\<And>seq u. mq_pc y t \<noteq> BeginWrite seq u" "\<And>seq u j. mq_pc y t \<noteq> StorePayload seq u j"
  shows "sr_slots (mq_ring (mp_do t v y)) = sr_slots (mq_ring y)"
  using assms
  by (cases "mq_pc y t")
    (auto simp: mp_do_def MpPublisher_publish_step_def advance_first_cas_def advance_second_cas_def catch_up_cas_def
       cursor_cas_def Let_def)

lemma mp_step_slots:
  assumes inv: "mp_inv k w y" and "mp_step w y y'"
  obtains (Same) "sr_slots (mq_ring y') = sr_slots (mq_ring y)"
  | (Begin) q where "\<And>i. i \<noteq> q mod k \<Longrightarrow> sr_slots (mq_ring y') ! i = sr_slots (mq_ring y) ! i"
      "stp y (q mod k) < 2 * q + 1" "stp y' (q mod k) = 2 * q + 1"
  | (Piece) q where "\<And>i. i \<noteq> q mod k \<Longrightarrow> sr_slots (mq_ring y') ! i = sr_slots (mq_ring y) ! i"
      "stp y (q mod k) = 2 * q + 1" "2 * q + 1 \<le> stp y' (q mod k)"
proof -
  from assms(2) obtain t v where y': "y' = mp_do t v y" by (rule mp_step.cases) simp
  note base = mp_invD(1) [OF inv]
  have k: "0 < k" using mp_base_cap [OF base] by simp
  have len: "q mod k < length (sr_slots (mq_ring y))" for q using base k by (simp add: mp_base_def)
  show thesis
  proof (cases "mq_pc y t")
    case Idle
    then have "sr_slots (mq_ring y') = sr_slots (mq_ring y)"
      by (auto simp: y' mp_do_def MpPublisher_publish_step_def MpPublisher_claim_def split: option.splits)
    then show thesis by (rule Same)
  next
    case (BeginWrite seq u)
    then have q: "unat seq < length (mq_claims y)" "stp y (unat seq mod k) = lap_done k (unat seq)"
      using mp_invD(2) [OF inv, of t] by (auto simp: Let_def)
    then have "stp y (unat seq mod k) < 2 * unat seq + 1" using lap_done_less [OF k] by simp
    moreover have "stp y' (unat seq mod k) = 2 * unat seq + 1"
      using BeginWrite seq_words(1) [OF inv q(1)] len
      by (simp add: y' mp_do_def MpPublisher_publish_step_def slot_write_begin_def set_slot_def slot_at_mod [OF base] Let_def)
    ultimately show thesis using BeginWrite
      by (intro Begin [of "unat seq"])
        (simp_all add: y' mp_do_def MpPublisher_publish_step_def slot_write_begin_def set_slot_def slot_at_mod [OF base] Let_def)
  next
    case (StorePayload seq u j)
    then have q: "unat seq < length (mq_claims y)" "stp y (unat seq mod k) = 2 * unat seq + 1"
      using mp_invD(2) [OF inv, of t] by (auto simp: Let_def)
    moreover have "2 * unat seq + 1 \<le> stp y' (unat seq mod k)"
      using StorePayload seq_words(2) [OF inv q(1)] len q(2)
      by (simp add: y' mp_do_def MpPublisher_publish_step_def slot_write_piece_def set_slot_def slot_at_mod [OF base] Let_def)
    ultimately show thesis using StorePayload
      by (intro Piece [of "unat seq"])
        (simp_all add: y' mp_do_def MpPublisher_publish_step_def slot_write_piece_def set_slot_def slot_at_mod [OF base] Let_def)
  qed (use mp_do_slots_busy [of y t v] Same y' in simp_all)
qed

lemma committed_claimed:
  assumes inv: "mp_inv k w y" and "committed k y q"
  obtains p where "p < length (mq_claims y)" "p mod k = q mod k" "q \<le> p"
    "stp y (q mod k) = 2 * p + 1 \<and> q < p \<or> stp y (q mod k) = 2 * p + 2 \<and> pld y (q mod k) = mq_claims y ! p"
proof -
  have "q mod k < k" using mp_base_cap [OF mp_invD(1) [OF inv]] by simp
  with mp_invD(3) [OF inv] show thesis
  proof (cases rule: slots_cases)
    case Fresh
    then show thesis using assms(2) by (simp add: committed_def)
  next
    case (Writing p)
    then show thesis using assms(2) by (intro that [of p]) (auto simp: committed_def)
  next
    case (Done p)
    then show thesis using assms(2) by (intro that [of p]) (auto simp: committed_def)
  qed
qed

section \<open>The multi-producer writers keep the seqlock contract\<close>

definition mp_stamp :: "'c mpsys \<Rightarrow> nat \<Rightarrow> u64" where
  "mp_stamp y i = Slot_stamp_load (sr_slots (mq_ring y) ! i)"

definition mp_payload :: "'c mpsys \<Rightarrow> nat \<Rightarrow> 'c list" where
  "mp_payload y i = slot_value (sr_slots (mq_ring y) ! i)"

definition mp_message :: "'c mpsys \<Rightarrow> nat \<Rightarrow> 'c list" where
  "mp_message y q = mq_claims y ! q"

lemmas mp_view = mp_stamp_def mp_payload_def mp_message_def Slot_stamp_load_def

interpretation mp: seqlock_writers "mp_step w" mp_stamp mp_payload mp_message "mp_inv (Suc k) w" "Suc k"
  for w k
proof
  fix y y' :: "'a mpsys" and i q :: nat
  assume inv: "mp_inv (Suc k) w y"
  show "mp_inv (Suc k) w y'" if "mp_step w y y'" using mp_inv_step [OF inv that] .
  show "unat (mp_stamp y i) \<le> unat (mp_stamp y' i)" if "mp_step w y y'" "i < Suc k"
    using inv that(1)
  proof (cases rule: mp_step_slots)
    case (Begin q)
    then show ?thesis by (cases "i = q mod Suc k") (auto simp: mp_view)
  next
    case (Piece q)
    then show ?thesis by (cases "i = q mod Suc k") (auto simp: mp_view)
  qed (simp add: mp_view)
  show "mp_payload y' i = mp_payload y i"
    if "mp_step w y y'" "i < Suc k" "even (unat (mp_stamp y i))" "mp_stamp y' i = mp_stamp y i"
    using inv that(1)
  proof (cases rule: mp_step_slots)
    case (Begin q)
    then show ?thesis using that by (cases "i = q mod Suc k") (auto simp: mp_view)
  next
    case (Piece q)
    then show ?thesis using that by (cases "i = q mod Suc k") (auto simp: mp_view)
  qed (simp add: mp_view)
  show "mp_payload y (q mod Suc k) = mp_message y q" if st: "unat (mp_stamp y (q mod Suc k)) = 2 * q + 2"
  proof -
    have "committed (Suc k) y q" using st by (simp add: committed_def mp_view)
    with inv show ?thesis
    proof (rule committed_claimed)
      fix p assume "stp y (q mod Suc k) = 2 * p + 1 \<and> q < p \<or>
        stp y (q mod Suc k) = 2 * p + 2 \<and> pld y (q mod Suc k) = mq_claims y ! p"
      then show ?thesis using st by (auto simp: mp_view)
    qed
  qed
  show "mp_message y' q = mp_message y q"
    if "mp_step w y y'" "2 * q + 2 \<le> unat (mp_stamp y (q mod Suc k))"
  proof -
    have "committed (Suc k) y q" using that(2) by (simp add: committed_def mp_view)
    with inv obtain p where "p < length (mq_claims y)" "q \<le> p" by (rule committed_claimed)
    then show ?thesis using mp_step_claims [OF that(1)] by (auto simp: mp_view nth_append)
  qed
qed simp

section \<open>Deadlock freedom\<close>

text \<open>A thread is not spinning when its access moves its program counter.  The thread that holds the
  smallest unfinished sequence number never spins, and when every claim is committed nobody does.\<close>

definition moves :: "'c mpsys \<Rightarrow> nat \<Rightarrow> bool" where
  "moves y t \<longleftrightarrow> mq_pc y t \<noteq> Idle \<and> mq_pc (mp_do t [] y) t \<noteq> mq_pc y t"

lemma claimed_cases:
  assumes "mp_inv k w y" "q < length (mq_claims y)" "\<And>t. pending_seq (mq_pc y t) \<noteq> Some q"
  shows "committed k y q"
  using mp_invD(4) [OF assms(1)] assms(2,3) unfolding claims_ok_def by blast

lemma wait_slot_moves:
  assumes inv: "mp_inv k w y" and pc: "mq_pc y t = WaitSlot seq u"
    and before: "\<And>q. q < unat seq \<Longrightarrow> committed k y q"
  shows "moves y t"
proof -
  note base = mp_invD(1) [OF inv]
  let ?q = "unat seq" and ?c = "ri_capacity (sr_index (mq_ring y))"
  have q: "?q < length (mq_claims y)" using mp_invD(2) [OF inv, of t] pc by (simp add: Let_def)
  have c: "unat ?c = k" and n: "length (mq_claims y) < 2 ^ 63 - 1" using base by (auto simp: mp_base_def)
  have "\<not> stamp_load_at (mq_ring y) seq < (seq - ?c) * 2 + 2" if ge: "\<not> seq < ?c"
  proof -
    have d: "unat (seq - ?c) = ?q - k" "k \<le> ?q" using ge c by (auto simp: unat_u64_diff word_less_nat_alt)
    have "unat ((seq - ?c) * 2 + 2) = 2 * (?q - k) + 2"
      using q n d(1) unat_u64_stamp_done [of "seq - ?c"] by linarith
    moreover have "committed k y (?q - k)" using before d(2) mp_base_cap [OF base] by simp
    moreover have "(?q - k) mod k = ?q mod k" using d(2) by (simp add: mod_if)
    ultimately show ?thesis using stamp_load_at_mod [OF base, of seq] by (simp add: committed_def word_less_nat_alt)
  qed
  then have "MpPublisher_wait_for_slot (mq_ring y) seq u = BeginWrite seq u"
    by (simp add: MpPublisher_wait_for_slot_def Let_def)
  then show ?thesis using pc by (simp add: moves_def mp_do_def MpPublisher_publish_step_def)
qed

lemma wait_pred_moves:
  assumes inv: "mp_inv k w y" and pc: "mq_pc y t = WaitPred seq"
    and all: "\<And>q. q < length (mq_claims y) \<Longrightarrow> committed k y q"
  shows "moves y t"
proof -
  note base = mp_invD(1) [OF inv]
  let ?q = "unat seq"
  have q: "0 < ?q" "?q < length (mq_claims y)" using mp_invD(2) [OF inv, of t] pc by auto
  then have u: "unat (seq - 1) = ?q - 1" by (simp add: unat_u64_pred)
  have q': "unat (seq - 1) < length (mq_claims y)" using q u by simp
  have "\<not> stamp_load_at (mq_ring y) (seq - 1) < (seq - 1) * 2 + 2"
    using seq_words(2) [OF inv q'] all [OF q'] stamp_load_at_mod [OF base, of "seq - 1"]
    by (simp add: committed_def word_less_nat_alt)
  then have "advance_wait_pred (mq_ring y) seq = (SecondCas seq :: 'a pc)"
    by (simp add: advance_wait_pred_def Let_def)
  then show ?thesis using pc by (simp add: moves_def mp_do_def MpPublisher_publish_step_def)
qed

lemma other_moves:
  assumes "mq_pc y t \<noteq> Idle" "\<And>seq u. mq_pc y t \<noteq> WaitSlot seq u" "\<And>seq. mq_pc y t \<noteq> WaitPred seq"
  shows "moves y t"
  using assms
  by (cases "mq_pc y t")
    (auto simp: moves_def mp_do_def MpPublisher_publish_step_def slot_write_begin_def slot_write_piece_def
       advance_first_cas_def advance_second_cas_def advance_check_def catch_up_bound_def catch_up_stamp_def
       catch_up_cas_def Let_def split: prod.splits option.splits bool.splits)

lemma some_thread_moves:
  assumes inv: "mp_inv k w y" and busy: "mq_pc y t0 \<noteq> Idle"
  shows "\<exists>t. moves y t"
proof (cases "\<exists>q t. pending_seq (mq_pc y t) = Some q")
  case True
  define q where "q = (LEAST q. \<exists>t. pending_seq (mq_pc y t) = Some q)"
  from LeastI_ex [OF True] obtain t where t: "pending_seq (mq_pc y t) = Some q" unfolding q_def by blast
  have least: "pending_seq (mq_pc y t') \<noteq> Some q'" if "q' < q" for q' t'
    using that not_less_Least unfolding q_def by blast
  have "q < length (mq_claims y)"
    using pending_ok(1) [OF mp_invD(2) [OF inv] t] mp_base_cap [OF mp_invD(1) [OF inv]] by simp
  then have before: "committed k y q'" if "q' < q" for q' using claimed_cases [OF inv, of q'] least that by simp
  have "moves y t"
  proof (cases "\<exists>seq u. mq_pc y t = WaitSlot seq u")
    case True
    then show ?thesis using wait_slot_moves [OF inv, of t] before t by fastforce
  qed (use other_moves [of y t] t in fastforce)
  then show ?thesis ..
next
  case False
  then have all: "committed k y q" if "q < length (mq_claims y)" for q using claimed_cases [OF inv that] by blast
  have "moves y t0"
  proof (cases "\<exists>seq. mq_pc y t0 = WaitPred seq")
    case True
    then show ?thesis using wait_pred_moves [OF inv] all by blast
  next
    case False
    have "mq_pc y t0 \<noteq> WaitSlot seq u" for seq u using \<open>\<nexists>q t. _\<close> by (metis pending_seq.simps(1))
    then show ?thesis using other_moves [OF busy] False by blast
  qed
  then show ?thesis ..
qed

text \<open>An access that moves brings its thread closer to the end of \<^verbatim>\<open>publish\<close>.\<close>

fun rank :: "nat \<Rightarrow> nat \<Rightarrow> 'c pc \<Rightarrow> nat" where
  "rank n w Idle = 0"
| "rank n w (WaitSlot seq u) = 3 * (n - unat seq) + w + 7"
| "rank n w (BeginWrite seq u) = 3 * (n - unat seq) + w + 6"
| "rank n w (StorePayload seq u j) = 3 * (n - unat seq) + (w - j) + 5"
| "rank n w (FirstCas seq) = 3 * (n - unat seq) + 4"
| "rank n w (WaitPred seq) = 3 * (n - unat seq) + 3"
| "rank n w (SecondCas seq) = 3 * (n - unat seq) + 2"
| "rank n w (CheckCursor seq) = 3 * (n - unat seq) + 1"
| "rank n w (CatchUp seq) = 3 * (n - unat seq)"
| "rank n w (CatchUpStamp seq) = 3 * (n - unat seq) - 1"
| "rank n w (CatchUpCas seq) = 3 * (n - unat seq) - 2"

lemma moves_rank:
  assumes inv: "mp_inv k w y" and mv: "moves y t"
  shows "rank (length (mq_claims y)) w (mq_pc (mp_do t [] y) t) < rank (length (mq_claims y)) w (mq_pc y t)"
proof -
  let ?p = "fst (MpPublisher_publish_step [] (mq_pc y t) (mq_ring y))"
  note ok = mp_invD(2) [OF inv, of t]
  have p: "mq_pc (mp_do t [] y) t = ?p" by (simp add: mp_do_def split: prod.splits)
  have ne: "mq_pc y t \<noteq> Idle" "?p \<noteq> mq_pc y t" using mv p by (auto simp: moves_def)
  have len: "length u = w" if "mq_pc y t = StorePayload seq u j" for seq u j
    using that ok mp_invD(1) [OF inv] by (auto simp: Let_def mp_base_def)
  have word: "unat (seq + 1) = Suc (unat seq)" if "mq_pc y t = CatchUpCas seq" for seq
    using seq_words(3) [OF inv, of seq] that ok by simp
  show ?thesis unfolding p
    using ne ok len word
    by (cases "mq_pc y t")
      (auto simp: MpPublisher_publish_step_def MpPublisher_wait_for_slot_def slot_write_begin_def slot_write_piece_def
         advance_first_cas_def advance_wait_pred_def advance_second_cas_def advance_check_def catch_up_bound_def
         catch_up_stamp_def catch_up_cas_def Let_def split: prod.splits option.splits bool.splits if_splits)
qed

lemma mp_do_other: "t' \<noteq> t \<Longrightarrow> mq_pc (mp_do t v y) t' = mq_pc y t'"
  by (simp add: mp_do_def split: prod.splits)

lemma mp_do_busy_claims: "mq_pc y t \<noteq> Idle \<Longrightarrow> mq_claims (mp_do t v y) = mq_claims y"
  by (simp add: mp_do_def split: prod.splits)

lemma mp_do_busy_value:
  assumes "mq_pc y t \<noteq> Idle"
  shows "mp_do t v y = mp_do t v' y"
  using assms by (cases "mq_pc y t") (simp_all add: mp_do_def MpPublisher_publish_step_def)

lemma mp_reaches_trans:
  assumes "mp_reaches w y1 y2" "mp_reaches w y0 y1"
  shows "mp_reaches w y0 y2"
  using assms by (induction rule: mp_reaches.induct) (auto intro: mp_reaches.intros)

lemma busy_finite:
  assumes "mp_reaches w (mp_fresh r) y"
  shows "finite {t. mq_pc y t \<noteq> Idle}"
  using assms
proof (induction rule: mp_reaches.induct)
  case (mp_next y y')
  from mp_next.hyps(2) obtain t v where "y' = mp_do t v y" by (rule mp_step.cases) simp
  then have "{t. mq_pc y' t \<noteq> Idle} \<subseteq> insert t {t. mq_pc y t \<noteq> Idle}" 
    by (auto simp: mp_do_def fun_upd_def split: prod.splits if_splits)
  then show ?case using mp_next.IH by (meson finite_insert finite_subset)
qed (simp add: mp_fresh_def)

lemma publishers_drain:
  assumes "mp_inv k w y" "finite T" "\<And>t. t \<notin> T \<Longrightarrow> mq_pc y t = Idle"
  shows "\<exists>y'. mp_reaches w y y' \<and> mq_claims y' = mq_claims y \<and> (\<forall>t. mq_pc y' t = Idle)"
  using assms
proof (induction "\<Sum>t\<in>T. rank (length (mq_claims y)) w (mq_pc y t)" arbitrary: y rule: less_induct)
  case less
  show ?case
  proof (cases "\<forall>t. mq_pc y t = Idle")
    case True
    then show ?thesis by (intro exI [of _ y]) (simp add: mp_start)
  next
    case False
    then obtain t where t: "moves y t" using some_thread_moves [OF less.prems(1)] by blast
    then have busy: "mq_pc y t \<noteq> Idle" by (simp add: moves_def)
    let ?y = "mp_do t [] y" and ?n = "length (mq_claims y)"
    have "?y = mp_do t (replicate w undefined) y" using mp_do_busy_value [OF busy] .
    then have step: "mp_step w y ?y" using busy by (simp add: mp_stepI)
    have claims: "mq_claims ?y = mq_claims y" using mp_do_busy_claims [OF busy] .
    have "(\<Sum>t\<in>T. rank ?n w (mq_pc ?y t)) < (\<Sum>t\<in>T. rank ?n w (mq_pc y t))"
    proof (rule sum_strict_mono_ex1 [OF less.prems(2)])
      have lt: "rank ?n w (mq_pc ?y t) < rank ?n w (mq_pc y t)" by (rule moves_rank [OF less.prems(1) t])
      show "\<forall>t'\<in>T. rank ?n w (mq_pc ?y t') \<le> rank ?n w (mq_pc y t')"
      proof
        fix t' show "rank ?n w (mq_pc ?y t') \<le> rank ?n w (mq_pc y t')"
          using lt mp_do_other [of t' t "[]" y] by (cases "t' = t") simp_all
      qed
      show "\<exists>t'\<in>T. rank ?n w (mq_pc ?y t') < rank ?n w (mq_pc y t')"
        using lt less.prems(3) [of t] busy by (intro bexI [of _ t]) auto
    qed
    moreover have "mq_pc ?y t' = Idle" if "t' \<notin> T" for t'
    proof -
      have "t' \<noteq> t" using that less.prems(3) [of t] busy by blast
      then show ?thesis using less.prems(3) [OF that] by (simp add: mp_do_other)
    qed
    ultimately obtain y' where "mp_reaches w ?y y'" "mq_claims y' = mq_claims y" "\<forall>t. mq_pc y' t = Idle"
      using less.hyps [of ?y] mp_inv_step [OF less.prems(1) step] less.prems(2) claims by auto
    moreover have "mp_reaches w y ?y" using mp_next [OF mp_start step] .
    ultimately show ?thesis using mp_reaches_trans by blast
  qed
qed

section \<open>The ring at rest\<close>

lemma idle_slots:
  assumes inv: "mp_inv k w y" and idle: "\<And>t. mq_pc y t = Idle" and q: "q < length (mq_claims y)" "length (mq_claims y) \<le> q + k"
  shows "unat (mp_stamp y (q mod k)) = 2 * q + 2 \<and> mp_payload y (q mod k) = mq_claims y ! q"
proof -
  have "committed k y q" using claimed_cases [OF inv q(1)] idle by simp
  from inv this obtain p where p: "p < length (mq_claims y)" "p mod k = q mod k" "q \<le> p"
    "stp y (q mod k) = 2 * p + 1 \<and> q < p \<or> stp y (q mod k) = 2 * p + 2 \<and> pld y (q mod k) = mq_claims y ! p"
    by (rule committed_claimed)
  have "\<not> q < p" using same_residue_gap [OF p(2) [symmetric]] p(1) q(2) by linarith
  then show ?thesis using p(3,4) by (simp add: mp_view)
qed

text \<open>A slot read by its stamp, without the cursor.\<close>

lemma idle_read:
  assumes "mp_inv k w y" "\<And>t. mq_pc y t = Idle" "q < length (mq_claims y)" "length (mq_claims y) \<le> q + k"
  shows "Slot_try_read (sr_slots (mq_ring y) ! (q mod k)) (of_nat q) = Inr (Some (mq_claims y ! q))"
proof -
  have "q < 2 ^ 63 - 1" using mp_invD(1) [OF assms(1)] assms(3) by (auto simp: mp_base_def)
  then have "unat (of_nat q :: u64) = q" by (simp add: unat_of_nat)
  with \<open>q < 2 ^ 63 - 1\<close> have "unat ((of_nat q :: u64) * 2 + 2) = 2 * q + 2" using unat_u64_stamp_done [of "of_nat q"] by simp
  then show ?thesis using idle_slots [OF assms]
    by (simp add: Slot_try_read_def try_read_obs_def Let_def mp_view u64_eq_iff)
qed

section \<open>Concrete runs\<close>

text \<open>A schedule names the thread that makes the next access and the value it publishes if it starts anew.\<close>

fun mp_run :: "(nat \<times> 'c list) list \<Rightarrow> 'c mpsys \<Rightarrow> 'c mpsys" where
  "mp_run [] y = y"
| "mp_run ((t, v) # ts) y = mp_run ts (mp_do t v y)"

lemma mp_run_reaches:
  assumes "list_all (\<lambda>(t, v). length v = w) ts" "length (mq_claims y) + length ts < 2 ^ 63 - 2"
  shows "mp_reaches w y (mp_run ts y)"
  using assms
proof (induction ts arbitrary: y)
  case (Cons a ts)
  obtain t v where a: "a = (t, v)" by force
  have "length (mq_claims (mp_do t v y)) \<le> Suc (length (mq_claims y))" by (simp add: mp_do_def split: prod.splits)
  then have "mp_reaches w (mp_do t v y) (mp_run ts (mp_do t v y))" using Cons a by simp
  moreover have "mp_reaches w y (mp_do t v y)" using Cons.prems a by (intro mp_next [OF mp_start] mp_stepI) simp_all
  ultimately show ?case using a mp_reaches_trans by simp
qed (simp add: mp_start)

lemma observed_writers:
  assumes "mp_reaches w y y'" "observed (mp_step w) mp_stamp mp_payload k y0 rd0 y rd"
  shows "observed (mp_step w) mp_stamp mp_payload k y0 rd0 y' rd"
  using assms by (induction rule: mp_reaches.induct) (auto intro: observed.writer)

definition demo_mp :: "nat mpsys" where
  "demo_mp = mp_fresh (case channel_mpmc [0, 0] 2 of Inr r \<Rightarrow> r | Inl e \<Rightarrow> undefined)"

lemma demo_mp_fresh: "\<exists>r. channel_mpmc [0, 0] 2 = Inr r \<and> demo_mp = mp_fresh r"
proof -
  have "case channel_mpmc [0 :: nat, 0] 2 of Inl e \<Rightarrow> False | Inr r \<Rightarrow> True" by code_simp
  then show ?thesis unfolding demo_mp_def by (cases "channel_mpmc [0 :: nat, 0] 2") auto
qed

section \<open>Properties\<close>

text \<open>
  C2: \<^bold>\<open>No torn reads with many producers.\<close>  While any number of threads publish, a reader that accepts
  the payload of sequence number \<open>seq\<close> (both of its stamp loads agree) has read exactly the value that was
  published under \<open>seq\<close>, whatever writer accesses happened between its own loads.
\<close>

theorem mpmc_no_torn_read:
  assumes "channel_mpmc uninit c = Inr r" "length uninit = w" "mp_reaches w (mp_fresh r) y"
    and "observed (mp_step w) mp_stamp mp_payload (unat c) y (LoadStamp seq) y' (ReadDone seq (Inr (Some buf)))"
    and "unat seq < 2 ^ 63 - 1"
  shows "unat seq < length (mq_claims y') \<and> buf = mq_claims y' ! unat seq"
proof -
  note inv = mp_reachable_inv [OF assms(1-3)]
  then obtain k where k: "unat c = Suc k" using mp_base_cap [OF mp_invD(1) [OF inv]] by (cases "unat c") auto
  note obs = assms(4) [unfolded k] and inv' = inv [unfolded k]
  have "mp_inv (Suc k) w y'" using mp.observed_ok [OF obs inv'] assms(5) by (simp add: mp.reader_ok_def)
  moreover have "committed (Suc k) y' (unat seq)"
    using mp.no_torn_read(2) [OF obs inv' assms(5)] by (simp add: committed_def mp_view)
  ultimately have "unat seq < length (mq_claims y')" by (rule committed_claimed) simp
  then show ?thesis using mp.no_torn_read(1) [OF obs inv' assms(5)] by (simp add: mp_message_def)
qed

definition demo_before :: "nat mpsys" where
  "demo_before = mp_run (replicate 8 (0, [7, 8])) demo_mp"

definition demo_after :: "nat mpsys" where
  "demo_after = mp_run (replicate 5 (1, [5, 6])) demo_before"

lemma demo_after_reaches:
  "\<exists>r. channel_mpmc [0 :: nat, 0] 2 = Inr r \<and> mp_reaches 2 (mp_fresh r) demo_before \<and> mp_reaches 2 demo_before demo_after"
proof -
  obtain r where r: "channel_mpmc [0 :: nat, 0] 2 = Inr r" "demo_mp = mp_fresh r" using demo_mp_fresh by blast
  have "length (mq_claims demo_mp) = 0" "length (mq_claims demo_before) = 1" by code_simp+
  then have "mp_reaches 2 demo_mp demo_before" "mp_reaches 2 demo_before demo_after"
    unfolding demo_before_def demo_after_def by (auto simp: list_all_iff intro!: mp_run_reaches)
  then show ?thesis using r by auto
qed

theorem mpmc_no_torn_read_witness:
  "read_run mp_stamp mp_payload 2 2 demo_after (read_run mp_stamp mp_payload 2 2 demo_before (LoadStamp 0)) = ReadDone 0 (Inr (Some [7, 8])) \<and>
   [7, 8] = mq_claims demo_after ! 0"
proof -
  obtain r where r: "channel_mpmc [0 :: nat, 0] 2 = Inr r"
    and reach: "mp_reaches 2 (mp_fresh r) demo_before" "mp_reaches 2 demo_before demo_after"
    using demo_after_reaches by blast
  have rd: "read_run mp_stamp mp_payload 2 2 demo_after (read_run mp_stamp mp_payload 2 2 demo_before (LoadStamp 0)) = ReadDone 0 (Inr (Some [7, 8]))"
    by code_simp
  have "observed (mp_step 2) mp_stamp mp_payload 2 demo_before (LoadStamp 0) demo_after
      (ReadDone 0 (Inr (Some [7, 8])))"
    using observed_reads [OF observed_writers [OF reach(2) observed_reads [OF observed.begin_read]], where n = 2]
    by (simp only: rd [symmetric])
  then have "[7, 8] = mq_claims demo_after ! 0"
    using mpmc_no_torn_read [OF r _ reach(1), of 0 demo_after "[7, 8]"] by simp
  with rd show ?thesis by blast
qed

text \<open>
  C7: \<^bold>\<open>Writers of one slot are mutually exclusive.\<close>  In every reachable state two threads that are
  storing their payload into the same slot are the same thread, however many laps apart the sequence
  numbers were claimed.
\<close>

theorem mpmc_writers_exclusive:
  assumes "channel_mpmc uninit c = Inr r" "length uninit = w" "mp_reaches w (mp_fresh r) y"
    and "mq_pc y t = StorePayload seq v j" "mq_pc y t' = StorePayload seq' v' j'"
    and "RingIndex_slot (sr_index (mq_ring y)) seq = RingIndex_slot (sr_index (mq_ring y)) seq'"
  shows "t = t'"
proof -
  note inv = mp_reachable_inv [OF assms(1-3)]
  have "unat seq mod unat c = unat seq' mod unat c"
    using assms(6) slot_at_mod [OF mp_invD(1) [OF inv]] by (metis slot_at_def)
  then have "unat seq = unat seq'"
    using mp_invD(2) [OF inv, of t] mp_invD(2) [OF inv, of t'] assms(4,5) by (simp add: Let_def)
  then show ?thesis using mp_invD(4) [OF inv] assms(4,5) unfolding claims_ok_def
    by (metis pending_seq.simps(3))
qed

text \<open>Three claims on a ring of two slots: the third thread, a lap behind the first, has to wait.\<close>

definition demo_crowd :: "nat mpsys" where
  "demo_crowd = mp_run (replicate 4 (0, [1, 2]) @ replicate 4 (1, [3, 4]) @ replicate 5 (2, [5, 6])) demo_mp"

lemma demo_crowd_reaches: "\<exists>r. channel_mpmc [0 :: nat, 0] 2 = Inr r \<and> mp_reaches 2 (mp_fresh r) demo_crowd"
proof -
  obtain r where r: "channel_mpmc [0 :: nat, 0] 2 = Inr r" "demo_mp = mp_fresh r" using demo_mp_fresh by blast
  have "length (mq_claims demo_mp) = 0" by code_simp
  then have "mp_reaches 2 demo_mp demo_crowd" unfolding demo_crowd_def by (auto simp: list_all_iff intro!: mp_run_reaches)
  then show ?thesis using r by auto
qed

theorem mpmc_writers_exclusive_witness:
  "mq_pc demo_crowd 0 = StorePayload 0 [1, 2] 1 \<and> mq_pc demo_crowd 2 = WaitSlot 2 [5, 6] \<and>
   RingIndex_slot (sr_index (mq_ring demo_crowd)) 0 = RingIndex_slot (sr_index (mq_ring demo_crowd)) 2 \<and>
   {t. mq_pc demo_crowd t = StorePayload 0 [1, 2] 1} = {0}"
proof -
  have pcs: "mq_pc demo_crowd 0 = StorePayload 0 [1, 2] 1" "mq_pc demo_crowd 2 = WaitSlot 2 [5, 6]"
    "RingIndex_slot (sr_index (mq_ring demo_crowd)) 0 = RingIndex_slot (sr_index (mq_ring demo_crowd)) 2"
    by code_simp+
  obtain r where "channel_mpmc [0 :: nat, 0] 2 = Inr r" "mp_reaches 2 (mp_fresh r) demo_crowd"
    using demo_crowd_reaches by blast
  then show ?thesis using pcs mpmc_writers_exclusive [of "[0 :: nat, 0]" 2 r 2 demo_crowd _ 0 "[1, 2]" 1 0 0 "[1, 2]" 1]
    by auto
qed

text \<open>
  C13: \<^bold>\<open>The cursor never exposes an unfinished message.\<close>  In every reachable state of the multi-producer
  channel the cursor lies within the claimed sequence numbers, and every message up to it has been
  written completely: the stamp of its slot has reached the message's done value.
\<close>

theorem mpmc_cursor_safe:
  assumes "channel_mpmc uninit c = Inr r" "length uninit = w" "mp_reaches w (mp_fresh r) y"
    and "sr_cursor (mq_ring y) \<noteq> u64_max" "q \<le> unat (sr_cursor (mq_ring y))"
  shows "q < unat (MpPublisher_published (mq_ring y)) \<and>
    2 * q + 2 \<le> unat (mp_stamp y (q mod unat c))"
proof -
  note inv = mp_reachable_inv [OF assms(1-3)]
  have vis: "visible y = unat (sr_cursor (mq_ring y)) + 1" using assms(4) by (simp add: visible_def)
  then have q: "q < visible y" using assms(5) by simp
  have n: "unat (MpPublisher_published (mq_ring y)) = length (mq_claims y)"
    using mp_invD(1) [OF inv] by (auto simp: mp_base_def MpPublisher_published_def)
  show ?thesis using mp_invD(5) [OF inv] q unfolding cursor_ok_def n
    by (auto simp: committed_def mp_view)
qed

theorem mpmc_cursor_safe_witness:
  "sr_cursor (mq_ring demo_after) = 0 \<and> 0 < unat (MpPublisher_published (mq_ring demo_after)) \<and>
   2 \<le> unat (mp_stamp demo_after 0)"
proof -
  obtain r where r: "channel_mpmc [0 :: nat, 0] 2 = Inr r" and reach: "mp_reaches 2 (mp_fresh r) demo_after"
    using demo_after_reaches mp_reaches_trans by blast
  have cur: "sr_cursor (mq_ring demo_after) = 0" by code_simp
  then have "0 < unat (MpPublisher_published (mq_ring demo_after)) \<and> 2 * 0 + 2 \<le> unat (mp_stamp demo_after (0 mod unat (2 :: u64)))"
    by (intro mpmc_cursor_safe [OF r _ reach]) simp_all
  then show ?thesis using cur by simp
qed

text \<open>
  C6: \<^bold>\<open>The publishers cannot deadlock, and nothing claimed is lost.\<close>  From every reachable state the
  threads inside \<^verbatim>\<open>publish\<close> can run to their end without any new claim.  In every later state in which all
  threads have left \<^verbatim>\<open>publish\<close>, however it was reached, each of the last \<open>capacity\<close> claimed messages is in its
  slot: a stamp-based read of its sequence number returns the claimed value.  Nothing is said of the
  cursor, which is only a hint to the consumers.
\<close>

theorem mpmc_publishers_drain:
  assumes "channel_mpmc uninit c = Inr r" "length uninit = w" "mp_reaches w (mp_fresh r) y"
  shows "(\<exists>y'. mp_reaches w y y' \<and> mq_claims y' = mq_claims y \<and> (\<forall>t. mq_pc y' t = Idle)) \<and>
    (\<forall>y' q. mp_reaches w y y' \<and> (\<forall>t. mq_pc y' t = Idle) \<and> q < length (mq_claims y') \<and> length (mq_claims y') \<le> q + unat c \<longrightarrow>
       Slot_try_read (sr_slots (mq_ring y') ! (q mod unat c)) (of_nat q) = Inr (Some (mq_claims y' ! q)))"
proof (intro conjI allI impI; (elim conjE)?)
  note inv = mp_reachable_inv [OF assms]
  show "\<exists>y'. mp_reaches w y y' \<and> mq_claims y' = mq_claims y \<and> (\<forall>t. mq_pc y' t = Idle)"
    using publishers_drain [OF inv busy_finite [OF assms(3)]] by simp
  show "Slot_try_read (sr_slots (mq_ring y') ! (q mod unat c)) (of_nat q) = Inr (Some (mq_claims y' ! q))"
    if "mp_reaches w y y'" "\<forall>t. mq_pc y' t = Idle" "q < length (mq_claims y')" "length (mq_claims y') \<le> q + unat c" for y' q
    using idle_read [OF mp_reaches_inv [OF that(1) inv] _ that(3,4)] that(2) by blast
qed

theorem mpmc_publishers_drain_witness:
  "\<exists>y'. mp_reaches 2 demo_crowd y' \<and> mq_claims y' = [[1, 2], [3, 4], [5, 6]] \<and> (\<forall>t. mq_pc y' t = Idle) \<and>
     Slot_try_read (sr_slots (mq_ring y') ! 1) 1 = Inr (Some [3, 4]) \<and>
     Slot_try_read (sr_slots (mq_ring y') ! 0) 2 = Inr (Some [5, 6])"
proof -
  obtain r where r: "channel_mpmc [0 :: nat, 0] 2 = Inr r" and reach: "mp_reaches 2 (mp_fresh r) demo_crowd"
    using demo_crowd_reaches by blast
  have claims: "mq_claims demo_crowd = [[1, 2], [3, 4], [5, 6]]" by code_simp
  note drain = mpmc_publishers_drain [OF r _ reach]
  from drain obtain y' where y': "mp_reaches 2 demo_crowd y'" "\<forall>t. mq_pc y' t = Idle"
      "mq_claims y' = [[1, 2], [3, 4], [5, 6]]"
    using claims by fastforce
  then show ?thesis using conjunct2 [OF drain, rule_format, of y' 1] conjunct2 [OF drain, rule_format, of y' 2] by auto
qed

end
