(* ===== verification/Weak_Memory.thy ===== *)
theory Weak_Memory
  imports Photon_Prelude
begin

text \<open>
  The memory orderings of Rust's atomics, operationally.  A location holds all messages ever written to it, at
  distinct timestamps; the order of the timestamps is the modification order.  A view maps every location to the
  timestamp a thread has seen of it.  A load may return any message that is not older than the thread's view, so that
  threads may see writes to different locations in different orders.  A message carries a view, which a load
  with \<^verbatim>\<open>Acquire\<close> takes over at once and a \<^verbatim>\<open>Relaxed\<close> load only at the next acquire fence; a \<^verbatim>\<open>Release\<close> store attaches
  the view of its thread and a \<^verbatim>\<open>Relaxed\<close> store the view of the thread's last release fence.

  A store may go to any free timestamp above the thread's view, also below those of other threads.  The machine
  has no speculation: a load returns a message that has already been written.
\<close>

section \<open>Views\<close>

type_synonym 'l view = "'l \<Rightarrow> nat"

definition vjoin :: "'l view \<Rightarrow> 'l view \<Rightarrow> 'l view" where
  "vjoin v w = (\<lambda>l. max (v l) (w l))"

definition vseen :: "'l view \<Rightarrow> 'l \<Rightarrow> nat \<Rightarrow> 'l view" where
  "vseen v l t = v(l := max (v l) t)"

record ('l, 'v) message =
  ms_val :: 'v
  ms_view :: "'l view"

type_synonym ('l, 'v) memory = "'l \<Rightarrow> nat \<Rightarrow> ('l, 'v) message option"

text \<open>What a thread has seen, what it will have seen after an acquire fence, and what it had seen at its last release
  fence.\<close>

record 'l tview =
  tv_cur :: "'l view"
  tv_acq :: "'l view"
  tv_rel :: "'l view"

definition tv_init :: "'l tview" where
  "tv_init = \<lparr>tv_cur = (\<lambda>_. 0), tv_acq = (\<lambda>_. 0), tv_rel = (\<lambda>_. 0)\<rparr>"

definition mem_init :: "('l \<Rightarrow> 'v) \<Rightarrow> ('l, 'v) memory" where
  "mem_init f = (\<lambda>l t. if t = 0 then Some \<lparr>ms_val = f l, ms_view = (\<lambda>_. 0)\<rparr> else None)"

section \<open>Accesses and fences\<close>

datatype ordering = Relaxed | Acquire | Release

text \<open>A load of the message at a given timestamp, a store at a given timestamp: \<open>None\<close> when the machine does not
  allow it.\<close>

definition atomic_load ::
    "('l, 'v) memory \<Rightarrow> ordering \<Rightarrow> 'l \<Rightarrow> nat \<Rightarrow> 'l tview \<Rightarrow> ('v \<times> 'l tview) option" where
  "atomic_load M ord l t tv =
     (case M l t of
        None \<Rightarrow> None
      | Some m \<Rightarrow>
          if t < tv_cur tv l then None
          else
            let cur = vseen (tv_cur tv) l t; acq = vjoin (vseen (tv_acq tv) l t) (ms_view m)
            in Some (ms_val m,
                 tv\<lparr>tv_cur := (if ord = Acquire then vjoin cur (ms_view m) else cur), tv_acq := acq\<rparr>))"

definition atomic_store ::
    "('l, 'v) memory \<Rightarrow> ordering \<Rightarrow> 'l \<Rightarrow> nat \<Rightarrow> 'v \<Rightarrow> 'l tview \<Rightarrow> (('l, 'v) memory \<times> 'l tview) option" where
  "atomic_store M ord l t v tv =
     (if M l t \<noteq> None \<or> t \<le> tv_cur tv l then None
      else
        let cur = vseen (tv_cur tv) l t;
            view = (if ord = Release then cur else vseen (tv_rel tv) l t)
        in Some (M(l := (M l)(t \<mapsto> \<lparr>ms_val = v, ms_view = view\<rparr>)),
             tv\<lparr>tv_cur := cur, tv_acq := vseen (tv_acq tv) l t\<rparr>))"

definition fence_acquire :: "'l tview \<Rightarrow> 'l tview" where
  "fence_acquire tv = tv\<lparr>tv_cur := vjoin (tv_cur tv) (tv_acq tv)\<rparr>"

definition fence_release :: "'l tview \<Rightarrow> 'l tview" where
  "fence_release tv = tv\<lparr>tv_rel := tv_cur tv\<rparr>"

section \<open>Lemmas\<close>

lemma vjoin_apply [simp]: "vjoin v w l = max (v l) (w l)"
  by (simp add: vjoin_def)

lemma vseen_apply [simp]: "vseen v l t l' = (if l' = l then max (v l) t else v l')"
  by (simp add: vseen_def)

text \<open>The outcome of a load.\<close>

lemma atomic_loadE:
  assumes "atomic_load M ord l t tv = Some (x, tv')"
  obtains m where "M l t = Some m" "tv_cur tv l \<le> t" "x = ms_val m"
    "\<And>l'. tv_cur tv l' \<le> tv_cur tv' l'" "t \<le> tv_cur tv' l" "\<And>l'. tv_acq tv l' \<le> tv_acq tv' l'"
    "\<And>l'. ms_view m l' \<le> tv_acq tv' l'" "ord = Acquire \<Longrightarrow> (\<And>l'. ms_view m l' \<le> tv_cur tv' l')" "tv_rel tv' = tv_rel tv"
proof -
  from assms obtain m where "M l t = Some m" "tv_cur tv l \<le> t" "x = ms_val m"
    "tv' = tv\<lparr>tv_cur := (if ord = Acquire then vjoin (vseen (tv_cur tv) l t) (ms_view m) else vseen (tv_cur tv) l t),
              tv_acq := vjoin (vseen (tv_acq tv) l t) (ms_view m)\<rparr>"
    by (auto simp: atomic_load_def Let_def split: option.splits if_splits)
  then show thesis by (intro that) auto
qed

text \<open>A view that has seen every message of the memory.\<close>

definition sees_all :: "('l, 'v) memory \<Rightarrow> 'l view \<Rightarrow> bool" where
  "sees_all M v \<longleftrightarrow> (\<forall>l t. M l t \<noteq> None \<longrightarrow> t \<le> v l)"

lemma sees_allD: "sees_all M v \<Longrightarrow> M l t = Some m \<Longrightarrow> t \<le> v l"
  unfolding sees_all_def by blast

lemma sees_all_mono: "sees_all M v \<Longrightarrow> (\<And>l. v l \<le> w l) \<Longrightarrow> sees_all M w"
  unfolding sees_all_def by (meson order_trans)

lemma sees_all_init: "sees_all (mem_init f) v"
  by (simp add: sees_all_def mem_init_def)

text \<open>The outcome of a store by a thread that has seen everything: the new message is the newest of its location, and
  the thread has still seen everything.\<close>

lemma atomic_storeE:
  assumes "atomic_store M ord l t v tv = Some (M', tv')" and "sees_all M (tv_cur tv)"
  obtains m where "M' = M(l := (M l)(t \<mapsto> m))" "M l t = None" "tv_cur tv l < t" "ms_val m = v" "t \<le> ms_view m l"
    "ord = Release \<Longrightarrow> ms_view m = tv_cur tv'" "ord \<noteq> Release \<Longrightarrow> (\<And>l'. tv_rel tv l' \<le> ms_view m l')"
    "tv_cur tv' = vseen (tv_cur tv) l t" "sees_all M' (tv_cur tv')" "tv_rel tv' = tv_rel tv"
proof -
  let ?cur = "vseen (tv_cur tv) l t"
  let ?m = "\<lparr>ms_val = v, ms_view = (if ord = Release then ?cur else vseen (tv_rel tv) l t)\<rparr>"
  from assms(1) have st: "M l t = None" "tv_cur tv l < t" "M' = M(l := (M l)(t \<mapsto> ?m))"
      "tv' = tv\<lparr>tv_cur := ?cur, tv_acq := vseen (tv_acq tv) l t\<rparr>"
    by (auto simp: atomic_store_def Let_def split: if_splits)
  moreover have "sees_all M' (tv_cur tv')"
    using assms(2) st(3,4) unfolding sees_all_def by (auto simp: max.coboundedI1)
  ultimately show thesis by (intro that [of ?m]) auto
qed

section \<open>Views point to messages\<close>

definition view_in :: "('l, 'v) memory \<Rightarrow> 'l view \<Rightarrow> bool" where
  "view_in M v \<longleftrightarrow> (\<forall>l. M l (v l) \<noteq> None)"

definition tview_in :: "('l, 'v) memory \<Rightarrow> 'l tview \<Rightarrow> bool" where
  "tview_in M tv \<longleftrightarrow> view_in M (tv_cur tv) \<and> view_in M (tv_acq tv) \<and> view_in M (tv_rel tv)"

definition mem_in :: "('l, 'v) memory \<Rightarrow> bool" where
  "mem_in M \<longleftrightarrow> view_in M (\<lambda>_. 0) \<and> (\<forall>l t m. M l t = Some m \<longrightarrow> view_in M (ms_view m))"

text \<open>The part of a view that the memory has messages for.\<close>

definition view_clip :: "('l, 'v) memory \<Rightarrow> 'l view \<Rightarrow> 'l view" where
  "view_clip M v = (\<lambda>l. if M l (v l) = None then 0 else v l)"

definition tview_clip :: "('l, 'v) memory \<Rightarrow> 'l tview \<Rightarrow> 'l tview" where
  "tview_clip M tv =
     \<lparr>tv_cur = view_clip M (tv_cur tv), tv_acq = view_clip M (tv_acq tv), tv_rel = view_clip M (tv_rel tv)\<rparr>"

lemma view_in_vjoin [intro]: "view_in M v \<Longrightarrow> view_in M w \<Longrightarrow> view_in M (vjoin v w)"
  by (auto simp: view_in_def max_def)

lemma view_in_vseen [intro]: "view_in M v \<Longrightarrow> M l t \<noteq> None \<Longrightarrow> view_in M (vseen v l t)"
  by (auto simp: view_in_def max_def)

lemma view_in_clip [intro]: "mem_in M \<Longrightarrow> view_in M (view_clip M v)"
  by (auto simp: view_in_def view_clip_def mem_in_def)

lemma tview_in_clip [intro]: "mem_in M \<Longrightarrow> tview_in M (tview_clip M tv)"
  by (auto simp: tview_in_def tview_clip_def)

lemma view_in_upd [intro]: "view_in M v \<Longrightarrow> view_in (M(l := (M l)(t \<mapsto> m))) v"
  by (auto simp: view_in_def)

lemma mem_in_init: "mem_in (mem_init f)" "tview_in (mem_init f) tv_init"
  by (auto simp: mem_in_def tview_in_def view_in_def mem_init_def tv_init_def split: if_splits)

lemma fence_in: "tview_in M tv \<Longrightarrow> tview_in M (fence_acquire tv)" "tview_in M tv \<Longrightarrow> tview_in M (fence_release tv)"
  by (auto simp: tview_in_def fence_acquire_def fence_release_def)

lemma atomic_load_in:
  assumes "mem_in M" "tview_in M tv" "atomic_load M ord l t tv = Some (x, tv')"
  shows "tview_in M tv'"
proof -
  from assms(3) obtain m where m: "M l t = Some m"
    "tv' = tv\<lparr>tv_cur := (if ord = Acquire then vjoin (vseen (tv_cur tv) l t) (ms_view m) else vseen (tv_cur tv) l t),
              tv_acq := vjoin (vseen (tv_acq tv) l t) (ms_view m)\<rparr>"
    by (auto simp: atomic_load_def Let_def split: option.splits if_splits)
  moreover have "view_in M (ms_view m)" using assms(1) m(1) by (auto simp: mem_in_def)
  ultimately show ?thesis using assms(2) by (auto simp: tview_in_def)
qed

text \<open>A load is never blocked: it can return the message the thread has seen last.\<close>

lemma atomic_load_enabled: "tview_in M tv \<Longrightarrow> \<exists>x tv'. atomic_load M ord l (tv_cur tv l) tv = Some (x, tv')"
  by (auto simp: tview_in_def view_in_def atomic_load_def Let_def split: option.splits)

lemma atomic_store_in:
  assumes "mem_in M" "tview_in M tv" "atomic_store M ord l t v tv = Some (M', tv')"
  shows "mem_in M' \<and> tview_in M' tv' \<and> (\<forall>u. view_in M u \<longrightarrow> view_in M' u)"
proof -
  let ?cur = "vseen (tv_cur tv) l t"
  let ?view = "if ord = Release then ?cur else vseen (tv_rel tv) l t"
  from assms(3) have st: "M' = M(l := (M l)(t \<mapsto> \<lparr>ms_val = v, ms_view = ?view\<rparr>))"
      "tv' = tv\<lparr>tv_cur := ?cur, tv_acq := vseen (tv_acq tv) l t\<rparr>"
    by (auto simp: atomic_store_def Let_def split: if_splits)
  have keep: "view_in M' u" if "view_in M u" for u unfolding st(1) using that by (rule view_in_upd)
  have "M' l t \<noteq> None" by (simp add: st(1))
  then have new: "view_in M' (vseen u l t)" if "view_in M u" for u using keep [OF that] by blast
  have "view_in M' (ms_view m)" if "M' a b = Some m" for a b m
  proof (cases "a = l \<and> b = t")
    case True
    then have "ms_view m = ?view" using that by (auto simp: st(1))
    then show ?thesis using new assms(2) by (simp add: tview_in_def)
  next
    case False
    then have "M a b = Some m" using that by (auto simp: st(1) split: if_splits)
    then show ?thesis using keep assms(1) by (auto simp: mem_in_def)
  qed
  then have "mem_in M'" using keep assms(1) by (auto simp: mem_in_def)
  moreover have "tview_in M' tv'" using assms(2) new keep by (simp add: tview_in_def st(2))
  ultimately show ?thesis using keep by blast
qed

end
