(* ===== verification/Weak_Seqlock.thy ===== *)
theory Weak_Seqlock
  imports Weak_Memory
begin

text \<open>
  \<^verbatim>\<open>Slot::write\<close> and \<^verbatim>\<open>Slot::try_read\<close> of the \<^verbatim>\<open>atomic-slots\<close> build (\<^verbatim>\<open>src/src/slot.rs\<close>) with the orderings and
  fences of the source, one access at a time on the machine of theory \<open>Weak_Memory\<close>.  A slot is the stamp and \<open>w\<close>
  payload stripes; the smaller accesses that end a payload of odd size count as stripes of their own.

  A writer records what it does in a history of laps, which no access depends on: for every message the timestamps
  of its two stamps and of its stripes.  The reader is proved correct against any writers that keep the
  history in step with the memory.
\<close>

section \<open>The slot\<close>

datatype slot_loc = StampLoc | WordLoc nat

type_synonym slot_mem = "(slot_loc, u64) memory"
type_synonym slot_tview = "slot_loc tview"

record lap =
  lp_seq :: u64
  lp_value :: "u64 list"
  lp_begin :: nat
  lp_words :: "nat list"
  lp_done :: "nat option"

section \<open>The writer\<close>

datatype slot_writer = WBegin u64 "u64 list" | WFence u64 "u64 list" | WStore u64 "u64 list" nat | WDone

text \<open>One access of \<^verbatim>\<open>Slot::write\<close>, at timestamp \<open>t\<close> if it is a store.\<close>

definition Slot_write_access ::
    "nat \<Rightarrow> slot_mem \<Rightarrow> lap list \<Rightarrow> slot_writer \<Rightarrow> slot_tview \<Rightarrow> (slot_mem \<times> lap list \<times> slot_writer \<times> slot_tview) option" where
  "Slot_write_access t M hs pc tv =
     (case pc of
        WBegin seq v \<Rightarrow>
          (case atomic_store M Relaxed StampLoc t (seq * 2 + 1) tv of
             None \<Rightarrow> None
           | Some (M', tv') \<Rightarrow>
               Some (M', hs @ [\<lparr>lp_seq = seq, lp_value = v, lp_begin = t, lp_words = [], lp_done = None\<rparr>], WFence seq v, tv'))
      | WFence seq v \<Rightarrow> Some (M, hs, WStore seq v 0, fence_release tv)
      | WStore seq v j \<Rightarrow>
          if j < length v
          then
            (case atomic_store M Relaxed (WordLoc j) t (v ! j) tv of
               None \<Rightarrow> None
             | Some (M', tv') \<Rightarrow>
                 Some (M', butlast hs @ [(last hs)\<lparr>lp_words := lp_words (last hs) @ [t]\<rparr>], WStore seq v (Suc j), tv'))
          else
            (case atomic_store M Release StampLoc t (seq * 2 + 2) tv of
               None \<Rightarrow> None
             | Some (M', tv') \<Rightarrow> Some (M', butlast hs @ [(last hs)\<lparr>lp_done := Some t\<rparr>], WDone, tv'))
      | WDone \<Rightarrow> None)"

section \<open>The reader\<close>

datatype slot_reader =
    RStamp u64
  | RWords u64 u64 "u64 list"
  | RCheck u64 u64 "u64 list"
  | RDone u64 "u64 + u64 list option"

primrec sr_seq :: "slot_reader \<Rightarrow> u64" where
  "sr_seq (RStamp seq) = seq"
| "sr_seq (RWords seq s1 buf) = seq"
| "sr_seq (RCheck seq s1 buf) = seq"
| "sr_seq (RDone seq res) = seq"

text \<open>One access of \<^verbatim>\<open>Slot::try_read\<close>, reading the message at timestamp \<open>t\<close> if it is a load.\<close>

definition Slot_try_read_access ::
    "nat \<Rightarrow> nat \<Rightarrow> slot_mem \<Rightarrow> slot_reader \<Rightarrow> slot_tview \<Rightarrow> (slot_reader \<times> slot_tview) option" where
  "Slot_try_read_access w t M rd tv =
     (case rd of
        RStamp seq \<Rightarrow>
          (case atomic_load M Acquire StampLoc t tv of
             None \<Rightarrow> None
           | Some (s1, tv') \<Rightarrow>
               let expected = seq * 2 + 2
               in Some (if s1 = expected then RWords seq s1 []
                        else if s1 AND 1 \<noteq> 0 then RDone seq (Inr None)
                        else RDone seq (Inl s1), tv'))
      | RWords seq s1 buf \<Rightarrow>
          if length buf < w
          then
            (case atomic_load M Relaxed (WordLoc (length buf)) t tv of
               None \<Rightarrow> None
             | Some (v, tv') \<Rightarrow> Some (RWords seq s1 (buf @ [v]), tv'))
          else Some (RCheck seq s1 buf, fence_acquire tv)
      | RCheck seq s1 buf \<Rightarrow>
          (case atomic_load M Relaxed StampLoc t tv of
             None \<Rightarrow> None
           | Some (s2, tv') \<Rightarrow> Some (RDone seq (if s1 = s2 then Inr (Some buf) else Inr None), tv'))
      | RDone seq res \<Rightarrow> None)"

section \<open>The history and the memory\<close>

definition lap_ok :: "nat \<Rightarrow> slot_mem \<Rightarrow> lap \<Rightarrow> bool" where
  "lap_ok w M l \<longleftrightarrow>
     length (lp_value l) = w \<and> length (lp_words l) \<le> w \<and> unat (lp_seq l) < 2 ^ 63 - 1 \<and>
     0 < lp_begin l \<and> M StampLoc (lp_begin l) \<noteq> None \<and>
     (\<forall>j < length (lp_words l). 0 < lp_words l ! j \<and> M (WordLoc j) (lp_words l ! j) \<noteq> None) \<and>
     (\<forall>d. lp_done l = Some d \<longrightarrow> lp_begin l < d \<and> length (lp_words l) = w \<and> M StampLoc d \<noteq> None)"

definition lap_before :: "lap \<Rightarrow> lap \<Rightarrow> bool" where
  "lap_before a b \<longleftrightarrow>
     unat (lp_seq a) < unat (lp_seq b) \<and> (\<exists>d. lp_done a = Some d \<and> d < lp_begin b) \<and>
     (\<forall>j < length (lp_words b). lp_words a ! j < lp_words b ! j)"

definition stamp_of :: "nat \<Rightarrow> lap set \<Rightarrow> nat \<Rightarrow> (slot_loc, u64) message \<Rightarrow> bool" where
  "stamp_of w L t m \<longleftrightarrow>
     t = 0 \<and> ms_val m = 0 \<or>
     (\<exists>l\<in>L. t = lp_begin l \<and> ms_val m = lp_seq l * 2 + 1) \<or>
     (\<exists>l\<in>L. lp_done l = Some t \<and> ms_val m = lp_seq l * 2 + 2 \<and> t \<le> ms_view m StampLoc \<and>
        (\<forall>j < w. lp_words l ! j \<le> ms_view m (WordLoc j)))"

definition word_of :: "lap set \<Rightarrow> nat \<Rightarrow> nat \<Rightarrow> (slot_loc, u64) message \<Rightarrow> bool" where
  "word_of L j t m \<longleftrightarrow>
     t = 0 \<or> (\<exists>l\<in>L. j < length (lp_words l) \<and> t = lp_words l ! j \<and> ms_val m = lp_value l ! j \<and>
       lp_begin l \<le> ms_view m StampLoc)"

definition all_done :: "lap list \<Rightarrow> bool" where
  "all_done hs \<longleftrightarrow> (\<forall>l\<in>set hs. lp_done l \<noteq> None)"

text \<open>The last conjunct is what a writer relies on that takes over from another: the final stamp of a lap carries
  everything written so far.\<close>

definition slot_hist :: "nat \<Rightarrow> slot_mem \<Rightarrow> lap list \<Rightarrow> bool" where
  "slot_hist w M hs \<longleftrightarrow>
     (\<forall>l\<in>set hs. lap_ok w M l) \<and> sorted_wrt lap_before hs \<and>
     (\<forall>t m. M StampLoc t = Some m \<longrightarrow> stamp_of w (set hs) t m) \<and>
     (\<forall>j t m. M (WordLoc j) t = Some m \<longrightarrow> word_of (set hs) j t m) \<and>
     (hs = [] \<longrightarrow> sees_all M (\<lambda>_. 0)) \<and>
     (hs \<noteq> [] \<longrightarrow> (\<forall>d m. lp_done (last hs) = Some d \<and> M StampLoc d = Some m \<longrightarrow> sees_all M (ms_view m)))"

text \<open>Finished laps stay.\<close>

definition hist_grows :: "lap list \<Rightarrow> lap list \<Rightarrow> bool" where
  "hist_grows hs hs' \<longleftrightarrow> (\<forall>l\<in>set hs. lp_done l \<noteq> None \<longrightarrow> l \<in> set hs')"

lemma slot_histD:
  assumes "slot_hist w M hs"
  shows "l \<in> set hs \<Longrightarrow> lap_ok w M l" "sorted_wrt lap_before hs"
    "M StampLoc t = Some m \<Longrightarrow> stamp_of w (set hs) t m" "M (WordLoc j) t = Some m \<Longrightarrow> word_of (set hs) j t m"
    "hs = [] \<Longrightarrow> sees_all M (\<lambda>_. 0)"
    "hs \<noteq> [] \<Longrightarrow> lp_done (last hs) = Some d \<Longrightarrow> M StampLoc d = Some m \<Longrightarrow> sees_all M (ms_view m)"
  using assms unfolding slot_hist_def by blast+

definition slot_mem_init :: "(nat \<Rightarrow> u64) \<Rightarrow> slot_mem" where
  "slot_mem_init f = mem_init (\<lambda>l. case l of StampLoc \<Rightarrow> 0 | WordLoc j \<Rightarrow> f j)"

lemma slot_hist_init: "slot_hist w (slot_mem_init f) []"
proof -
  have "stamp_of w {} t m" if "slot_mem_init f StampLoc t = Some m" for t m
    using that by (auto simp: stamp_of_def slot_mem_init_def mem_init_def split: if_splits)
  moreover have "word_of {} j t m" if "slot_mem_init f (WordLoc j) t = Some m" for j t m
    using that by (auto simp: word_of_def slot_mem_init_def mem_init_def split: if_splits)
  moreover have "sees_all (slot_mem_init f) (\<lambda>_. 0)" unfolding slot_mem_init_def by (rule sees_all_init)
  ultimately show ?thesis unfolding slot_hist_def by simp
qed

lemma sorted_wrt_cases:
  "sorted_wrt R xs \<Longrightarrow> a \<in> set xs \<Longrightarrow> b \<in> set xs \<Longrightarrow> a = b \<or> R a b \<or> R b a"
  by (induction xs) auto

lemma same_lap:
  assumes "slot_hist w M hs" "a \<in> set hs" "b \<in> set hs" "lp_seq a = lp_seq b"
  shows "a = b"
  using sorted_wrt_cases [OF slot_histD(2) [OF assms(1)] assms(2,3)] assms(4) by (auto simp: lap_before_def)

text \<open>Stamps are unambiguous: a done stamp tells its lap.\<close>

lemma done_stamp:
  assumes h: "slot_hist w M hs" and m: "M StampLoc t = Some m" "ms_val m = seq * 2 + 2" and seq: "unat seq < 2 ^ 63 - 1"
  obtains l where "l \<in> set hs" "lp_done l = Some t" "lp_seq l = seq" "t \<le> ms_view m StampLoc"
    "\<forall>j < w. lp_words l ! j \<le> ms_view m (WordLoc j)"
proof -
  have val: "unat (ms_val m) = 2 * unat seq + 2" using m(2) seq by (simp add: unat_u64_stamp_done)
  have lseq: "unat (lp_seq l) < 2 ^ 63 - 1" if "l \<in> set hs" for l using slot_histD(1) [OF h that] by (simp add: lap_ok_def)
  have "ms_val m \<noteq> 0" using val by auto
  moreover have "ms_val m \<noteq> lp_seq l * 2 + 1" if "l \<in> set hs" for l
  proof
    assume "ms_val m = lp_seq l * 2 + 1"
    then have "unat (ms_val m) = 2 * unat (lp_seq l) + 1" using lseq [OF that] by (simp add: unat_u64_stamp)
    then show False using val by presburger
  qed
  ultimately obtain l where l: "l \<in> set hs" "lp_done l = Some t" "ms_val m = lp_seq l * 2 + 2" "t \<le> ms_view m StampLoc"
      "\<forall>j < w. lp_words l ! j \<le> ms_view m (WordLoc j)"
    using slot_histD(3) [OF h m(1)] unfolding stamp_of_def by blast
  have "unat (lp_seq l) = unat seq" using val l(3) lseq [OF l(1)] by (simp add: unat_u64_stamp_done)
  then show thesis using l by (intro that) (auto simp: u64_eq_iff)
qed

section \<open>The writer keeps the history\<close>

text \<open>A writer has seen everything in the slot, and the last lap of the history is its own.\<close>

definition writing_ok :: "nat \<Rightarrow> slot_mem \<Rightarrow> lap list \<Rightarrow> slot_writer \<Rightarrow> slot_tview \<Rightarrow> bool" where
  "writing_ok w M hs pc tv \<longleftrightarrow> sees_all M (tv_cur tv) \<and>
     (case pc of
        WBegin seq v \<Rightarrow>
          length v = w \<and> all_done hs \<and> (\<forall>l\<in>set hs. unat (lp_seq l) < unat seq) \<and> unat seq < 2 ^ 63 - 1
      | WFence seq v \<Rightarrow>
          (\<exists>ys l. hs = ys @ [l] \<and> lp_seq l = seq \<and> lp_value l = v \<and> lp_words l = [] \<and> lp_done l = None \<and>
             lp_begin l \<le> tv_cur tv StampLoc)
      | WStore seq v j \<Rightarrow>
          (\<exists>ys l. hs = ys @ [l] \<and> lp_seq l = seq \<and> lp_value l = v \<and> length (lp_words l) = j \<and> lp_done l = None \<and>
             lp_begin l \<le> tv_rel tv StampLoc)
      | WDone \<Rightarrow> all_done hs)"

lemma lap_ok_upd: "lap_ok w M l \<Longrightarrow> lap_ok w (M(x := (M x)(t \<mapsto> m))) l"
  unfolding lap_ok_def by auto

lemma stamp_of_mono: "stamp_of w L t m \<Longrightarrow> L \<subseteq> L' \<Longrightarrow> stamp_of w L' t m"
  unfolding stamp_of_def by blast

lemma word_of_mono: "word_of L j t m \<Longrightarrow> L \<subseteq> L' \<Longrightarrow> word_of L' j t m"
  unfolding word_of_def by blast

text \<open>The first stamp opens a lap.\<close>

lemma slot_hist_begin:
  assumes h: "slot_hist w M hs" and dn: "all_done hs" and sees: "sees_all M v" and t: "v StampLoc < t"
    and m: "ms_val m = seq * 2 + 1" and seq: "\<forall>l\<in>set hs. unat (lp_seq l) < unat seq" "unat seq < 2 ^ 63 - 1" and len: "length x = w"
  shows "slot_hist w (M(StampLoc := (M StampLoc)(t \<mapsto> m)))
           (hs @ [\<lparr>lp_seq = seq, lp_value = x, lp_begin = t, lp_words = [], lp_done = None\<rparr>])"
    (is "slot_hist w ?M (hs @ [?l])")
proof -
  have "lap_ok w ?M l" if "l \<in> set (hs @ [?l])" for l
    using that slot_histD(1) [OF h] seq(2) len t by (auto intro: lap_ok_upd) (auto simp: lap_ok_def)
  moreover have "lap_before l ?l" if l: "l \<in> set hs" for l
  proof -
    obtain d where d: "lp_done l = Some d" using dn l by (auto simp: all_done_def)
    then have "M StampLoc d \<noteq> None" using slot_histD(1) [OF h l] by (simp add: lap_ok_def)
    then have "d < t" using sees_allD [OF sees] t by fastforce
    then show ?thesis using d seq(1) l by (simp add: lap_before_def)
  qed
  then have "sorted_wrt lap_before (hs @ [?l])" using slot_histD(2) [OF h] by (simp add: sorted_wrt_append)
  moreover have "stamp_of w (set (hs @ [?l])) s m'" if "?M StampLoc s = Some m'" for s m'
  proof (cases "s = t")
    case True
    then show ?thesis using that m by (simp add: stamp_of_def)
  next
    case False
    then show ?thesis using that by (auto intro: stamp_of_mono [OF slot_histD(3) [OF h]])
  qed
  moreover have "word_of (set (hs @ [?l])) j s m'" if "?M (WordLoc j) s = Some m'" for j s m'
    using that by (auto intro: word_of_mono [OF slot_histD(4) [OF h]])
  ultimately show ?thesis unfolding slot_hist_def by simp
qed

text \<open>A stripe extends the last lap, the final stamp closes it.\<close>

lemma slot_hist_word:
  assumes h: "slot_hist w M (ys @ [l])" and l: "lp_done l = None" "length (lp_words l) = j" "j < w"
    and sees: "sees_all M v" and t: "v (WordLoc j) < t" and m: "ms_val m = lp_value l ! j" "lp_begin l \<le> ms_view m StampLoc"
  shows "slot_hist w (M(WordLoc j := (M (WordLoc j))(t \<mapsto> m))) (ys @ [l\<lparr>lp_words := lp_words l @ [t]\<rparr>])"
    (is "slot_hist w ?M (ys @ [?l])")
proof -
  have okl: "lap_ok w M l" using slot_histD(1) [OF h] by simp
  have okys: "lap_ok w M a" if "a \<in> set ys" for a using slot_histD(1) [OF h] that by simp
  have before: "lap_before a l" if "a \<in> set ys" for a using slot_histD(2) [OF h] that by (simp add: sorted_wrt_append)
  have "lap_ok w ?M ?l" using okl l t by (auto simp: lap_ok_def nth_append less_Suc_eq)
  then have "lap_ok w ?M a" if "a \<in> set (ys @ [?l])" for a using that okys by (auto intro: lap_ok_upd)
  moreover have "lap_before a ?l" if a: "a \<in> set ys" for a
  proof -
    have "length (lp_words a) = w" using before [OF a] okys [OF a] by (auto simp: lap_before_def lap_ok_def)
    then have "M (WordLoc j) (lp_words a ! j) \<noteq> None" using okys [OF a] l(3) by (simp add: lap_ok_def)
    then have "lp_words a ! j < t" using sees_allD [OF sees] t by fastforce
    then show ?thesis using before [OF a] l(2) by (auto simp: lap_before_def nth_append less_Suc_eq)
  qed
  then have "sorted_wrt lap_before (ys @ [?l])" using slot_histD(2) [OF h] by (simp add: sorted_wrt_append)
  moreover have "stamp_of w (set (ys @ [?l])) s m'" if "?M StampLoc s = Some m'" for s m'
    using that slot_histD(3) [OF h, of s m'] l(1) by (auto simp: stamp_of_def)
  moreover have "word_of (set (ys @ [?l])) i s m'" if "?M (WordLoc i) s = Some m'" for i s m'
  proof (cases "i = j \<and> s = t")
    case True
    then show ?thesis using that m l(2) by (auto simp: word_of_def)
  next
    case False
    then have "word_of (set (ys @ [l])) i s m'" using that slot_histD(4) [OF h, of i s m'] by (auto split: if_splits)
    then show ?thesis using l(2) by (auto simp: word_of_def nth_append)
  qed
  ultimately show ?thesis using l(1) unfolding slot_hist_def by simp
qed

lemma slot_hist_done:
  assumes h: "slot_hist w M (ys @ [l])" and l: "lp_done l = None" "length (lp_words l) = w"
    and sees: "sees_all M v" and t: "v StampLoc < t" and m: "ms_val m = lp_seq l * 2 + 2" "t \<le> ms_view m StampLoc"
    and sees': "sees_all (M(StampLoc := (M StampLoc)(t \<mapsto> m))) (ms_view m)"
  shows "slot_hist w (M(StampLoc := (M StampLoc)(t \<mapsto> m))) (ys @ [l\<lparr>lp_done := Some t\<rparr>])"
    (is "slot_hist w ?M (ys @ [?l])")
proof -
  have okl: "lap_ok w M l" using slot_histD(1) [OF h] by simp
  then have "M StampLoc (lp_begin l) \<noteq> None" by (simp add: lap_ok_def)
  then have "lp_begin l < t" using sees_allD [OF sees] t by fastforce
  then have "lap_ok w ?M ?l" using okl l by (auto simp: lap_ok_def)
  then have "lap_ok w ?M a" if "a \<in> set (ys @ [?l])" for a using that slot_histD(1) [OF h] by (auto intro: lap_ok_upd)
  moreover have "lap_before a ?l" if "a \<in> set ys" for a
    using slot_histD(2) [OF h] that by (simp add: sorted_wrt_append lap_before_def)
  then have "sorted_wrt lap_before (ys @ [?l])" using slot_histD(2) [OF h] by (simp add: sorted_wrt_append)
  moreover have "stamp_of w (set (ys @ [?l])) s m'" if "?M StampLoc s = Some m'" for s m'
  proof (cases "s = t")
    case True
    have "M (WordLoc j) (lp_words l ! j) \<noteq> None" if "j < w" for j using okl l(2) that by (simp add: lap_ok_def)
    then have "lp_words l ! j \<le> ms_view m (WordLoc j)" if "j < w" for j using sees' that by (auto simp: sees_all_def)
    then show ?thesis using True that m by (simp add: stamp_of_def)
  next
    case False
    then show ?thesis using that slot_histD(3) [OF h, of s m'] l(1) by (auto simp: stamp_of_def)
  qed
  moreover have "word_of (set (ys @ [?l])) i s m'" if "?M (WordLoc i) s = Some m'" for i s m'
    using that slot_histD(4) [OF h, of i s m'] by (auto simp: word_of_def)
  moreover have "sees_all ?M (ms_view m')" if "?M StampLoc t = Some m'" for m' using that sees' by simp
  ultimately show ?thesis unfolding slot_hist_def by simp
qed

lemma hist_grows_append [simp]: "hist_grows hs (hs @ ls)"
  by (simp add: hist_grows_def)

lemma hist_grows_last: "lp_done l = None \<Longrightarrow> hist_grows (ys @ [l]) (ys @ [l'])"
  by (auto simp: hist_grows_def)

lemma writing_ok_access:
  assumes h: "slot_hist w M hs" and ok: "writing_ok w M hs pc tv"
    and a: "Slot_write_access t M hs pc tv = Some (M', hs', pc', tv')"
  shows "slot_hist w M' hs' \<and> writing_ok w M' hs' pc' tv' \<and> hist_grows hs hs'"
proof (cases pc)
  case (WBegin seq v)
  then have pre: "sees_all M (tv_cur tv)" "length v = w" "all_done hs" "\<forall>l\<in>set hs. unat (lp_seq l) < unat seq"
      "unat seq < 2 ^ 63 - 1"
    using ok by (auto simp: writing_ok_def)
  have st: "atomic_store M Relaxed StampLoc t (seq * 2 + 1) tv = Some (M', tv')" and pc': "pc' = WFence seq v" and
      hs': "hs' = hs @ [\<lparr>lp_seq = seq, lp_value = v, lp_begin = t, lp_words = [], lp_done = None\<rparr>]"
    using a WBegin by (auto simp: Slot_write_access_def split: option.splits)
  obtain m where m: "M' = M(StampLoc := (M StampLoc)(t \<mapsto> m))" "tv_cur tv StampLoc < t" "ms_val m = seq * 2 + 1"
      "tv_cur tv' = vseen (tv_cur tv) StampLoc t" "sees_all M' (tv_cur tv')"
    by (rule atomic_storeE [OF st pre(1)]) simp
  have "slot_hist w M' hs'"
    unfolding m(1) hs' by (rule slot_hist_begin [OF h pre(3,1), where t = t and m = m and seq = seq and x = v]) (use m pre in auto)
  moreover have "writing_ok w M' hs' pc' tv'" using m(4,5) hs' pc' by (simp add: writing_ok_def)
  ultimately show ?thesis using hs' by simp
next
  case (WFence seq v)
  then have "M' = M" "hs' = hs" "pc' = WStore seq v 0" "tv' = fence_release tv" using a by (auto simp: Slot_write_access_def)
  then show ?thesis using h ok WFence by (auto simp: writing_ok_def fence_release_def hist_grows_def)
next
  case (WStore seq v j)
  then obtain ys l where l: "hs = ys @ [l]" "lp_seq l = seq" "lp_value l = v" "length (lp_words l) = j" "lp_done l = None"
      "lp_begin l \<le> tv_rel tv StampLoc" and sees: "sees_all M (tv_cur tv)"
    using ok by (auto simp: writing_ok_def)
  have okl: "lap_ok w M l" using slot_histD(1) [OF h] l(1) by simp
  then have len: "length v = w" "j \<le> w" using l(3,4) by (auto simp: lap_ok_def)
  note h' = h [unfolded l(1)]
  show ?thesis
  proof (cases "j < length v")
    case True
    have st: "atomic_store M Relaxed (WordLoc j) t (v ! j) tv = Some (M', tv')" and pc': "pc' = WStore seq v (Suc j)" and
        hs': "hs' = ys @ [l\<lparr>lp_words := lp_words l @ [t]\<rparr>]"
      using a WStore True l(1) by (auto simp: Slot_write_access_def split: option.splits)
    obtain m where m: "M' = M(WordLoc j := (M (WordLoc j))(t \<mapsto> m))" "tv_cur tv (WordLoc j) < t" "ms_val m = v ! j"
        "\<And>l'. tv_rel tv l' \<le> ms_view m l'" "sees_all M' (tv_cur tv')" "tv_rel tv' = tv_rel tv"
      by (rule atomic_storeE [OF st sees]) simp
    have "lp_begin l \<le> ms_view m StampLoc" using l(6) m(4) by (rule order_trans)
    then have "slot_hist w M' hs'" using slot_hist_word [OF h' l(5,4) _ sees m(2)] True len m(1,3) l(3) hs' by simp
    moreover have "writing_ok w M' hs' pc' tv'" using m(5,6) hs' pc' l by (auto simp: writing_ok_def)
    ultimately show ?thesis using hs' l(1,5) by (simp add: hist_grows_last)
  next
    case False
    then have j: "j = w" using len by simp
    have st: "atomic_store M Release StampLoc t (seq * 2 + 2) tv = Some (M', tv')" and pc': "pc' = WDone" and
        hs': "hs' = ys @ [l\<lparr>lp_done := Some t\<rparr>]"
      using a WStore False l(1) by (auto simp: Slot_write_access_def split: option.splits)
    obtain m where m: "M' = M(StampLoc := (M StampLoc)(t \<mapsto> m))" "tv_cur tv StampLoc < t" "ms_val m = seq * 2 + 2"
        "t \<le> ms_view m StampLoc" "ms_view m = tv_cur tv'" "sees_all M' (tv_cur tv')"
      by (rule atomic_storeE [OF st sees]) simp
    have "slot_hist w M' hs'" using slot_hist_done [OF h' l(5) _ sees m(2) _ m(4)] m(1,3,5,6) l(2,4) j hs' by simp
    moreover have "all_done hs'"
      using hs' slot_histD(2) [OF h'] by (auto simp: all_done_def sorted_wrt_append lap_before_def)
    then have "writing_ok w M' hs' pc' tv'" using m(6) pc' by (simp add: writing_ok_def)
    ultimately show ?thesis using hs' l(1,5) by (simp add: hist_grows_last)
  qed
next
  case WDone
  then show ?thesis using a by (simp add: Slot_write_access_def)
qed

text \<open>Which message a writer is at, and what it adds to the sequence numbers of the history.\<close>

primrec writes_seq :: "slot_writer \<Rightarrow> u64 option" where
  "writes_seq (WBegin seq v) = Some seq"
| "writes_seq (WFence seq v) = Some seq"
| "writes_seq (WStore seq v j) = Some seq"
| "writes_seq WDone = None"

primrec begins_seq :: "slot_writer \<Rightarrow> u64 list" where
  "begins_seq (WBegin seq v) = [seq]"
| "begins_seq (WFence seq v) = []"
| "begins_seq (WStore seq v j) = []"
| "begins_seq WDone = []"

lemma write_access_seqs:
  assumes "writing_ok w M hs pc tv" "Slot_write_access t M hs pc tv = Some (M', hs', pc', tv')"
  shows "map lp_seq hs' = map lp_seq hs @ begins_seq pc" "begins_seq pc' = []" "writes_seq pc \<noteq> None"
    "pc' \<noteq> WDone \<Longrightarrow> writes_seq pc' = writes_seq pc"
proof -
  consider (Begin) seq v where "pc = WBegin seq v" | (Fence) seq v where "pc = WFence seq v" | (Store) seq v j where "pc = WStore seq v j"
    using assms(2) by (cases pc) (auto simp: Slot_write_access_def)
  then have "map lp_seq hs' = map lp_seq hs @ begins_seq pc \<and> begins_seq pc' = [] \<and> writes_seq pc \<noteq> None \<and>
      (pc' \<noteq> WDone \<longrightarrow> writes_seq pc' = writes_seq pc)"
  proof cases
    case Store
    then obtain ys l where "hs = ys @ [l]" using assms(1) by (auto simp: writing_ok_def)
    then show ?thesis using Store assms(2) by (auto simp: Slot_write_access_def split: option.splits if_splits)
  qed (use assms(2) in \<open>auto simp: Slot_write_access_def split: option.splits\<close>)
  then show "map lp_seq hs' = map lp_seq hs @ begins_seq pc" "begins_seq pc' = []" "writes_seq pc \<noteq> None"
    "pc' \<noteq> WDone \<Longrightarrow> writes_seq pc' = writes_seq pc" by blast+
qed

lemma write_access_in:
  assumes "mem_in M" "tview_in M tv" "Slot_write_access t M hs pc tv = Some (M', hs', pc', tv')"
  shows "mem_in M' \<and> tview_in M' tv' \<and> (\<forall>u. view_in M u \<longrightarrow> view_in M' u)"
proof -
  have "M' = M \<and> tv' = fence_release tv \<or> (\<exists>ord l v. atomic_store M ord l t v tv = Some (M', tv'))"
    using assms(3) by (auto simp: Slot_write_access_def split: slot_writer.splits option.splits if_splits)
  then show ?thesis using assms(1,2) atomic_store_in fence_in(2) by metis
qed

section \<open>The reader is safe\<close>

definition weak_reader_ok :: "nat \<Rightarrow> lap list \<Rightarrow> slot_reader \<Rightarrow> slot_tview \<Rightarrow> bool" where
  "weak_reader_ok w hs rd tv \<longleftrightarrow>
     (case rd of
        RStamp seq \<Rightarrow> True
      | RWords seq s1 buf \<Rightarrow>
          s1 = seq * 2 + 2 \<and> length buf \<le> w \<and>
          (\<exists>l\<in>set hs. \<exists>d. lp_seq l = seq \<and> lp_done l = Some d \<and> d \<le> tv_cur tv StampLoc \<and>
             (\<forall>j < w. lp_words l ! j \<le> tv_cur tv (WordLoc j)) \<and>
             (buf = take (length buf) (lp_value l) \<or> d < tv_acq tv StampLoc))
      | RCheck seq s1 buf \<Rightarrow>
          s1 = seq * 2 + 2 \<and>
          (\<exists>l\<in>set hs. \<exists>d. lp_seq l = seq \<and> lp_done l = Some d \<and> (buf = lp_value l \<or> d < tv_cur tv StampLoc))
      | RDone seq res \<Rightarrow>
          (\<forall>buf. res = Inr (Some buf) \<longrightarrow> (\<exists>l\<in>set hs. lp_seq l = seq \<and> lp_done l \<noteq> None \<and> buf = lp_value l)))"

lemma weak_reader_ok_grows:
  assumes "weak_reader_ok w hs rd tv" "hist_grows hs hs'"
  shows "weak_reader_ok w hs' rd tv"
proof -
  have "l \<in> set hs'" if "l \<in> set hs" "lp_done l = Some d" for l d
    using assms(2) that unfolding hist_grows_def by auto
  then show ?thesis using assms(1) unfolding weak_reader_ok_def by (cases rd) (simp_all, blast+)
qed

text \<open>A stripe that is not of the reader's message is of a later one, and brings the stamp of that later message with
  it.\<close>

lemma stripe_cases:
  assumes h: "slot_hist w M hs" and l: "l \<in> set hs" "lp_done l = Some d" and j: "j < w"
    and m: "M (WordLoc j) t = Some m" and t: "lp_words l ! j \<le> t"
  shows "ms_val m = lp_value l ! j \<or> d < ms_view m StampLoc"
proof -
  have ok: "lap_ok w M l" using slot_histD(1) [OF h l(1)] .
  then have len: "length (lp_words l) = w" and "0 < lp_words l ! j" using l(2) j by (auto simp: lap_ok_def)
  then obtain l' where l': "l' \<in> set hs" "j < length (lp_words l')" "t = lp_words l' ! j" "ms_val m = lp_value l' ! j"
      "lp_begin l' \<le> ms_view m StampLoc"
    using slot_histD(4) [OF h m] t unfolding word_of_def by auto
  consider "l' = l" | "lap_before l l'" | "lap_before l' l" using sorted_wrt_cases [OF slot_histD(2) [OF h] l(1) l'(1)] by auto
  then show ?thesis
  proof cases
    case 1
    then show ?thesis using l'(4) by simp
  next
    case 2
    then have "d < lp_begin l'" using l(2) by (auto simp: lap_before_def)
    then show ?thesis using l'(5) by simp
  next
    case 3
    then have "lp_words l' ! j < lp_words l ! j" using len j by (auto simp: lap_before_def)
    then show ?thesis using t l'(3) by simp
  qed
qed

lemma weak_reader_ok_access:
  assumes h: "slot_hist w M hs" and ok: "weak_reader_ok w hs rd tv" and fit: "unat (sr_seq rd) < 2 ^ 63 - 1"
    and a: "Slot_try_read_access w t M rd tv = Some (rd', tv')"
  shows "weak_reader_ok w hs rd' tv' \<and> sr_seq rd' = sr_seq rd"
proof (cases rd)
  case (RStamp seq)
  obtain s1 where ld: "atomic_load M Acquire StampLoc t tv = Some (s1, tv')" and
      rd': "rd' = (if s1 = seq * 2 + 2 then RWords seq s1 [] else if s1 AND 1 \<noteq> 0 then RDone seq (Inr None) else RDone seq (Inl s1))"
    using a RStamp by (auto simp: Slot_try_read_access_def Let_def split: option.splits)
  show ?thesis
  proof (cases "s1 = seq * 2 + 2")
    case True
    obtain m where m: "M StampLoc t = Some m" "s1 = ms_val m" "\<And>l'. ms_view m l' \<le> tv_cur tv' l'"
      using atomic_loadE [OF ld] by metis
    have "ms_val m = seq * 2 + 2" using True m(2) by simp
    moreover have "unat seq < 2 ^ 63 - 1" using fit RStamp by simp
    ultimately obtain l where l: "l \<in> set hs" "lp_done l = Some t" "lp_seq l = seq" "t \<le> ms_view m StampLoc"
        "\<forall>j < w. lp_words l ! j \<le> ms_view m (WordLoc j)"
      using done_stamp [OF h m(1)] by metis
    have "t \<le> tv_cur tv' StampLoc" "\<forall>j < w. lp_words l ! j \<le> tv_cur tv' (WordLoc j)"
      using l(4,5) m(3) by (meson order_trans)+
    then show ?thesis using True rd' l(1,2,3) RStamp by (auto simp: weak_reader_ok_def)
  next
    case False
    then show ?thesis using rd' RStamp by (simp add: weak_reader_ok_def)
  qed
next
  case (RWords seq s1 buf)
  then obtain l d where l: "l \<in> set hs" "lp_seq l = seq" "lp_done l = Some d" "d \<le> tv_cur tv StampLoc"
      "\<forall>j < w. lp_words l ! j \<le> tv_cur tv (WordLoc j)" "buf = take (length buf) (lp_value l) \<or> d < tv_acq tv StampLoc"
      and s1: "s1 = seq * 2 + 2" "length buf \<le> w"
    using ok by (auto simp: weak_reader_ok_def)
  have len: "length (lp_value l) = w" using slot_histD(1) [OF h l(1)] by (simp add: lap_ok_def)
  show ?thesis
  proof (cases "length buf < w")
    case True
    obtain v where ld: "atomic_load M Relaxed (WordLoc (length buf)) t tv = Some (v, tv')" and rd': "rd' = RWords seq s1 (buf @ [v])"
      using a RWords True by (auto simp: Slot_try_read_access_def split: option.splits)
    obtain m where m: "M (WordLoc (length buf)) t = Some m" "tv_cur tv (WordLoc (length buf)) \<le> t" "v = ms_val m"
        "\<And>l'. tv_cur tv l' \<le> tv_cur tv' l'" "\<And>l'. tv_acq tv l' \<le> tv_acq tv' l'" "\<And>l'. ms_view m l' \<le> tv_acq tv' l'"
      using atomic_loadE [OF ld] by metis
    have "lp_words l ! length buf \<le> t" using l(5) True m(2) by (meson order_trans)
    note stripe = stripe_cases [OF h l(1,3) True m(1) this]
    have "buf @ [v] = take (length (buf @ [v])) (lp_value l) \<or> d < tv_acq tv' StampLoc"
      using stripe l(6) m(3) m(5,6) [of StampLoc] True len by (auto simp: take_Suc_conv_app_nth)
    moreover have "d \<le> tv_cur tv' StampLoc" "\<forall>j < w. lp_words l ! j \<le> tv_cur tv' (WordLoc j)"
      using l(4,5) m(4) by (meson order_trans)+
    ultimately show ?thesis using l(1,2,3) s1(1) True rd' RWords by (auto simp: weak_reader_ok_def)
  next
    case False
    then have "rd' = RCheck seq s1 buf" "tv' = fence_acquire tv" "length buf = w"
      using a RWords s1(2) by (auto simp: Slot_try_read_access_def)
    then show ?thesis using l(1,2,3,6) len s1(1) RWords by (auto simp: weak_reader_ok_def fence_acquire_def less_max_iff_disj)
  qed
next
  case (RCheck seq s1 buf)
  then obtain l d where l: "l \<in> set hs" "lp_seq l = seq" "lp_done l = Some d" "buf = lp_value l \<or> d < tv_cur tv StampLoc"
      and s1: "s1 = seq * 2 + 2"
    using ok by (auto simp: weak_reader_ok_def)
  obtain s2 where ld: "atomic_load M Relaxed StampLoc t tv = Some (s2, tv')" and
      rd': "rd' = RDone seq (if s1 = s2 then Inr (Some buf) else Inr None)"
    using a RCheck by (auto simp: Slot_try_read_access_def split: option.splits)
  have "buf = lp_value l" if "s1 = s2"
  proof -
    obtain m where m: "M StampLoc t = Some m" "tv_cur tv StampLoc \<le> t" "s2 = ms_val m" using atomic_loadE [OF ld] by metis
    have "ms_val m = seq * 2 + 2" using that s1 m(3) by simp
    moreover have "unat seq < 2 ^ 63 - 1" using fit RCheck by simp
    ultimately obtain l' where "l' \<in> set hs" "lp_done l' = Some t" "lp_seq l' = seq" using done_stamp [OF h m(1)] by metis
    then have "t = d" using same_lap [OF h l(1)] l(2,3) by auto
    then show ?thesis using l(4) m(2) by simp
  qed
  then show ?thesis using l(1,2,3) rd' RCheck by (auto simp: weak_reader_ok_def)
next
  case (RDone seq res)
  then show ?thesis using a by (simp add: Slot_try_read_access_def)
qed

text \<open>A read is never blocked, and ends after \<open>w + 3\<close> accesses at the latest.\<close>

lemma read_access_in:
  assumes "mem_in M" "tview_in M tv" "Slot_try_read_access w t M rd tv = Some (rd', tv')"
  shows "tview_in M tv'"
proof -
  have "tv' = fence_acquire tv \<or> (\<exists>ord l x. atomic_load M ord l t tv = Some (x, tv'))"
    using assms(3) by (auto simp: Slot_try_read_access_def Let_def split: slot_reader.splits option.splits if_splits)
  then show ?thesis using assms(1,2) atomic_load_in fence_in(1) by metis
qed

primrec reads_left :: "nat \<Rightarrow> slot_reader \<Rightarrow> nat" where
  "reads_left w (RStamp seq) = w + 3"
| "reads_left w (RWords seq s1 buf) = w - length buf + 2"
| "reads_left w (RCheck seq s1 buf) = 1"
| "reads_left w (RDone seq res) = 0"

lemma read_access_less:
  "Slot_try_read_access w t M rd tv = Some (rd', tv') \<Longrightarrow> reads_left w rd' < reads_left w rd"
  by (cases rd) (auto simp: Slot_try_read_access_def Let_def split: option.splits if_splits)

lemma read_access_enabled:
  assumes "tview_in M tv" "0 < reads_left w rd"
  obtains t r where "Slot_try_read_access w t M rd tv = Some r"
proof (cases rd)
  case (RStamp seq)
  obtain x tv' where "atomic_load M Acquire StampLoc (tv_cur tv StampLoc) tv = Some (x, tv')"
    using atomic_load_enabled [OF assms(1)] by blast
  then show thesis using RStamp by (intro that [of "tv_cur tv StampLoc"]) (simp add: Slot_try_read_access_def Let_def)
next
  case (RWords seq s1 buf)
  let ?l = "WordLoc (length buf)"
  obtain x tv' where "atomic_load M Relaxed ?l (tv_cur tv ?l) tv = Some (x, tv')"
    using atomic_load_enabled [OF assms(1)] by blast
  then show thesis using RWords that [of "tv_cur tv ?l"] by (cases "length buf < w") (simp_all add: Slot_try_read_access_def)
next
  case (RCheck seq s1 buf)
  obtain x tv' where "atomic_load M Relaxed StampLoc (tv_cur tv StampLoc) tv = Some (x, tv')"
    using atomic_load_enabled [OF assms(1)] by blast
  then show thesis using RCheck by (intro that [of "tv_cur tv StampLoc"]) (simp add: Slot_try_read_access_def)
next
  case (RDone seq res)
  then show thesis using assms(2) by simp
qed

section \<open>A reader that has seen the newest stamp gets the message\<close>

definition reader_newest :: "nat \<Rightarrow> lap \<Rightarrow> nat \<Rightarrow> slot_reader \<Rightarrow> slot_tview \<Rightarrow> bool" where
  "reader_newest w l d rd tv \<longleftrightarrow> sr_seq rd = lp_seq l \<and>
     (case rd of
        RStamp seq \<Rightarrow> d \<le> tv_cur tv StampLoc
      | RWords seq s1 buf \<Rightarrow>
          s1 = seq * 2 + 2 \<and> length buf \<le> w \<and> buf = take (length buf) (lp_value l) \<and> d \<le> tv_cur tv StampLoc \<and>
          (\<forall>j < w. lp_words l ! j \<le> tv_cur tv (WordLoc j))
      | RCheck seq s1 buf \<Rightarrow> s1 = seq * 2 + 2 \<and> buf = lp_value l \<and> d \<le> tv_cur tv StampLoc
      | RDone seq res \<Rightarrow> res = Inr (Some (lp_value l)))"

lemma last_lap:
  assumes h: "slot_hist w M hs" and "hs \<noteq> []" "l' \<in> set hs"
  shows "l' = last hs \<or> lap_before l' (last hs)"
proof -
  obtain ys l where "hs = ys @ [l]" using assms(2) by (metis rev_exhaust)
  then show ?thesis using slot_histD(2) [OF h] assms(3) by (auto simp: sorted_wrt_append)
qed

lemma newest_stamp:
  assumes h: "slot_hist w M hs" and l: "hs \<noteq> []" "lp_done (last hs) = Some d" and m: "M StampLoc t = Some m" "d \<le> t"
  shows "ms_val m = lp_seq (last hs) * 2 + 2 \<and> (\<forall>j < w. lp_words (last hs) ! j \<le> ms_view m (WordLoc j))"
proof -
  have ok: "lap_ok w M l'" if "l' \<in> set hs" for l' using slot_histD(1) [OF h that] .
  have d: "lp_begin (last hs) < d" using ok [of "last hs"] l by (simp add: lap_ok_def)
  have old: "lp_begin l' < d \<and> (l' \<noteq> last hs \<longrightarrow> lp_done l' \<noteq> Some t)" if "l' \<in> set hs" for l'
    using last_lap [OF h l(1) that] ok [OF that] d m(2) by (auto simp: lap_before_def lap_ok_def)
  then have "\<not> (t = lp_begin l' \<and> ms_val m = lp_seq l' * 2 + 1)" if "l' \<in> set hs" for l' using that m(2) by fastforce
  then show ?thesis using slot_histD(3) [OF h m(1)] old d m(2) unfolding stamp_of_def by blast
qed

lemma newest_stripe:
  assumes h: "slot_hist w M hs" and l: "hs \<noteq> []" "lp_done (last hs) = Some d" and j: "j < w"
    and m: "M (WordLoc j) t = Some m" "lp_words (last hs) ! j \<le> t"
  shows "ms_val m = lp_value (last hs) ! j"
proof -
  have "lap_ok w M (last hs)" using slot_histD(1) [OF h] l(1) by simp
  then have w: "length (lp_words (last hs)) = w" "0 < lp_words (last hs) ! j" using l(2) j by (auto simp: lap_ok_def)
  then obtain l' where l': "l' \<in> set hs" "t = lp_words l' ! j" "ms_val m = lp_value l' ! j"
    using slot_histD(4) [OF h m(1)] m(2) unfolding word_of_def by auto
  then show ?thesis using last_lap [OF h l(1) l'(1)] w(1) j m(2) by (auto simp: lap_before_def)
qed

lemma reader_newest_access:
  assumes h: "slot_hist w M hs" and l: "hs \<noteq> []" "lp_done (last hs) = Some d"
    and ok: "reader_newest w (last hs) d rd tv" and a: "Slot_try_read_access w t M rd tv = Some (rd', tv')"
  shows "reader_newest w (last hs) d rd' tv'"
proof (cases rd)
  case (RStamp seq)
  obtain s1 where ld: "atomic_load M Acquire StampLoc t tv = Some (s1, tv')" and
      rd': "rd' = (if s1 = seq * 2 + 2 then RWords seq s1 [] else if s1 AND 1 \<noteq> 0 then RDone seq (Inr None) else RDone seq (Inl s1))"
    using a RStamp by (auto simp: Slot_try_read_access_def Let_def split: option.splits)
  obtain m where m: "M StampLoc t = Some m" "tv_cur tv StampLoc \<le> t" "s1 = ms_val m" "t \<le> tv_cur tv' StampLoc"
      "\<And>l'. ms_view m l' \<le> tv_cur tv' l'"
    using atomic_loadE [OF ld] by metis
  have seen: "seq = lp_seq (last hs)" "d \<le> t" using ok RStamp m(2) by (auto simp: reader_newest_def)
  then show ?thesis using newest_stamp [OF h l m(1)] rd' m(3,4) order_trans [OF _ m(5)] by (simp add: reader_newest_def)
next
  case (RWords seq s1 buf)
  note pre = ok [unfolded RWords reader_newest_def, simplified]
  have len: "length (lp_value (last hs)) = w" using slot_histD(1) [OF h] l(1) by (simp add: lap_ok_def)
  show ?thesis
  proof (cases "length buf < w")
    case True
    obtain v where ld: "atomic_load M Relaxed (WordLoc (length buf)) t tv = Some (v, tv')" and rd': "rd' = RWords seq s1 (buf @ [v])"
      using a RWords True by (auto simp: Slot_try_read_access_def split: option.splits)
    obtain m where m: "M (WordLoc (length buf)) t = Some m" "tv_cur tv (WordLoc (length buf)) \<le> t" "v = ms_val m"
        "\<And>l'. tv_cur tv l' \<le> tv_cur tv' l'"
      using atomic_loadE [OF ld] by metis
    have "v = lp_value (last hs) ! length buf" using newest_stripe [OF h l True m(1)] pre True m(2,3) by (meson order_trans)
    then have "buf @ [v] = take (Suc (length buf)) (lp_value (last hs))" using pre True len by (simp add: take_Suc_conv_app_nth)
    then show ?thesis using pre True rd' len order_trans [OF _ m(4)] by (simp add: reader_newest_def)
  next
    case False
    then have "rd' = RCheck seq s1 buf" "tv' = fence_acquire tv" using a RWords by (auto simp: Slot_try_read_access_def)
    then show ?thesis using pre False len by (simp add: reader_newest_def fence_acquire_def le_max_iff_disj)
  qed
next
  case (RCheck seq s1 buf)
  obtain s2 where ld: "atomic_load M Relaxed StampLoc t tv = Some (s2, tv')" and
      rd': "rd' = RDone seq (if s1 = s2 then Inr (Some buf) else Inr None)"
    using a RCheck by (auto simp: Slot_try_read_access_def split: option.splits)
  obtain m where m: "M StampLoc t = Some m" "tv_cur tv StampLoc \<le> t" "s2 = ms_val m" using atomic_loadE [OF ld] by metis
  have seen: "seq = lp_seq (last hs)" "d \<le> t" "s1 = seq * 2 + 2" "buf = lp_value (last hs)"
    using ok RCheck m(2) by (auto simp: reader_newest_def)
  then show ?thesis using newest_stamp [OF h l m(1)] rd' m(3) by (simp add: reader_newest_def)
next
  case (RDone seq res)
  then show ?thesis using a by (simp add: Slot_try_read_access_def)
qed

end
