(* ===== verification/Weak_Readers.thy ===== *)
theory Weak_Readers
  imports Weak_Seqlock
begin

text \<open>
  Readers of one slot beside its writers, under the memory orderings of the source: any number of readers, each load
  choosing among the messages the machine allows it.  Against the contract of locale \<open>weak_writers\<close> it is proved once
  that an accepted value is a published one, and that a reader that has seen the final stamp of the newest message
  always gets it.  What a reader does before and between its reads may change what it has seen
  arbitrarily.
\<close>

section \<open>Readers beside writers\<close>

type_synonym slot_readers = "nat \<Rightarrow> slot_reader \<times> slot_tview"

definition no_reads :: slot_readers where
  "no_reads = (\<lambda>_. (RDone 0 (Inr None), tv_init))"

inductive weak_run ::
    "nat \<Rightarrow> ('a \<Rightarrow> 's \<Rightarrow> 's option) \<Rightarrow> ('s \<Rightarrow> slot_mem) \<Rightarrow> 's \<Rightarrow> 's \<Rightarrow> slot_readers \<Rightarrow> bool"
  for w act mem s0 where
  start: "weak_run w act mem s0 s0 no_reads"
| writer: "weak_run w act mem s0 s rs \<Longrightarrow> act a s = Some s' \<Longrightarrow> weak_run w act mem s0 s' rs"
| begin_read: "weak_run w act mem s0 s rs \<Longrightarrow> rs i = (RDone q res, tv) \<Longrightarrow> unat seq < 2 ^ 63 - 1 \<Longrightarrow>
    weak_run w act mem s0 s (rs(i := (RStamp seq, tview_clip (mem s) tv')))"
| reader: "weak_run w act mem s0 s rs \<Longrightarrow> rs i = (rd, tv) \<Longrightarrow> Slot_try_read_access w t (mem s) rd tv = Some (rd', tv') \<Longrightarrow>
    weak_run w act mem s0 s (rs(i := (rd', tv')))"

text \<open>The messages whose write has ended, by sequence number.\<close>

definition published :: "lap list \<Rightarrow> (u64 \<times> u64 list) list" where
  "published hs = [(lp_seq l, lp_value l). l \<leftarrow> hs, lp_done l \<noteq> None]"

lemma published_map_of:
  assumes h: "slot_hist w M hs" and "l \<in> set hs" "lp_done l \<noteq> None"
  shows "map_of (published hs) (lp_seq l) = Some (lp_value l)"
proof -
  have "(lp_seq l, lp_value l) \<in> set (published hs)" using assms(2,3) by (force simp: published_def)
  then obtain v where v: "map_of (published hs) (lp_seq l) = Some v"
    using weak_map_of_SomeI by fastforce
  then have "(lp_seq l, v) \<in> set (published hs)" by (rule map_of_SomeD)
  then obtain l' where "l' \<in> set hs" "lp_seq l' = lp_seq l" "lp_value l' = v" by (auto simp: published_def split: if_splits)
  then show ?thesis using same_lap [OF h, of l' l] assms(2) v by auto
qed

definition reader_inv :: "nat \<Rightarrow> slot_mem \<Rightarrow> lap list \<Rightarrow> slot_reader \<Rightarrow> slot_tview \<Rightarrow> bool" where
  "reader_inv w M hs rd tv \<longleftrightarrow> weak_reader_ok w hs rd tv \<and> unat (sr_seq rd) < 2 ^ 63 - 1 \<and> tview_in M tv"

locale weak_writers =
  fixes act :: "'a \<Rightarrow> 's \<Rightarrow> 's option" and mem :: "'s \<Rightarrow> slot_mem" and hist :: "'s \<Rightarrow> lap list"
    and inv :: "'s \<Rightarrow> bool" and w :: nat
  assumes act_inv: "inv s \<Longrightarrow> act a s = Some s' \<Longrightarrow> inv s'"
    and inv_hist: "inv s \<Longrightarrow> slot_hist w (mem s) (hist s)"
    and act_grows: "inv s \<Longrightarrow> act a s = Some s' \<Longrightarrow> hist_grows (hist s) (hist s')"
    and inv_mem: "inv s \<Longrightarrow> mem_in (mem s)"
    and act_mem: "inv s \<Longrightarrow> act a s = Some s' \<Longrightarrow> view_in (mem s) u \<Longrightarrow> view_in (mem s') u"
begin

lemma reader_inv_act:
  "inv s \<Longrightarrow> act a s = Some s' \<Longrightarrow> reader_inv w (mem s) (hist s) rd tv \<Longrightarrow> reader_inv w (mem s') (hist s') rd tv"
  using weak_reader_ok_grows [OF _ act_grows] act_mem unfolding reader_inv_def tview_in_def by blast

lemma reader_inv_access:
  assumes "inv s" "reader_inv w (mem s) (hist s) rd tv" "Slot_try_read_access w t (mem s) rd tv = Some (rd', tv')"
  shows "reader_inv w (mem s) (hist s) rd' tv'"
proof -
  have ok: "weak_reader_ok w (hist s) rd tv" "unat (sr_seq rd) < 2 ^ 63 - 1" "tview_in (mem s) tv"
    using assms(2) by (auto simp: reader_inv_def)
  then show ?thesis
    using weak_reader_ok_access [OF inv_hist [OF assms(1)] ok(1,2) assms(3)] read_access_in [OF inv_mem [OF assms(1)] ok(3) assms(3)]
    by (simp add: reader_inv_def)
qed

lemma run_inv:
  assumes "weak_run w act mem s0 s rs" "inv s0"
  shows "inv s \<and> (\<forall>i. reader_inv w (mem s) (hist s) (fst (rs i)) (snd (rs i)))"
  using assms
proof (induction rule: weak_run.induct)
  case start
  have "tview_in (mem s0) tv_init" using inv_mem [OF start] by (simp add: mem_in_def tview_in_def tv_init_def)
  then show ?case using start by (simp add: no_reads_def reader_inv_def weak_reader_ok_def)
next
  case (writer s rs a s')
  then show ?case using act_inv reader_inv_act by metis
next
  case (begin_read s rs i q res tv seq tv')
  then show ?case using tview_in_clip [OF inv_mem, of s tv'] by (simp add: reader_inv_def weak_reader_ok_def)
next
  case (reader s rs i rd tv t rd' tv')
  then have "reader_inv w (mem s) (hist s) rd tv" by (metis fst_conv snd_conv)
  then show ?case using reader reader_inv_access by simp
qed

lemma accepted_published:
  assumes "weak_run w act mem s0 s rs" "inv s0" "rs i = (RDone seq (Inr (Some buf)), tv)"
  shows "map_of (published (hist s)) seq = Some buf"
proof -
  have "inv s" "weak_reader_ok w (hist s) (RDone seq (Inr (Some buf))) tv"
    using run_inv [OF assms(1,2)] assms(3) unfolding reader_inv_def by (metis fst_conv snd_conv)+
  then obtain l where "l \<in> set (hist s)" "lp_seq l = seq" "lp_done l \<noteq> None" "buf = lp_value l" by (auto simp: weak_reader_ok_def)
  then show ?thesis using published_map_of [OF inv_hist [OF \<open>inv s\<close>]] by blast
qed

end

section \<open>Runs as lists of events\<close>

lemma less_limit_unat: "seq < (2 ^ 63 - 1 :: u64) \<Longrightarrow> unat seq < 2 ^ 63 - 1"
  by (simp add: word_less_nat_alt)

datatype 'a weak_event = Writer 'a | BeginRead nat u64 slot_tview | Reader nat nat

definition weak_do ::
    "nat \<Rightarrow> ('a \<Rightarrow> 's \<Rightarrow> 's option) \<Rightarrow> ('s \<Rightarrow> slot_mem) \<Rightarrow> 'a weak_event \<Rightarrow> 's \<times> slot_readers \<Rightarrow> ('s \<times> slot_readers) option" where
  "weak_do w act mem e y =
     (case (e, y) of
        (Writer a, (s, rs)) \<Rightarrow> (case act a s of None \<Rightarrow> None | Some s' \<Rightarrow> Some (s', rs))
      | (BeginRead i seq tv, (s, rs)) \<Rightarrow>
          (case rs i of (RDone _ _, _) \<Rightarrow> if seq < 2 ^ 63 - 1 then Some (s, rs(i := (RStamp seq, tview_clip (mem s) tv))) else None | _ \<Rightarrow> None)
      | (Reader i t, (s, rs)) \<Rightarrow>
          (case Slot_try_read_access w t (mem s) (fst (rs i)) (snd (rs i)) of
             None \<Rightarrow> None
           | Some r \<Rightarrow> Some (s, rs(i := r))))"

fun weak_play ::
    "nat \<Rightarrow> ('a \<Rightarrow> 's \<Rightarrow> 's option) \<Rightarrow> ('s \<Rightarrow> slot_mem) \<Rightarrow> 'a weak_event list \<Rightarrow> 's \<times> slot_readers \<Rightarrow> ('s \<times> slot_readers) option" where
  "weak_play w act mem [] y = Some y"
| "weak_play w act mem (e # es) y =
     (case weak_do w act mem e y of None \<Rightarrow> None | Some y' \<Rightarrow> weak_play w act mem es y')"

lemma weak_do_run:
  assumes "weak_run w act mem s0 s rs" "weak_do w act mem e (s, rs) = Some (s', rs')"
  shows "weak_run w act mem s0 s' rs'"
proof (cases e)
  case (Writer a)
  then show ?thesis using assms by (auto simp: weak_do_def split: option.splits intro: weak_run.writer)
next
  case (BeginRead i seq tv)
  then obtain q res tv' where "rs i = (RDone q res, tv')" "seq < 2 ^ 63 - 1" "s' = s" "rs' = rs(i := (RStamp seq, tview_clip (mem s) tv))"
    using assms(2) by (auto simp: weak_do_def split: prod.splits slot_reader.splits if_splits)
  then show ?thesis using weak_run.begin_read [OF assms(1)] less_limit_unat by blast
next
  case (Reader i t)
  then show ?thesis using assms weak_run.reader [OF assms(1), of i "fst (rs i)" "snd (rs i)" t]
    by (auto simp: weak_do_def split: option.splits)
qed

lemma weak_play_run:
  "weak_run w act mem s0 s rs \<Longrightarrow> weak_play w act mem es (s, rs) = Some (s', rs') \<Longrightarrow> weak_run w act mem s0 s' rs'"
  by (induction es arbitrary: s rs) (auto split: option.splits intro: weak_do_run)

text \<open>A reader on its own: every read ends, and a reader that has seen the newest stamp ends with the newest message.\<close>

lemma reads_end:
  assumes "mem_in (mem s)" "tview_in (mem s) (snd (rs i))"
  obtains ts rs' where "weak_play w act mem (map (Reader i) ts) (s, rs) = Some (s, rs')" "reads_left w (fst (rs' i)) = 0"
  using assms(2)
proof (induction "reads_left w (fst (rs i))" arbitrary: rs thesis rule: less_induct)
  case less
  show thesis
  proof (cases "reads_left w (fst (rs i)) = 0")
    case True
    then show thesis using less.prems(1) [of "[]" rs] by simp
  next
    case False
    then obtain t rd tv where a: "Slot_try_read_access w t (mem s) (fst (rs i)) (snd (rs i)) = Some (rd, tv)"
      using read_access_enabled [OF less.prems(2)] by (metis not_gr_zero surj_pair)
    have "reads_left w rd < reads_left w (fst (rs i))" "tview_in (mem s) tv"
      using read_access_less [OF a] read_access_in [OF assms(1) less.prems(2) a] by auto
    then obtain ts rs' where "weak_play w act mem (map (Reader i) ts) (s, rs(i := (rd, tv))) = Some (s, rs')"
        "reads_left w (fst (rs' i)) = 0"
      using less.hyps [of "rs(i := (rd, tv))"] by (metis fst_conv fun_upd_same snd_conv)
    then show thesis using less.prems(1) [of "t # ts" rs'] a by (simp add: weak_do_def)
  qed
qed

lemma reads_newest:
  assumes h: "slot_hist w (mem s) hs" and l: "hs \<noteq> []" "lp_done (last hs) = Some d"
    and ok: "reader_newest w (last hs) d (fst (rs i)) (snd (rs i))"
    and p: "weak_play w act mem (map (Reader i) ts) (s, rs) = Some (s', rs')"
  shows "reader_newest w (last hs) d (fst (rs' i)) (snd (rs' i))"
  using ok p
proof (induction ts arbitrary: rs)
  case (Cons t ts)
  then obtain rd tv where a: "Slot_try_read_access w t (mem s) (fst (rs i)) (snd (rs i)) = Some (rd, tv)"
      and p: "weak_play w act mem (map (Reader i) ts) (s, rs(i := (rd, tv))) = Some (s', rs')"
    by (auto simp: weak_do_def split: option.splits)
  have "reader_newest w (last hs) d rd tv" using reader_newest_access [OF h l Cons.prems(1) a] .
  then show ?case using Cons.IH [OF _ p] by simp
qed simp

context weak_writers
begin

lemma newest_read:
  assumes run: "weak_run w act mem s0 s rs" "inv s0" and l: "hist s \<noteq> []" "lp_done (last (hist s)) = Some d"
    and rs: "rs i = (RStamp (lp_seq (last (hist s))), tv)" "d \<le> tv_cur tv StampLoc"
  shows "\<exists>ts rs'. weak_play w act mem (map (Reader i) ts) (s, rs) = Some (s, rs') \<and>
      fst (rs' i) = RDone (lp_seq (last (hist s))) (Inr (Some (lp_value (last (hist s)))))"
    and "weak_play w act mem (map (Reader i) ts) (s, rs) = Some (s', rs') \<Longrightarrow> fst (rs' i) = RDone q res \<Longrightarrow>
      res = Inr (Some (lp_value (last (hist s))))"
proof -
  have s: "inv s" "tview_in (mem s) (snd (rs i))" using run_inv [OF run] unfolding reader_inv_def by auto
  have ok: "reader_newest w (last (hist s)) d (fst (rs i)) (snd (rs i))" using rs by (simp add: reader_newest_def)
  note newest = reads_newest [where mem = mem and act = act and rs = rs and i = i, OF inv_hist [OF s(1)] l ok]
  show "res = Inr (Some (lp_value (last (hist s))))"
    if "weak_play w act mem (map (Reader i) ts) (s, rs) = Some (s', rs')" "fst (rs' i) = RDone q res"
    using newest [OF that(1)] that(2) by (simp add: reader_newest_def)
  obtain ts rs' where p: "weak_play w act mem (map (Reader i) ts) (s, rs) = Some (s, rs')" "reads_left w (fst (rs' i)) = 0"
    by (rule reads_end [where mem = mem and act = act and rs = rs and i = i and s = s and w = w, OF inv_mem [OF s(1)] s(2)])
  then obtain q res where "fst (rs' i) = RDone q res" by (cases "fst (rs' i)") auto
  then show "\<exists>ts rs'. weak_play w act mem (map (Reader i) ts) (s, rs) = Some (s, rs') \<and>
      fst (rs' i) = RDone (lp_seq (last (hist s))) (Inr (Some (lp_value (last (hist s)))))"
    using p(1) newest [OF p(1)] by (intro exI [of _ ts] exI [of _ rs']) (simp add: reader_newest_def)
qed

end

end
