(* ===== verification/Weak_Publishers.thy ===== *)
theory Weak_Publishers
  imports Weak_Readers Ring_Index
begin

text \<open>
  The writers of theory \<open>Weak_Readers\<close>: the single publisher of \<^verbatim>\<open>channel\<close> and the publishers of \<^verbatim>\<open>channel_mpmc\<close>, which
  hand a slot over with \<^verbatim>\<open>wait_for_slot\<close>.  Both systems follow one slot of the ring.  What a thread does at other
  slots, at the cursor or at the trackers changes no message of this slot; it can only change what the thread has
  seen, and is allowed to do so arbitrarily.  The counter \<^verbatim>\<open>next_seq\<close> is only changed by \<^verbatim>\<open>fetch_add\<close>, which always
  reads the newest value.  Publishing stops short of \<open>2 ^ 63 - 1\<close> messages, where the stamps become ambiguous.
\<close>

section \<open>The single publisher\<close>

text \<open>What a thread has seen after doing anything elsewhere: no less than before.\<close>

definition elsewhere :: "('l, 'v) memory \<Rightarrow> 'l tview \<Rightarrow> 'l tview \<Rightarrow> 'l tview" where
  "elsewhere M o' tv = (tview_clip M o')\<lparr>tv_cur := vjoin (tv_cur tv) (view_clip M (tv_cur o'))\<rparr>"

record weak_pub =
  wp_mem :: slot_mem
  wp_hist :: "lap list"
  wp_seq :: u64
  wp_pc :: slot_writer
  wp_tv :: slot_tview

text \<open>\<^verbatim>\<open>publish\<close> of a message that goes to another slot; of one that goes to slot \<open>k\<close>, up to the call of \<^verbatim>\<open>Slot::write\<close>;
  one access of that call.\<close>

datatype pub_action = PubElse slot_tview | PubStart "u64 list" slot_tview | PubAccess nat

definition Publisher_weak_step :: "ring_index \<Rightarrow> usize \<Rightarrow> nat \<Rightarrow> pub_action \<Rightarrow> weak_pub \<Rightarrow> weak_pub option" where
  "Publisher_weak_step index k w a s =
     (case a of
        PubElse o' \<Rightarrow>
          if wp_pc s = WDone \<and> RingIndex_slot index (wp_seq s) \<noteq> k \<and> wp_seq s < 2 ^ 63 - 1
          then Some (s\<lparr>wp_seq := wp_seq s + 1, wp_tv := elsewhere (wp_mem s) o' (wp_tv s)\<rparr>) else None
      | PubStart v o' \<Rightarrow>
          if wp_pc s = WDone \<and> RingIndex_slot index (wp_seq s) = k \<and> wp_seq s < 2 ^ 63 - 1 \<and> length v = w
          then Some (s\<lparr>wp_pc := WBegin (wp_seq s) v, wp_tv := elsewhere (wp_mem s) o' (wp_tv s)\<rparr>) else None
      | PubAccess t \<Rightarrow>
          (case Slot_write_access t (wp_mem s) (wp_hist s) (wp_pc s) (wp_tv s) of
             None \<Rightarrow> None
           | Some (M, hs, pc, tv) \<Rightarrow>
               Some (s\<lparr>wp_mem := M, wp_hist := hs, wp_pc := pc, wp_tv := tv,
                       wp_seq := (if pc = WDone then wp_seq s + 1 else wp_seq s)\<rparr>)))"

definition weak_pub_init :: "(nat \<Rightarrow> u64) \<Rightarrow> weak_pub" where
  "weak_pub_init f = \<lparr>wp_mem = slot_mem_init f, wp_hist = [], wp_seq = 0, wp_pc = WDone, wp_tv = tv_init\<rparr>"

definition weak_pub_inv :: "nat \<Rightarrow> weak_pub \<Rightarrow> bool" where
  "weak_pub_inv w s \<longleftrightarrow> mem_in (wp_mem s) \<and> tview_in (wp_mem s) (wp_tv s) \<and>
     slot_hist w (wp_mem s) (wp_hist s) \<and> writing_ok w (wp_mem s) (wp_hist s) (wp_pc s) (wp_tv s) \<and>
     unat (wp_seq s) < 2 ^ 63 \<and> (\<forall>q. writes_seq (wp_pc s) = Some q \<longrightarrow> q = wp_seq s \<and> unat q < 2 ^ 63 - 1) \<and>
     (\<forall>q\<in>set (map lp_seq (wp_hist s)). unat q \<le> unat (wp_seq s)) \<and>
     (wp_pc s = WDone \<longrightarrow> (\<forall>q\<in>set (map lp_seq (wp_hist s)). unat q < unat (wp_seq s)))"

lemma tview_in_elsewhere: "mem_in M \<Longrightarrow> tview_in M tv \<Longrightarrow> tview_in M (elsewhere M o' tv)"
  by (auto simp: elsewhere_def tview_in_def tview_clip_def)

lemma sees_all_elsewhere: "sees_all M (tv_cur tv) \<Longrightarrow> sees_all M (tv_cur (elsewhere M o' tv))"
  by (erule sees_all_mono) (simp add: elsewhere_def)

lemma weak_pub_step:
  assumes inv: "weak_pub_inv w s" and a: "Publisher_weak_step index k w a s = Some s'"
  shows "weak_pub_inv w s' \<and> hist_grows (wp_hist s) (wp_hist s') \<and> (\<forall>u. view_in (wp_mem s) u \<longrightarrow> view_in (wp_mem s') u)"
proof (cases a)
  case (PubElse o')
  then show ?thesis using a inv sees_all_elsewhere tview_in_elsewhere less_limit_unat [of "wp_seq s"]
    by (auto simp: Publisher_weak_step_def weak_pub_inv_def writing_ok_def hist_grows_def all_done_def unat_u64_Suc
        less_Suc_eq_le le_SucI split: if_splits)
next
  case (PubStart v o')
  then show ?thesis using a inv sees_all_elsewhere tview_in_elsewhere less_limit_unat [of "wp_seq s"]
    by (auto simp: Publisher_weak_step_def weak_pub_inv_def writing_ok_def hist_grows_def all_done_def split: if_splits)
next
  case (PubAccess t)
  then obtain M hs pc tv where acc: "Slot_write_access t (wp_mem s) (wp_hist s) (wp_pc s) (wp_tv s) = Some (M, hs, pc, tv)"
      and s': "s' = s\<lparr>wp_mem := M, wp_hist := hs, wp_pc := pc, wp_tv := tv, wp_seq := (if pc = WDone then wp_seq s + 1 else wp_seq s)\<rparr>"
    using a by (auto simp: Publisher_weak_step_def split: option.splits)
  note ok = inv [unfolded weak_pub_inv_def]
  have new: "slot_hist w M hs \<and> writing_ok w M hs pc tv \<and> hist_grows (wp_hist s) hs"
    using ok writing_ok_access [OF _ _ acc] by blast
  have views: "mem_in M \<and> tview_in M tv \<and> (\<forall>u. view_in (wp_mem s) u \<longrightarrow> view_in M u)"
    using ok write_access_in [OF _ _ acc] by blast
  have wok: "writing_ok w (wp_mem s) (wp_hist s) (wp_pc s) (wp_tv s)" using ok by blast
  note seqs = write_access_seqs [OF wok acc]
  have here: "writes_seq (wp_pc s) = Some (wp_seq s)" "unat (wp_seq s) < 2 ^ 63 - 1" using ok seqs(3) by auto
  then have "\<forall>q\<in>set (begins_seq (wp_pc s)). q = wp_seq s" by (cases "wp_pc s") auto
  then have "\<forall>q\<in>set (map lp_seq hs). unat q \<le> unat (wp_seq s)" using ok unfolding seqs(1) by auto
  then show ?thesis using new views here seqs(4) by (auto simp: weak_pub_inv_def s' unat_u64_Suc)
qed

lemma weak_pub_inv_init: "weak_pub_inv w (weak_pub_init f)"
  using slot_hist_init by (simp add: weak_pub_inv_def weak_pub_init_def writing_ok_def all_done_def slot_mem_init_def sees_all_init mem_in_init)

interpretation weak_sp: weak_writers "Publisher_weak_step index k w" wp_mem wp_hist "weak_pub_inv w" w for index k w
proof
  show "slot_hist w (wp_mem s) (wp_hist s)" "mem_in (wp_mem s)" if "weak_pub_inv w s" for s
    using that by (simp_all add: weak_pub_inv_def)
qed (use weak_pub_step in blast)+

section \<open>The publishers of the multi-producer channel\<close>

text \<open>A thread outside \<^verbatim>\<open>publish\<close> (of this slot), in \<^verbatim>\<open>wait_for_slot\<close> with its claimed sequence number, or in \<^verbatim>\<open>Slot::write\<close>.\<close>

datatype mp_writer = MpIdle | MpWait u64 "u64 list" | MpWrite slot_writer

record weak_mp =
  wm_mem :: slot_mem
  wm_hist :: "lap list"
  wm_next_seq :: u64
  wm_pc :: "nat \<Rightarrow> mp_writer"
  wm_tv :: "nat \<Rightarrow> slot_tview"

text \<open>One load of the loop of \<^verbatim>\<open>wait_for_slot\<close>: the new view, and whether the wait is over.\<close>

definition wait_for_slot_access :: "ring_index \<Rightarrow> nat \<Rightarrow> slot_mem \<Rightarrow> u64 \<Rightarrow> slot_tview \<Rightarrow> (bool \<times> slot_tview) option" where
  "wait_for_slot_access index t M seq tv =
     (let cap = ri_capacity index
      in if seq < cap then Some (True, tv)
         else
           let lap_done = (seq - cap) * 2 + 2
           in case atomic_load M Acquire StampLoc t tv of
                None \<Rightarrow> None
              | Some (stamp, tv') \<Rightarrow> Some (\<not> stamp < lap_done, tv'))"

text \<open>A claim that goes to another slot; thread \<open>i\<close> claims the next sequence number for slot \<open>k\<close>; an access of its
  wait; an access of its write.\<close>

datatype mp_action = MpElse | MpClaim nat "u64 list" slot_tview | MpWaitAccess nat nat | MpWriteAccess nat nat

definition MpPublisher_weak_step :: "ring_index \<Rightarrow> usize \<Rightarrow> nat \<Rightarrow> mp_action \<Rightarrow> weak_mp \<Rightarrow> weak_mp option" where
  "MpPublisher_weak_step index k w a s =
     (case a of
        MpElse \<Rightarrow>
          if RingIndex_slot index (wm_next_seq s) \<noteq> k \<and> wm_next_seq s < 2 ^ 63 - 1
          then Some (s\<lparr>wm_next_seq := wm_next_seq s + 1\<rparr>) else None
      | MpClaim i v o' \<Rightarrow>
          if wm_pc s i = MpIdle \<and> RingIndex_slot index (wm_next_seq s) = k \<and> wm_next_seq s < 2 ^ 63 - 1 \<and> length v = w
          then Some (s\<lparr>wm_next_seq := wm_next_seq s + 1, wm_pc := (wm_pc s)(i := MpWait (wm_next_seq s) v),
                       wm_tv := (wm_tv s)(i := tview_clip (wm_mem s) o')\<rparr>) else None
      | MpWaitAccess i t \<Rightarrow>
          (case wm_pc s i of
             MpWait seq v \<Rightarrow>
               (case wait_for_slot_access index t (wm_mem s) seq (wm_tv s i) of
                  None \<Rightarrow> None
                | Some (over, tv) \<Rightarrow>
                    Some (s\<lparr>wm_pc := (if over then (wm_pc s)(i := MpWrite (WBegin seq v)) else wm_pc s),
                            wm_tv := (wm_tv s)(i := tv)\<rparr>))
           | _ \<Rightarrow> None)
      | MpWriteAccess i t \<Rightarrow>
          (case wm_pc s i of
             MpWrite pc \<Rightarrow>
               (case Slot_write_access t (wm_mem s) (wm_hist s) pc (wm_tv s i) of
                  None \<Rightarrow> None
                | Some (M, hs, pc', tv) \<Rightarrow>
                    Some (s\<lparr>wm_mem := M, wm_hist := hs, wm_tv := (wm_tv s)(i := tv),
                            wm_pc := (wm_pc s)(i := (if pc' = WDone then MpIdle else MpWrite pc'))\<rparr>))
           | _ \<Rightarrow> None))"

definition weak_mp_init :: "(nat \<Rightarrow> u64) \<Rightarrow> weak_mp" where
  "weak_mp_init f =
     \<lparr>wm_mem = slot_mem_init f, wm_hist = [], wm_next_seq = 0, wm_pc = (\<lambda>_. MpIdle), wm_tv = (\<lambda>_. tv_init)\<rparr>"

text \<open>The claim of a thread that has not begun to write.  The invariant: lap \<open>n\<close> of the slot has sequence number
  \<open>k + n * c\<close>; the claims are distinct and not yet in the history; the one thread that writes is at the lap
  after all the finished ones.\<close>

definition claim_of :: "mp_writer \<Rightarrow> u64 option" where
  "claim_of p = (case p of MpWait seq v \<Rightarrow> Some seq | MpWrite (WBegin seq v) \<Rightarrow> Some seq | _ \<Rightarrow> None)"

definition laps_ok :: "nat \<Rightarrow> nat \<Rightarrow> u64 list \<Rightarrow> bool" where
  "laps_ok c k qs \<longleftrightarrow> map unat qs = map (\<lambda>n. k + n * c) [0..<length qs]"

definition claims_fit :: "nat \<Rightarrow> nat \<Rightarrow> weak_mp \<Rightarrow> bool" where
  "claims_fit c k s \<longleftrightarrow>
     (\<forall>i q. claim_of (wm_pc s i) = Some q \<longrightarrow>
        unat q < unat (wm_next_seq s) \<and> (\<exists>n \<ge> length (wm_hist s). unat q = k + n * c)) \<and>
     (\<forall>i j q. claim_of (wm_pc s i) = Some q \<and> claim_of (wm_pc s j) = Some q \<longrightarrow> i = j)"

definition writers_fit :: "nat \<Rightarrow> nat \<Rightarrow> nat \<Rightarrow> weak_mp \<Rightarrow> bool" where
  "writers_fit c k w s \<longleftrightarrow>
     (\<forall>i q v. wm_pc s i = MpWait q v \<longrightarrow> length v = w) \<and>
     (\<forall>i p. wm_pc s i = MpWrite p \<longrightarrow>
        p \<noteq> WDone \<and> writing_ok w (wm_mem s) (wm_hist s) p (wm_tv s i) \<and>
        (\<forall>q\<in>set (begins_seq p). unat q = k + length (wm_hist s) * c)) \<and>
     (\<forall>i j p p'. wm_pc s i = MpWrite p \<and> wm_pc s j = MpWrite p' \<longrightarrow> i = j)"

definition weak_mp_inv :: "ring_index \<Rightarrow> usize \<Rightarrow> nat \<Rightarrow> weak_mp \<Rightarrow> bool" where
  "weak_mp_inv index k w s \<longleftrightarrow>
     (let c = unat (ri_capacity index)
      in ring_index_ok index \<and> unat k < c \<and>
         slot_hist w (wm_mem s) (wm_hist s) \<and> laps_ok c (unat k) (map lp_seq (wm_hist s)) \<and>
         (\<forall>q\<in>set (map lp_seq (wm_hist s)). unat q < unat (wm_next_seq s)) \<and> unat (wm_next_seq s) < 2 ^ 63 \<and>
         claims_fit c (unat k) s \<and> writers_fit c (unat k) w s \<and> mem_in (wm_mem s) \<and> (\<forall>i. tview_in (wm_mem s) (wm_tv s i)))"

lemma laps_ok_nth: "laps_ok c k (map lp_seq hs) \<Longrightarrow> n < length hs \<Longrightarrow> unat (lp_seq (hs ! n)) = k + n * c"
  unfolding laps_ok_def by (metis (no_types, lifting) add_0 length_map length_upt minus_nat.diff_0 nth_map nth_upt)

lemma laps_ok_snoc: "laps_ok c k qs \<Longrightarrow> unat q = k + length qs * c \<Longrightarrow> laps_ok c k (qs @ [q])"
  by (simp add: laps_ok_def)

text \<open>The wait ends only when every earlier lap is finished, and its last load brings everything they wrote.\<close>

lemma wait_over:
  assumes h: "slot_hist w M hs" and laps: "laps_ok (unat (ri_capacity index)) k (map lp_seq hs)"
    and k: "k < unat (ri_capacity index)" and n: "length hs \<le> n" "unat seq = k + n * unat (ri_capacity index)" "unat seq < 2 ^ 63 - 1"
    and a: "wait_for_slot_access index t M seq tv = Some (True, tv')"
  shows "length hs = n \<and> all_done hs \<and> sees_all M (tv_cur tv')"
proof (cases "seq < ri_capacity index")
  case True
  then have "n = 0" using n(2) by (cases n) (auto simp: word_less_nat_alt)
  then have "hs = []" using n(1) by simp
  moreover have "sees_all M (tv_cur tv')" using slot_histD(5) [OF h \<open>hs = []\<close>] by (rule sees_all_mono) simp
  ultimately show ?thesis using \<open>n = 0\<close> by (simp add: all_done_def)
next
  case False
  define c where "c = unat (ri_capacity index)"
  have ge: "c \<le> unat seq" using False by (simp add: c_def word_less_nat_alt)
  have n0: "0 < n" using ge n(2) k by (cases n) (auto simp: c_def)
  obtain stamp where ld: "atomic_load M Acquire StampLoc t tv = Some (stamp, tv')" and
      le: "\<not> stamp < (seq - ri_capacity index) * 2 + 2"
    using a False by (auto simp: wait_for_slot_access_def Let_def split: option.splits)
  obtain m where m: "M StampLoc t = Some m" "stamp = ms_val m" "\<And>l'. ms_view m l' \<le> tv_cur tv' l'"
    using atomic_loadE [OF ld] by metis
  have "unat (seq - ri_capacity index) = k + (n - 1) * c"
    using n(2) n0 ge by (simp add: unat_u64_diff c_def [symmetric] diff_mult_distrib)
  then have lap: "2 * (k + (n - 1) * c) + 2 \<le> unat (ms_val m)"
    using le m(2) n(3) unat_u64_stamp_done [of "seq - ri_capacity index"] ge
    by (simp add: word_less_nat_alt not_less unat_u64_diff c_def [symmetric])
  have c0: "0 < c" using k by (simp add: c_def)
  have seqs: "unat (lp_seq (hs ! i)) = k + i * c" "unat (lp_seq (hs ! i)) < 2 ^ 63 - 1" if "i < length hs" for i
    using laps_ok_nth [OF laps that] slot_histD(1) [OF h nth_mem [OF that]] by (auto simp: c_def lap_ok_def)
  have "\<not> (t = lp_begin l \<and> ms_val m = lp_seq l * 2 + 1)" if "l \<in> set hs" for l
  proof
    assume val: "t = lp_begin l \<and> ms_val m = lp_seq l * 2 + 1"
    obtain i where i: "i < length hs" "l = hs ! i" using \<open>l \<in> set hs\<close> by (auto simp: in_set_conv_nth)
    then have "unat (ms_val m) = 2 * (k + i * c) + 1" using val seqs [OF i(1)] by (simp add: unat_u64_stamp)
    moreover have "2 * (k + a) + 2 \<le> 2 * (k + b) + 1 \<Longrightarrow> a < b" for a b :: nat by simp
    ultimately have "(n - 1) * c < i * c" using lap by metis
    then have "n - 1 < i" by simp
    then show False using i(1) n(1) by linarith
  qed
  moreover have "\<not> (t = 0 \<and> ms_val m = 0)" using lap by auto
  ultimately obtain i where i: "i < length hs" "lp_done (hs ! i) = Some t" "ms_val m = lp_seq (hs ! i) * 2 + 2"
    using slot_histD(3) [OF h m(1)] unfolding stamp_of_def by (metis in_set_conv_nth)
  then have "(n - 1) * c \<le> i * c" using lap seqs [OF i(1)] by (simp add: unat_u64_stamp_done)
  then have len: "length hs = n" "i = length hs - 1" using n(1) n0 c0 i(1) by auto
  have "hs \<noteq> []" using i(1) by auto
  then have last: "hs \<noteq> []" "lp_done (last hs) = Some t" using i(2) len(2) by (simp_all add: last_conv_nth)
  have "all_done hs"
  proof -
    obtain ys l where ys: "hs = ys @ [l]" using last(1) by (metis rev_exhaust)
    then show ?thesis using slot_histD(2) [OF h] last(2) by (auto simp: all_done_def sorted_wrt_append lap_before_def)
  qed
  moreover have "sees_all M (tv_cur tv')" using slot_histD(6) [OF h last m(1)] m(3) by (rule sees_all_mono)
  ultimately show ?thesis using len(1) by simp
qed

lemma wait_in:
  "mem_in M \<Longrightarrow> tview_in M tv \<Longrightarrow> wait_for_slot_access index t M seq tv = Some (over, tv') \<Longrightarrow> tview_in M tv'"
  by (auto simp: wait_for_slot_access_def Let_def intro: atomic_load_in split: if_splits option.splits)

lemma weak_mp_invD:
  assumes "weak_mp_inv index k w s"
  shows "ring_index_ok index" "unat k < unat (ri_capacity index)" "slot_hist w (wm_mem s) (wm_hist s)"
    "laps_ok (unat (ri_capacity index)) (unat k) (map lp_seq (wm_hist s))"
    "\<And>q. q \<in> set (map lp_seq (wm_hist s)) \<Longrightarrow> unat q < unat (wm_next_seq s)" "unat (wm_next_seq s) < 2 ^ 63"
    "claims_fit (unat (ri_capacity index)) (unat k) s" "writers_fit (unat (ri_capacity index)) (unat k) w s"
    "mem_in (wm_mem s)" "tview_in (wm_mem s) (wm_tv s i)"
  using assms unfolding weak_mp_inv_def Let_def by blast+

lemma claim_of_simps [simp]:
  "claim_of MpIdle = None" "claim_of (MpWait q v) = Some q" "claim_of (MpWrite (WBegin q v)) = Some q"
  "claim_of (MpWrite (WFence q v)) = None" "claim_of (MpWrite (WStore q v j)) = None" "claim_of (MpWrite WDone) = None"
  by (simp_all add: claim_of_def)

lemma claims_fitD:
  assumes "claims_fit c k s" "claim_of (wm_pc s i) = Some q"
  shows "unat q < unat (wm_next_seq s)" "\<exists>n \<ge> length (wm_hist s). unat q = k + n * c"
    "claim_of (wm_pc s j) = Some q \<Longrightarrow> j = i"
  using assms unfolding claims_fit_def by blast+

lemma claims_fit_sub:
  assumes "claims_fit c k s" "wm_next_seq s' = wm_next_seq s"
    and "\<And>j q. claim_of (wm_pc s' j) = Some q \<Longrightarrow> claim_of (wm_pc s j) = Some q \<and> (\<exists>n \<ge> length (wm_hist s'). unat q = k + n * c)"
  shows "claims_fit c k s'"
  unfolding claims_fit_def
proof (intro conjI allI impI; (elim conjE)?)
  fix i j q
  assume i: "claim_of (wm_pc s' i) = Some q"
  show "unat q < unat (wm_next_seq s')" using claims_fitD(1) [OF assms(1) conjunct1 [OF assms(3) [OF i]]] assms(2) by simp
  show "\<exists>n \<ge> length (wm_hist s'). unat q = k + n * c" using assms(3) [OF i] by blast
  show "i = j" if "claim_of (wm_pc s' j) = Some q"
    using claims_fitD(3) [OF assms(1), of j q i] assms(3) [OF i] assms(3) [OF that] by blast
qed

lemma weak_mp_claim:
  assumes inv: "weak_mp_inv index k w s"
    and next_seq: "RingIndex_slot index (wm_next_seq s) = k" "unat (wm_next_seq s) < 2 ^ 63 - 1"
    and i: "wm_pc s i = MpIdle" and v: "length v = w" and tv: "tview_in (wm_mem s) tv"
  shows "weak_mp_inv index k w (s\<lparr>wm_next_seq := wm_next_seq s + 1, wm_pc := (wm_pc s)(i := MpWait (wm_next_seq s) v),
    wm_tv := (wm_tv s)(i := tv)\<rparr>)" (is "weak_mp_inv index k w ?s")
proof -
  define c where "c = unat (ri_capacity index)"
  note d = weak_mp_invD [OF inv, folded c_def]
  have suc: "unat (wm_next_seq s + 1) = Suc (unat (wm_next_seq s))" using next_seq(2) by (simp add: unat_u64_Suc)
  have "unat k = unat (wm_next_seq s) mod c" using ring_slot_mod [OF d(1)] next_seq(1) by (auto simp: c_def)
  then obtain n where n: "unat (wm_next_seq s) = unat k + n * c" by (metis add.commute div_mult_mod_eq)
  have "length (wm_hist s) \<le> n"
  proof (cases "length (wm_hist s)")
    case (Suc l)
    then have "unat (lp_seq (wm_hist s ! l)) < unat (wm_next_seq s)" using d(5) by simp
    then show ?thesis using laps_ok_nth [OF d(4), of l] n Suc by simp
  qed simp
  moreover have "claim_of (wm_pc s j) \<noteq> Some (wm_next_seq s)" for j using claims_fitD(1) [OF d(7)] by blast
  ultimately have "claims_fit c (unat k) ?s" using d(7) n unfolding claims_fit_def
    by (auto simp: suc less_SucI split: if_splits)
  moreover have "writers_fit c (unat k) w ?s" using d(8) v unfolding writers_fit_def by simp
  ultimately show ?thesis using d next_seq(2) tv unfolding weak_mp_inv_def Let_def c_def [symmetric] by (simp add: suc less_SucI)
qed

lemma weak_mp_wait:
  assumes inv: "weak_mp_inv index k w s" and i: "wm_pc s i = MpWait seq v"
    and a: "wait_for_slot_access index t (wm_mem s) seq (wm_tv s i) = Some (True, tv)"
  shows "weak_mp_inv index k w (s\<lparr>wm_pc := (wm_pc s)(i := MpWrite (WBegin seq v)), wm_tv := (wm_tv s)(i := tv)\<rparr>)"
    (is "weak_mp_inv index k w ?s")
proof -
  define c where "c = unat (ri_capacity index)"
  note d = weak_mp_invD [OF inv, folded c_def]
  obtain n where n: "length (wm_hist s) \<le> n" "unat seq = unat k + n * c" "unat seq < unat (wm_next_seq s)"
    using claims_fitD [OF d(7), of i seq] i by auto
  then have over: "length (wm_hist s) = n" "all_done (wm_hist s)" "sees_all (wm_mem s) (tv_cur tv)"
    using wait_over [OF d(3) d(4) [unfolded c_def] d(2) [unfolded c_def] n(1) n(2) [unfolded c_def] _ a] d(6) by auto
  have others: "j = i" if j: "wm_pc s j = MpWrite p" for j p
  proof -
    have pj: "p \<noteq> WDone" "writing_ok w (wm_mem s) (wm_hist s) p (wm_tv s j)"
        "\<forall>q\<in>set (begins_seq p). unat q = unat k + length (wm_hist s) * c"
      using d(8) j unfolding writers_fit_def by blast+
    then obtain q u where "p = WBegin q u" using over(2) by (cases p) (auto simp: writing_ok_def all_done_def)
    moreover from this have "q = seq" using pj(3) n(2) over(1) by (auto simp: word_unat_eq_iff)
    ultimately show ?thesis using claims_fitD(3) [OF d(7), of i seq j] i j by simp
  qed
  have "unat (lp_seq l) < unat seq" if "l \<in> set (wm_hist s)" for l
  proof -
    obtain m where m: "m < length (wm_hist s)" "l = wm_hist s ! m" using \<open>l \<in> set (wm_hist s)\<close> by (auto simp: in_set_conv_nth)
    then show ?thesis using laps_ok_nth [OF d(4) m(1)] n(2) over(1) d(2) by simp
  qed
  moreover have "length v = w" using d(8) i unfolding writers_fit_def by blast
  ultimately have "writing_ok w (wm_mem s) (wm_hist s) (WBegin seq v) tv"
    using over n(3) d(6) by (simp add: writing_ok_def)
  then have "writers_fit c (unat k) w ?s" using d(8) n(2) over(1) others unfolding writers_fit_def by auto
  moreover have "claims_fit c (unat k) ?s"
  proof (rule claims_fit_sub [OF d(7)])
    fix j q
    assume "claim_of (wm_pc ?s j) = Some q"
    then have "claim_of (wm_pc s j) = Some q" using i by (simp split: if_splits)
    then show "claim_of (wm_pc s j) = Some q \<and> (\<exists>n \<ge> length (wm_hist ?s). unat q = unat k + n * c)"
      using claims_fitD(2) [OF d(7)] by simp
  qed simp
  moreover have "tview_in (wm_mem s) tv" using wait_in [OF d(9,10) a] .
  ultimately show ?thesis using d unfolding weak_mp_inv_def Let_def c_def [symmetric] by simp
qed

lemma weak_mp_write:
  assumes inv: "weak_mp_inv index k w s" and i: "wm_pc s i = MpWrite pc"
    and a: "Slot_write_access t (wm_mem s) (wm_hist s) pc (wm_tv s i) = Some (M, hs, pc', tv)"
  shows "weak_mp_inv index k w (s\<lparr>wm_mem := M, wm_hist := hs, wm_tv := (wm_tv s)(i := tv),
    wm_pc := (wm_pc s)(i := (if pc' = WDone then MpIdle else MpWrite pc'))\<rparr>) \<and> hist_grows (wm_hist s) hs \<and>
    (\<forall>u. view_in (wm_mem s) u \<longrightarrow> view_in M u)"
    (is "weak_mp_inv index k w ?s \<and> _")
proof -
  define c where "c = unat (ri_capacity index)"
  note d = weak_mp_invD [OF inv, folded c_def]
  have ok: "writing_ok w (wm_mem s) (wm_hist s) pc (wm_tv s i)" and
      begins: "\<forall>q\<in>set (begins_seq pc). unat q = unat k + length (wm_hist s) * c" and
      only: "\<And>j p. wm_pc s j = MpWrite p \<Longrightarrow> j = i"
    using d(8) i unfolding writers_fit_def by blast+
  note new = writing_ok_access [OF d(3) ok a] and seqs = write_access_seqs [OF ok a]
  have other: "wm_pc s j \<noteq> MpWrite p" if "j \<noteq> i" for j p using only that by blast
  have laps: "laps_ok c (unat k) (map lp_seq hs)"
    using d(4) begins laps_ok_snoc [OF d(4)] by (cases pc) (simp_all add: seqs(1))
  have mine: "claim_of (if pc' = WDone then MpIdle else MpWrite pc') = None" using seqs(2) by (cases pc') auto
  have later: "\<exists>n \<ge> length hs. unat q = unat k + n * c" if j: "j \<noteq> i" "claim_of (wm_pc s j) = Some q" for j q
  proof -
    obtain n where n: "length (wm_hist s) \<le> n" "unat q = unat k + n * c" using claims_fitD(2) [OF d(7) j(2)] by blast
    have "n \<noteq> length (wm_hist s)" if q': "q' \<in> set (begins_seq pc)" for q'
    proof
      assume "n = length (wm_hist s)"
      then have "q = q'" using n(2) begins q' by (simp add: word_unat_eq_iff)
      moreover have "claim_of (wm_pc s i) = Some q'" using q' i by (cases pc) auto
      ultimately show False using claims_fitD(3) [OF d(7), of i q j] j by simp
    qed
    then have "begins_seq pc = [] \<or> length (wm_hist s) < n" using n(1)
      by (metis le_neq_implies_less list.set_intros(1) neq_Nil_conv)
    moreover have "length hs = length (wm_hist s) + length (begins_seq pc)" "length (begins_seq pc) \<le> 1"
      using arg_cong [OF seqs(1), of length] by (simp, cases pc, simp_all)
    ultimately show ?thesis using n by (intro exI [of _ n]) auto
  qed
  have "\<forall>q\<in>set (map lp_seq hs). unat q < unat (wm_next_seq s)"
    using d(5) claims_fitD(1) [OF d(7), of i] i unfolding seqs(1) by (cases pc) auto
  moreover have "claims_fit c (unat k) ?s"
  proof (rule claims_fit_sub [OF d(7)])
    fix j q
    assume "claim_of (wm_pc ?s j) = Some q"
    moreover from this have "j \<noteq> i" using mine by auto
    ultimately show "claim_of (wm_pc s j) = Some q \<and> (\<exists>n \<ge> length (wm_hist ?s). unat q = unat k + n * c)"
      using later [of j q] by simp
  qed simp
  moreover have "writers_fit c (unat k) w ?s" using d(8) new seqs(2) other unfolding writers_fit_def by auto
  moreover have views: "mem_in M \<and> tview_in M tv \<and> (\<forall>u. view_in (wm_mem s) u \<longrightarrow> view_in M u)"
    using write_access_in [OF d(9,10) a] .
  moreover have "tview_in M (wm_tv s j)" for j using d(10) [of j] views by (simp add: tview_in_def)
  ultimately show ?thesis using d new laps unfolding weak_mp_inv_def Let_def c_def [symmetric] by simp
qed

lemma weak_mp_step:
  assumes inv: "weak_mp_inv index k w s" and a: "MpPublisher_weak_step index k w a s = Some s'"
  shows "weak_mp_inv index k w s' \<and> hist_grows (wm_hist s) (wm_hist s') \<and> (\<forall>u. view_in (wm_mem s) u \<longrightarrow> view_in (wm_mem s') u)"
proof (cases a)
  case MpElse
  have limit: "unat (wm_next_seq s) < 2 ^ 63 - 1" and s': "s' = s\<lparr>wm_next_seq := wm_next_seq s + 1\<rparr>"
    using a MpElse less_limit_unat [of "wm_next_seq s"] by (auto simp: MpPublisher_weak_step_def split: if_splits)
  then have suc: "unat (wm_next_seq s + 1) = Suc (unat (wm_next_seq s))" by (simp add: unat_u64_Suc)
  show ?thesis using inv limit unfolding weak_mp_inv_def claims_fit_def writers_fit_def Let_def s'
    by (simp add: suc less_SucI hist_grows_def)
next
  case (MpClaim i v o')
  then show ?thesis using a weak_mp_claim [OF inv] tview_in_clip [OF weak_mp_invD(9) [OF inv]] less_limit_unat [of "wm_next_seq s"]
    by (auto simp: MpPublisher_weak_step_def hist_grows_def split: if_splits)
next
  case (MpWaitAccess i t)
  then obtain seq v over tv where pc: "wm_pc s i = MpWait seq v"
      and acc: "wait_for_slot_access index t (wm_mem s) seq (wm_tv s i) = Some (over, tv)"
      and s': "s' = s\<lparr>wm_pc := (if over then (wm_pc s)(i := MpWrite (WBegin seq v)) else wm_pc s), wm_tv := (wm_tv s)(i := tv)\<rparr>"
    using a by (auto simp: MpPublisher_weak_step_def split: mp_writer.splits option.splits)
  show ?thesis
  proof (cases over)
    case True
    then show ?thesis using weak_mp_wait [OF inv pc] acc s' by (simp add: hist_grows_def)
  next
    case False
    then show ?thesis using inv pc wait_in [OF weak_mp_invD(9,10) [OF inv] acc] unfolding weak_mp_inv_def claims_fit_def writers_fit_def Let_def s'
      by (auto simp: hist_grows_def)
  qed
next
  case (MpWriteAccess i t)
  then obtain pc M hs pc' tv where pc: "wm_pc s i = MpWrite pc"
      and acc: "Slot_write_access t (wm_mem s) (wm_hist s) pc (wm_tv s i) = Some (M, hs, pc', tv)"
      and s': "s' = s\<lparr>wm_mem := M, wm_hist := hs, wm_tv := (wm_tv s)(i := tv),
                       wm_pc := (wm_pc s)(i := (if pc' = WDone then MpIdle else MpWrite pc'))\<rparr>"
    using a by (auto simp: MpPublisher_weak_step_def split: mp_writer.splits option.splits)
  show ?thesis using weak_mp_write [OF inv pc acc] s' by simp
qed

lemma weak_mp_inv_init:
  assumes "RingIndex_new c = Inr index" "unat k < unat c"
  shows "weak_mp_inv index k w (weak_mp_init f)"
  using RingIndex_new_Inr [OF assms(1)] assms(2) slot_hist_init
  by (simp add: weak_mp_inv_def weak_mp_init_def laps_ok_def claims_fit_def writers_fit_def slot_mem_init_def mem_in_init)

interpretation weak_mp: weak_writers "MpPublisher_weak_step index k w" wm_mem wm_hist "weak_mp_inv index k w" w for index k w
proof
  show "slot_hist w (wm_mem s) (wm_hist s)" "mem_in (wm_mem s)" if "weak_mp_inv index k w s" for s
    using weak_mp_invD(3,9) [OF that] .
qed (use weak_mp_step in blast)+

section \<open>Concrete runs\<close>

definition index_two :: ring_index where
  "index_two = \<lparr>ri_capacity = 2, ri_mask = 1, ri_reciprocal = 2 ^ 63, ri_is_pow2 = True\<rparr>"

lemma index_two_new: "RingIndex_new 2 = Inr index_two"
  by code_simp

text \<open>Two messages go through the slot; a reader that has seen neither reads the older one afterwards.\<close>

definition stale_read :: "pub_action weak_event list" where
  "stale_read =
     map Writer (PubStart [7, 8] tv_init # map PubAccess [1, 0, 1, 1, 2] @ [PubElse tv_init, PubStart [9, 10] tv_init] @
                 map PubAccess [3, 0, 2, 2, 4]) @
     BeginRead 0 0 tv_init # map (Reader 0) [2, 1, 1, 0, 2]"

text \<open>Two publishers one lap apart: the second waits until the stamp of the first arrives.\<close>

definition handover :: "mp_action weak_event list" where
  "handover = map Writer
     ([MpClaim 0 [7, 8] tv_init, MpElse, MpClaim 1 [9, 10] tv_init, MpWaitAccess 1 0, MpWaitAccess 0 0] @
      map (MpWriteAccess 0) [1, 0, 1, 1, 2] @ MpWaitAccess 1 1 # MpWaitAccess 1 2 # map (MpWriteAccess 1) [3, 0, 2, 2, 4])"

definition handover_read :: "mp_action weak_event list" where
  "handover_read = handover @ BeginRead 0 2 tv_init # map (Reader 0) [4, 2, 2, 0, 4]"

definition handover_seen :: "mp_action weak_event list" where
  "handover_seen = handover @ [BeginRead 0 2 (tv_init\<lparr>tv_cur := (\<lambda>l. if l = StampLoc then 4 else 0)\<rparr>)]"

section \<open>Properties\<close>

text \<open>
  C4: \<^bold>\<open>The seqlock is safe under the memory orderings of the source, one publisher.\<close>  Whatever messages the
  loads of the readers return, and however they interleave with \<^verbatim>\<open>Slot::write\<close>, a value that \<^verbatim>\<open>try_read\<close> accepts
  for a sequence number is the value published under that number.
\<close>

theorem weak_spmc_no_torn_read:
  assumes "weak_run w (Publisher_weak_step index k w) wp_mem (weak_pub_init f) s rs"
    and "rs i = (RDone seq (Inr (Some buf)), tv)"
  shows "map_of (published (wp_hist s)) seq = Some buf"
  using weak_sp.accepted_published [OF assms(1) weak_pub_inv_init assms(2)] .

theorem weak_spmc_no_torn_read_witness:
  "\<exists>s rs tv. weak_play 2 (Publisher_weak_step index_two 0 2) wp_mem stale_read (weak_pub_init (\<lambda>_. 0), no_reads) = Some (s, rs) \<and>
     rs 0 = (RDone 0 (Inr (Some [7, 8])), tv) \<and> map_of (published (wp_hist s)) 0 = Some [7, 8]"
proof -
  have "(case weak_play 2 (Publisher_weak_step index_two 0 2) wp_mem stale_read (weak_pub_init (\<lambda>_. 0), no_reads) of
      None \<Rightarrow> None | Some (s, rs) \<Rightarrow> Some (fst (rs 0))) = Some (RDone 0 (Inr (Some [7, 8])))" by code_simp
  then obtain s rs where p: "weak_play 2 (Publisher_weak_step index_two 0 2) wp_mem stale_read (weak_pub_init (\<lambda>_. 0), no_reads) = Some (s, rs)"
      and rd: "fst (rs 0) = RDone 0 (Inr (Some [7, 8]))" by (auto split: option.splits)
  have "rs 0 = (RDone 0 (Inr (Some [7, 8])), snd (rs 0))" using rd by (metis prod.collapse)
  then show ?thesis using p weak_spmc_no_torn_read [OF weak_play_run [OF weak_run.start p]] by metis
qed

text \<open>
  C3: \<^bold>\<open>The same with several publishers.\<close>  \<^verbatim>\<open>wait_for_slot\<close> hands a slot from lap to lap in an order that the readers
  see too: with any number of publishers a value that \<^verbatim>\<open>try_read\<close> accepts for a sequence number is the value the
  publisher that claimed the number has written.
\<close>

theorem weak_mpmc_no_torn_read:
  assumes "RingIndex_new c = Inr index" "unat k < unat c"
    and "weak_run w (MpPublisher_weak_step index k w) wm_mem (weak_mp_init f) s rs"
    and "rs i = (RDone seq (Inr (Some buf)), tv)"
  shows "map_of (published (wm_hist s)) seq = Some buf"
  using weak_mp.accepted_published [OF assms(3) weak_mp_inv_init [OF assms(1,2)] assms(4)] .

theorem weak_mpmc_no_torn_read_witness:
  "\<exists>s rs tv. weak_play 2 (MpPublisher_weak_step index_two 0 2) wm_mem handover_read (weak_mp_init (\<lambda>_. 0), no_reads) = Some (s, rs) \<and>
     rs 0 = (RDone 2 (Inr (Some [9, 10])), tv) \<and> map_of (published (wm_hist s)) 2 = Some [9, 10]"
proof -
  have "(case weak_play 2 (MpPublisher_weak_step index_two 0 2) wm_mem handover_read (weak_mp_init (\<lambda>_. 0), no_reads) of
      None \<Rightarrow> None | Some (s, rs) \<Rightarrow> Some (fst (rs 0))) = Some (RDone 2 (Inr (Some [9, 10])))" by code_simp
  then obtain s rs where p: "weak_play 2 (MpPublisher_weak_step index_two 0 2) wm_mem handover_read (weak_mp_init (\<lambda>_. 0), no_reads) = Some (s, rs)"
      and rd: "fst (rs 0) = RDone 2 (Inr (Some [9, 10]))" by (auto split: option.splits)
  have "rs 0 = (RDone 2 (Inr (Some [9, 10])), snd (rs 0))" using rd by (metis prod.collapse)
  then show ?thesis using p weak_mpmc_no_torn_read [OF index_two_new _ weak_play_run [OF weak_run.start p]] by auto
qed

text \<open>
  C16: \<^bold>\<open>A published message is readable.\<close>  With any number of publishers, a reader that has seen the final stamp of
  the newest message of a slot can always finish reading it, and no such read fails, whatever its loads return: it
  ends with the message.
\<close>

theorem weak_newest_read:
  assumes "RingIndex_new c = Inr index" "unat k < unat c"
    and "weak_run w (MpPublisher_weak_step index k w) wm_mem (weak_mp_init f) s rs"
    and "wm_hist s \<noteq> []" "lp_done (last (wm_hist s)) = Some d"
    and "rs i = (RStamp (lp_seq (last (wm_hist s))), tv)" "d \<le> tv_cur tv StampLoc"
  shows "(\<exists>ts rs'. weak_play w (MpPublisher_weak_step index k w) wm_mem (map (Reader i) ts) (s, rs) = Some (s, rs') \<and>
      fst (rs' i) = RDone (lp_seq (last (wm_hist s))) (Inr (Some (lp_value (last (wm_hist s)))))) \<and>
    (\<forall>ts s' rs' q res. weak_play w (MpPublisher_weak_step index k w) wm_mem (map (Reader i) ts) (s, rs) = Some (s', rs') \<and>
      fst (rs' i) = RDone q res \<longrightarrow> res = Inr (Some (lp_value (last (wm_hist s)))))"
  using weak_mp.newest_read [OF assms(3) weak_mp_inv_init [OF assms(1,2)] assms(4-7)] by blast

theorem weak_newest_read_witness:
  "\<exists>s rs ts rs'. weak_play 2 (MpPublisher_weak_step index_two 0 2) wm_mem handover_seen (weak_mp_init (\<lambda>_. 0), no_reads) = Some (s, rs) \<and>
     weak_play 2 (MpPublisher_weak_step index_two 0 2) wm_mem (map (Reader 0) ts) (s, rs) = Some (s, rs') \<and>
     fst (rs' 0) = RDone 2 (Inr (Some [9, 10]))"
proof -
  let ?act = "MpPublisher_weak_step index_two 0 2"
  have "(case weak_play 2 ?act wm_mem handover_seen (weak_mp_init (\<lambda>_. 0), no_reads) of
      None \<Rightarrow> None
    | Some (s, rs) \<Rightarrow>
        let l = last (wm_hist s)
        in Some (length (wm_hist s), lp_seq l, lp_value l, lp_done l, fst (rs 0), tv_cur (snd (rs 0)) StampLoc)) =
    Some (2, 2, [9, 10], Some 4, RStamp 2, 4)" by code_simp
  then obtain s rs where p: "weak_play 2 ?act wm_mem handover_seen (weak_mp_init (\<lambda>_. 0), no_reads) = Some (s, rs)"
      and l: "length (wm_hist s) = 2" "lp_seq (last (wm_hist s)) = 2" "lp_value (last (wm_hist s)) = [9, 10]"
        "lp_done (last (wm_hist s)) = Some 4" and rd: "fst (rs 0) = RStamp 2" "tv_cur (snd (rs 0)) StampLoc = 4"
    by (auto simp: Let_def split: option.splits)
  have rs: "rs 0 = (RStamp (lp_seq (last (wm_hist s))), snd (rs 0))" using rd(1) l(2) by (metis prod.collapse)
  have "wm_hist s \<noteq> []" using l(1) by auto
  then obtain ts rs' where "weak_play 2 ?act wm_mem (map (Reader 0) ts) (s, rs) = Some (s, rs')"
      "fst (rs' 0) = RDone 2 (Inr (Some [9, 10]))"
    using weak_newest_read [OF index_two_new _ weak_play_run [OF weak_run.start p] _ l(4) rs] rd(2) l(2,3) by auto
  then show ?thesis using p by blast
qed

end
