(* ===== verification/Weak_Cursor.thy ===== *)
theory Weak_Cursor
  imports Weak_Memory Mp_Publisher
begin

text \<open>
  The publishers of \<^verbatim>\<open>channel_mpmc\<close> on the memory of theory \<open>Weak_Memory\<close>, with the orderings of
  \<^verbatim>\<open>src/src/channel/mp_publisher.rs\<close> and \<^verbatim>\<open>src/src/slot.rs\<close>: the whole of \<^verbatim>\<open>publish\<close>, that is the claim,
  \<^verbatim>\<open>wait_for_slot\<close>, \<^verbatim>\<open>Slot::write\<close>, \<^verbatim>\<open>advance_cursor\<close> and \<^verbatim>\<open>catch_up_cursor\<close>, over all slots, the cursor and the counter.
  The program counters are those of theory \<open>Mp_Publisher\<close>, whose steps read only newest values.

  A compare-and-exchange that succeeds replaces the newest message of its location and one that fails is a
  relaxed load, which may return an older message; the loads of \<^verbatim>\<open>next_seq\<close> and of the stamps may do so too.  The
  cursor stays safe under these orderings: it takes the values 0, 1, 2, ... in turn, each only once the message
  has been written.  But it is not eventually consistent: all publishers can be done, and the cursor stay behind
  for good.
\<close>

section \<open>Read-modify-write accesses\<close>

text \<open>A read-modify-write access reads the message at \<open>t\<close> and writes directly after it.  The new message continues the
  release sequence of the old one.\<close>

definition atomic_rmw ::
    "('l, 'v) memory \<Rightarrow> ordering \<Rightarrow> ordering \<Rightarrow> 'l \<Rightarrow> nat \<Rightarrow> 'v \<Rightarrow> 'l tview \<Rightarrow> (('l, 'v) memory \<times> 'l tview) option" where
  "atomic_rmw M ld st l t v tv =
     (case M l t of
        None \<Rightarrow> None
      | Some m0 \<Rightarrow>
          (case atomic_load M ld l t tv of
             None \<Rightarrow> None
           | Some (_, tv1) \<Rightarrow>
               if M l (Suc t) \<noteq> None then None
               else
                 let cur = vseen (tv_cur tv1) l (Suc t);
                     view = vjoin (if st = Release then cur else vseen (tv_rel tv1) l (Suc t)) (ms_view m0)
                 in Some (M(l := (M l)(Suc t \<mapsto> \<lparr>ms_val = v, ms_view = view\<rparr>)),
                      tv1\<lparr>tv_cur := cur, tv_acq := vseen (tv_acq tv1) l (Suc t)\<rparr>)))"

text \<open>\<^verbatim>\<open>compare_exchange(expected, new, Release, Relaxed)\<close>.\<close>

definition atomic_cas ::
    "('l, 'v) memory \<Rightarrow> 'l \<Rightarrow> nat \<Rightarrow> 'v \<Rightarrow> 'v \<Rightarrow> 'l tview \<Rightarrow> (bool \<times> ('l, 'v) memory \<times> 'l tview) option" where
  "atomic_cas M l t expected new tv =
     (case atomic_load M Relaxed l t tv of
        None \<Rightarrow> None
      | Some (x, tv1) \<Rightarrow>
          if x = expected
          then map_option (\<lambda>(M', tv'). (True, M', tv')) (atomic_rmw M Relaxed Release l t new tv)
          else Some (False, M, tv1))"

section \<open>One access of a publishing thread\<close>

datatype mp_loc = MpCursor | MpNextSeq | MpStamp nat | MpWord nat nat

type_synonym mp_mem = "(mp_loc, u64) memory"
type_synonym mp_tview = "mp_loc tview"
type_synonym mp_access = "(mp_mem \<times> u64 pc \<times> mp_tview) option"

definition mp_slot :: "ring_index \<Rightarrow> u64 \<Rightarrow> nat" where
  "mp_slot index seq = unat (RingIndex_slot index seq)"

text \<open>\<^verbatim>\<open>next_seq.fetch_add(1, AcqRel)\<close>.  Claims stop short of \<open>2 ^ 63 - 1\<close>, where the stamps become ambiguous.\<close>

definition claim_access :: "u64 list \<Rightarrow> nat \<Rightarrow> mp_mem \<Rightarrow> mp_tview \<Rightarrow> mp_access" where
  "claim_access v t M tv =
     (case M MpNextSeq t of
        None \<Rightarrow> None
      | Some m \<Rightarrow>
          if ms_val m \<ge> 2 ^ 63 - 2 then None
          else map_option (\<lambda>(M', tv'). (M', WaitSlot (ms_val m) v, tv'))
                 (atomic_rmw M Acquire Release MpNextSeq t (ms_val m + 1) tv))"

definition wait_slot_access :: "ring_index \<Rightarrow> u64 \<Rightarrow> u64 list \<Rightarrow> nat \<Rightarrow> mp_mem \<Rightarrow> mp_tview \<Rightarrow> mp_access" where
  "wait_slot_access index seq v t M tv =
     (let cp = ri_capacity index
      in if seq < cp then Some (M, BeginWrite seq v, tv)
         else
           let lap_done = (seq - cp) * 2 + 2
           in map_option (\<lambda>(stamp, tv'). (M, if stamp < lap_done then WaitSlot seq v else BeginWrite seq v, tv'))
                (atomic_load M Acquire (MpStamp (mp_slot index seq)) t tv))"

text \<open>\<^verbatim>\<open>Slot::write\<close>: the writing stamp, followed by the release fence; the stripes of the payload; the done stamp.\<close>

definition write_begin_access :: "ring_index \<Rightarrow> u64 \<Rightarrow> u64 list \<Rightarrow> nat \<Rightarrow> mp_mem \<Rightarrow> mp_tview \<Rightarrow> mp_access" where
  "write_begin_access index seq v t M tv =
     map_option (\<lambda>(M', tv'). (M', StorePayload seq v 0, fence_release tv'))
       (atomic_store M Relaxed (MpStamp (mp_slot index seq)) t (seq * 2 + 1) tv)"

definition write_piece_access ::
    "ring_index \<Rightarrow> u64 \<Rightarrow> u64 list \<Rightarrow> nat \<Rightarrow> nat \<Rightarrow> mp_mem \<Rightarrow> mp_tview \<Rightarrow> mp_access" where
  "write_piece_access index seq v j t M tv =
     (if j < length v
      then map_option (\<lambda>(M', tv'). (M', StorePayload seq v (Suc j), tv'))
             (atomic_store M Relaxed (MpWord (mp_slot index seq) j) t (v ! j) tv)
      else map_option (\<lambda>(M', tv'). (M', FirstCas seq, tv'))
             (atomic_store M Release (MpStamp (mp_slot index seq)) t (seq * 2 + 2) tv))"

definition first_cas_access :: "u64 \<Rightarrow> nat \<Rightarrow> mp_mem \<Rightarrow> mp_tview \<Rightarrow> mp_access" where
  "first_cas_access seq t M tv =
     map_option (\<lambda>(won, M', tv'). (M', if won then CatchUp seq else if seq > 0 then WaitPred seq else SecondCas seq, tv'))
       (atomic_cas M MpCursor t (expected_cursor seq) seq tv)"

definition wait_pred_access :: "ring_index \<Rightarrow> u64 \<Rightarrow> nat \<Rightarrow> mp_mem \<Rightarrow> mp_tview \<Rightarrow> mp_access" where
  "wait_pred_access index seq t M tv =
     (let pred_done = (seq - 1) * 2 + 2
      in map_option (\<lambda>(stamp, tv'). (M, if stamp < pred_done then WaitPred seq else SecondCas seq, tv'))
           (atomic_load M Acquire (MpStamp (mp_slot index (seq - 1))) t tv))"

definition second_cas_access :: "u64 \<Rightarrow> nat \<Rightarrow> mp_mem \<Rightarrow> mp_tview \<Rightarrow> mp_access" where
  "second_cas_access seq t M tv =
     map_option (\<lambda>(won, M', tv'). (M', CheckCursor seq, tv')) (atomic_cas M MpCursor t (expected_cursor seq) seq tv)"

definition check_cursor_access :: "u64 \<Rightarrow> nat \<Rightarrow> mp_mem \<Rightarrow> mp_tview \<Rightarrow> mp_access" where
  "check_cursor_access seq t M tv =
     map_option (\<lambda>(x, tv'). (M, if x = seq then CatchUp seq else Idle, tv')) (atomic_load M Relaxed MpCursor t tv)"

definition catch_up_bound_access :: "u64 \<Rightarrow> nat \<Rightarrow> mp_mem \<Rightarrow> mp_tview \<Rightarrow> mp_access" where
  "catch_up_bound_access seq t M tv =
     map_option (\<lambda>(claimed, tv'). (M, if seq + 1 \<ge> claimed then Idle else CatchUpStamp seq, tv'))
       (atomic_load M Acquire MpNextSeq t tv)"

definition catch_up_stamp_access :: "ring_index \<Rightarrow> u64 \<Rightarrow> nat \<Rightarrow> mp_mem \<Rightarrow> mp_tview \<Rightarrow> mp_access" where
  "catch_up_stamp_access index seq t M tv =
     (let next = seq + 1; done_stamp = next * 2 + 2
      in map_option (\<lambda>(stamp, tv'). (M, if stamp < done_stamp then Idle else CatchUpCas seq, tv'))
           (atomic_load M Acquire (MpStamp (mp_slot index next)) t tv))"

definition catch_up_cas_access :: "u64 \<Rightarrow> nat \<Rightarrow> mp_mem \<Rightarrow> mp_tview \<Rightarrow> mp_access" where
  "catch_up_cas_access seq t M tv =
     (let next = seq + 1
      in map_option (\<lambda>(won, M', tv'). (M', if won then CatchUp next else Idle, tv')) (atomic_cas M MpCursor t seq next tv))"

definition MpPublisher_publish_access ::
    "ring_index \<Rightarrow> u64 list \<Rightarrow> nat \<Rightarrow> mp_mem \<Rightarrow> u64 pc \<Rightarrow> mp_tview \<Rightarrow> mp_access" where
  "MpPublisher_publish_access index v t M p tv =
     (case p of
        Idle \<Rightarrow> claim_access v t M tv
      | WaitSlot seq u \<Rightarrow> wait_slot_access index seq u t M tv
      | BeginWrite seq u \<Rightarrow> write_begin_access index seq u t M tv
      | StorePayload seq u j \<Rightarrow> write_piece_access index seq u j t M tv
      | FirstCas seq \<Rightarrow> first_cas_access seq t M tv
      | WaitPred seq \<Rightarrow> wait_pred_access index seq t M tv
      | SecondCas seq \<Rightarrow> second_cas_access seq t M tv
      | CheckCursor seq \<Rightarrow> check_cursor_access seq t M tv
      | CatchUp seq \<Rightarrow> catch_up_bound_access seq t M tv
      | CatchUpStamp seq \<Rightarrow> catch_up_stamp_access index seq t M tv
      | CatchUpCas seq \<Rightarrow> catch_up_cas_access seq t M tv)"

section \<open>The system of all threads\<close>

record weak_ring =
  wr_mem :: mp_mem
  wr_pc :: "nat \<Rightarrow> u64 pc"
  wr_tv :: "nat \<Rightarrow> mp_tview"

text \<open>A thread, the value it publishes if it starts anew, and the timestamp of its next access.\<close>

type_synonym mp_choice = "nat \<times> u64 list \<times> nat"

definition weak_ring_step :: "ring_index \<Rightarrow> mp_choice \<Rightarrow> weak_ring \<Rightarrow> weak_ring option" where
  "weak_ring_step index = (\<lambda>(i, v, t) s.
     case MpPublisher_publish_access index v t (wr_mem s) (wr_pc s i) (wr_tv s i) of
       None \<Rightarrow> None
     | Some (M, p, tv) \<Rightarrow> Some \<lparr>wr_mem = M, wr_pc = (wr_pc s)(i := p), wr_tv = (wr_tv s)(i := tv)\<rparr>)"

text \<open>The ring of \<^verbatim>\<open>channel_mpmc\<close>: the cursor at \<^verbatim>\<open>u64::MAX\<close>, the counter and the stamps zero.\<close>

definition weak_ring_init :: "(nat \<Rightarrow> nat \<Rightarrow> u64) \<Rightarrow> weak_ring" where
  "weak_ring_init f =
     \<lparr>wr_mem = mem_init (\<lambda>l. case l of MpCursor \<Rightarrow> u64_max | MpNextSeq \<Rightarrow> 0 | MpStamp i \<Rightarrow> 0 | MpWord i j \<Rightarrow> f i j),
      wr_pc = (\<lambda>_. Idle), wr_tv = (\<lambda>_. tv_init)\<rparr>"

inductive weak_ring_reaches :: "ring_index \<Rightarrow> weak_ring \<Rightarrow> weak_ring \<Rightarrow> bool" for index s0 where
  weak_ring_start: "weak_ring_reaches index s0 s0"
| weak_ring_next: "weak_ring_reaches index s0 s \<Longrightarrow> weak_ring_step index a s = Some s' \<Longrightarrow> weak_ring_reaches index s0 s'"

fun weak_ring_run :: "ring_index \<Rightarrow> mp_choice list \<Rightarrow> weak_ring \<Rightarrow> weak_ring option" where
  "weak_ring_run index [] s = Some s"
| "weak_ring_run index (a # as) s =
     (case weak_ring_step index a s of None \<Rightarrow> None | Some s' \<Rightarrow> weak_ring_run index as s')"

text \<open>The values a load of the cursor, and of the counter, can return.\<close>

definition cursor_values :: "weak_ring \<Rightarrow> u64 set" where
  "cursor_values s = {ms_val m | t m. wr_mem s MpCursor t = Some m}"

definition claimed_values :: "weak_ring \<Rightarrow> u64 set" where
  "claimed_values s = {ms_val m | t m. wr_mem s MpNextSeq t = Some m}"

section \<open>What an access changes\<close>

definition mem_grows :: "('l, 'v) memory \<Rightarrow> ('l, 'v) memory \<Rightarrow> bool" where
  "mem_grows M M' \<longleftrightarrow> (\<forall>l t m. M l t = Some m \<longrightarrow> M' l t = Some m)"

lemma mem_growsD: "mem_grows M M' \<Longrightarrow> M l t = Some m \<Longrightarrow> M' l t = Some m"
  by (simp add: mem_grows_def)

lemma mem_grows_refl [simp]: "mem_grows M M"
  by (simp add: mem_grows_def)

lemma mem_grows_add [simp]: "M l t = None \<Longrightarrow> mem_grows M (M(l := (M l)(t \<mapsto> m)))"
  by (auto simp: mem_grows_def)

lemma atomic_load_val: "atomic_load M ord l t tv = Some (x, tv') \<Longrightarrow> \<exists>m. M l t = Some m \<and> ms_val m = x"
  by (auto elim: atomic_loadE)

lemma atomic_store_adds:
  assumes "atomic_store M ord l t v tv = Some (M', tv')"
  obtains m where "M l t = None" "M' = M(l := (M l)(t \<mapsto> m))" "ms_val m = v"
  using assms by (auto simp: atomic_store_def Let_def split: if_splits)

lemma atomic_rmw_adds:
  assumes "atomic_rmw M ld st l t v tv = Some (M', tv')"
  obtains m m0 where "M l t = Some m0" "M l (Suc t) = None" "M' = M(l := (M l)(Suc t \<mapsto> m))" "ms_val m = v"
  using assms by (auto simp: atomic_rmw_def Let_def split: option.splits if_splits)

lemma atomic_cas_cases:
  assumes "atomic_cas M l t expected new tv = Some (won, M', tv')"
  obtains (Lost) "\<not> won" "M' = M" "\<And>m0. M l t = Some m0 \<Longrightarrow> ms_val m0 \<noteq> expected"
  | (Won) m m0 where won "M l t = Some m0" "ms_val m0 = expected" "M l (Suc t) = None"
      "M' = M(l := (M l)(Suc t \<mapsto> m))" "ms_val m = new"
proof -
  from assms obtain x tv1 where ld: "atomic_load M Relaxed l t tv = Some (x, tv1)"
    by (auto simp: atomic_cas_def split: option.splits)
  obtain m0 where m0: "M l t = Some m0" "ms_val m0 = x" using atomic_load_val [OF ld] by blast
  show thesis
  proof (cases "x = expected")
    case True
    with assms ld have won and rmw: "atomic_rmw M Relaxed Release l t new tv = Some (M', tv')"
      by (auto simp: atomic_cas_def)
    from rmw show thesis by (rule atomic_rmw_adds) (use Won m0 True \<open>won\<close> in auto)
  next
    case False
    with assms ld m0 show thesis by (intro Lost) (auto simp: atomic_cas_def)
  qed
qed

section \<open>The invariant of the cursor\<close>

text \<open>Message \<open>q\<close> has been claimed; the done stamp of message \<open>q\<close>, or a later one, has been stored in its slot.\<close>

definition claimed :: "mp_mem \<Rightarrow> nat \<Rightarrow> bool" where
  "claimed M q \<longleftrightarrow> M MpNextSeq (Suc q) \<noteq> None"

definition stamped :: "ring_index \<Rightarrow> mp_mem \<Rightarrow> nat \<Rightarrow> bool" where
  "stamped index M q \<longleftrightarrow> (\<exists>t m. M (MpStamp (mp_slot index (of_nat q))) t = Some m \<and> 2 * q + 2 \<le> unat (ms_val m))"

definition counter_ok :: "mp_mem \<Rightarrow> bool" where
  "counter_ok M \<longleftrightarrow> (\<forall>t m. M MpNextSeq t = Some m \<longrightarrow> ms_val m = of_nat t \<and> t < 2 ^ 63 - 1 \<and> (\<forall>t' \<le> t. M MpNextSeq t' \<noteq> None))"

definition cursor_hist :: "ring_index \<Rightarrow> mp_mem \<Rightarrow> bool" where
  "cursor_hist index M \<longleftrightarrow> (\<forall>t m. M MpCursor t = Some m \<longrightarrow> ms_val m = of_nat t - 1 \<and>
     (\<forall>q < t. M MpCursor q \<noteq> None \<and> claimed M q \<and> stamped index M q))"

primrec cursor_pc :: "ring_index \<Rightarrow> mp_mem \<Rightarrow> u64 pc \<Rightarrow> bool" where
  "cursor_pc index M Idle = True"
| "cursor_pc index M (WaitSlot seq v) = claimed M (unat seq)"
| "cursor_pc index M (BeginWrite seq v) = claimed M (unat seq)"
| "cursor_pc index M (StorePayload seq v j) = claimed M (unat seq)"
| "cursor_pc index M (FirstCas seq) = (claimed M (unat seq) \<and> stamped index M (unat seq))"
| "cursor_pc index M (WaitPred seq) = (claimed M (unat seq) \<and> stamped index M (unat seq))"
| "cursor_pc index M (SecondCas seq) = (claimed M (unat seq) \<and> stamped index M (unat seq))"
| "cursor_pc index M (CheckCursor seq) = (claimed M (unat seq) \<and> stamped index M (unat seq))"
| "cursor_pc index M (CatchUp seq) = claimed M (unat seq)"
| "cursor_pc index M (CatchUpStamp seq) = claimed M (unat (seq + 1))"
| "cursor_pc index M (CatchUpCas seq) = (claimed M (unat (seq + 1)) \<and> stamped index M (unat (seq + 1)))"

definition cursor_inv :: "ring_index \<Rightarrow> weak_ring \<Rightarrow> bool" where
  "cursor_inv index s \<longleftrightarrow> counter_ok (wr_mem s) \<and> cursor_hist index (wr_mem s) \<and> (\<forall>i. cursor_pc index (wr_mem s) (wr_pc s i))"

lemma claimed_grows: "mem_grows M M' \<Longrightarrow> claimed M q \<Longrightarrow> claimed M' q"
  by (auto simp: claimed_def dest: mem_growsD)

lemma stamped_grows: "mem_grows M M' \<Longrightarrow> stamped index M q \<Longrightarrow> stamped index M' q"
  by (auto simp: stamped_def dest: mem_growsD)

lemma cursor_pc_grows: "mem_grows M M' \<Longrightarrow> cursor_pc index M p \<Longrightarrow> cursor_pc index M' p"
  by (cases p) (auto intro: claimed_grows stamped_grows)

lemma claimed_bound: "counter_ok M \<Longrightarrow> claimed M q \<Longrightarrow> Suc q < 2 ^ 63 - 1"
  unfolding counter_ok_def claimed_def by blast

text \<open>Accesses that do not write the cursor or the counter.\<close>

lemma elsewhere_keeps:
  assumes "mem_grows M M'" "M' MpCursor = M MpCursor" "M' MpNextSeq = M MpNextSeq" "counter_ok M" "cursor_hist index M"
  shows "counter_ok M' \<and> cursor_hist index M'"
  using assms claimed_grows [OF assms(1)] stamped_grows [OF assms(1)] by (auto simp: counter_ok_def cursor_hist_def)

lemma claim_keeps:
  assumes ok: "counter_ok M" "cursor_hist index M" and m0: "M MpNextSeq t = Some m0" "ms_val m0 < 2 ^ 63 - 2"
    and new: "M MpNextSeq (Suc t) = None" "M' = M(MpNextSeq := (M MpNextSeq)(Suc t \<mapsto> m))" "ms_val m = ms_val m0 + 1"
  shows "counter_ok M' \<and> cursor_hist index M' \<and> claimed M' (unat (ms_val m0)) \<and> mem_grows M M'"
proof -
  have grows: "mem_grows M M'" using new by simp
  have t: "ms_val m0 = of_nat t" "t < 2 ^ 63 - 1" using ok(1) m0(1) by (auto simp: counter_ok_def)
  have "unat (ms_val m0) < 2 ^ 63 - 2" using m0(2) by (simp add: word_less_nat_alt)
  moreover have "unat (ms_val m0) = t" using t by (simp add: unat_of_nat)
  ultimately have "counter_ok M'" "claimed M' (unat (ms_val m0))"
    using ok(1) m0(1) new t by (auto simp: counter_ok_def claimed_def algebra_simps le_Suc_eq)
  moreover have "cursor_hist index M'"
    using ok(2) claimed_grows [OF grows] stamped_grows [OF grows] by (auto simp: cursor_hist_def new(2))
  ultimately show ?thesis using grows by blast
qed

lemma cas_keeps:
  assumes ok: "counter_ok M" "cursor_hist index M" and cas: "atomic_cas M MpCursor t (seq - 1) seq tv = Some (won, M', tv')"
    and seq: "claimed M (unat seq)" "stamped index M (unat seq)"
  shows "counter_ok M' \<and> cursor_hist index M' \<and> mem_grows M M'"
  using cas
proof (cases rule: atomic_cas_cases)
  case (Won m m0)
  have m0: "ms_val m0 = of_nat t - 1" "\<forall>q < t. M MpCursor q \<noteq> None \<and> claimed M q \<and> stamped index M q"
    using ok(2) Won(2) by (auto simp: cursor_hist_def)
  have "t < 2 ^ 63"
  proof (cases t)
    case (Suc q)
    then show ?thesis using claimed_bound [OF ok(1), of q] m0(2) by simp
  qed simp
  moreover have "seq = of_nat t" using Won(3) m0(1) by (simp add: diff_eq_eq)
  ultimately have t: "unat seq = t" "of_nat (Suc t) - 1 = seq" by (simp_all add: unat_of_nat)
  have grows: "mem_grows M M'" using Won(4,5) by simp
  have old: "M' MpCursor q \<noteq> None \<and> claimed M' q \<and> stamped index M' q" if "q < Suc t" for q
    using that seq m0(2) t(1) Won(2,5) claimed_grows [OF grows] stamped_grows [OF grows] by (cases "q = t") auto
  have "cursor_hist index M'"
    using ok(2) old Won(5,6) t(2) claimed_grows [OF grows] stamped_grows [OF grows] by (auto simp: cursor_hist_def)
  then show ?thesis using grows ok(1) Won(5) by (auto simp: counter_ok_def)
qed (use ok in simp)

lemma expected_cursor_pred: "expected_cursor seq = seq - 1"
  by (simp add: expected_cursor_def)

lemma stamped_newer: "M (MpStamp (mp_slot index seq)) t = Some m \<Longrightarrow> \<not> ms_val m < seq * 2 + 2 \<Longrightarrow> unat seq < 2 ^ 63 - 1 \<Longrightarrow>
    stamped index M (unat seq)"
  unfolding stamped_def by (intro exI [of _ t] exI [of _ m]) (simp add: word_less_nat_alt unat_u64_stamp_done)

text \<open>The accesses up to the done stamp, and those of \<^verbatim>\<open>advance_cursor\<close> and \<^verbatim>\<open>catch_up_cursor\<close>.\<close>

lemma cursor_access_write:
  assumes ok: "counter_ok M" "cursor_hist index M" "cursor_pc index M p"
    and a: "MpPublisher_publish_access index v t M p tv = Some (M', p', tv')"
    and p: "p = Idle \<or> (\<exists>seq u. p = BeginWrite seq u) \<or> (\<exists>seq u j. p = StorePayload seq u j)"
  shows "counter_ok M' \<and> cursor_hist index M' \<and> cursor_pc index M' p' \<and> mem_grows M M'"
proof (cases p)
  case Idle
  with a obtain m0 where m0: "M MpNextSeq t = Some m0" "ms_val m0 < 2 ^ 63 - 2" "p' = WaitSlot (ms_val m0) v"
      and rmw: "atomic_rmw M Acquire Release MpNextSeq t (ms_val m0 + 1) tv = Some (M', tv')"
    by (auto simp: MpPublisher_publish_access_def claim_access_def split: option.splits if_splits)
  from rmw obtain m where "M MpNextSeq (Suc t) = None" "M' = M(MpNextSeq := (M MpNextSeq)(Suc t \<mapsto> m))" "ms_val m = ms_val m0 + 1"
    by (rule atomic_rmw_adds) blast
  then show ?thesis using claim_keeps [OF ok(1,2) m0(1,2)] m0(3) by simp
next
  case (BeginWrite seq u)
  with a obtain tv1 where st: "atomic_store M Relaxed (MpStamp (mp_slot index seq)) t (seq * 2 + 1) tv = Some (M', tv1)"
      and p': "p' = StorePayload seq u 0"
    by (auto simp: MpPublisher_publish_access_def write_begin_access_def)
  from st obtain m where "mem_grows M M'" "M' MpCursor = M MpCursor" "M' MpNextSeq = M MpNextSeq"
    by (rule atomic_store_adds) auto
  then show ?thesis using elsewhere_keeps ok BeginWrite p' claimed_grows by auto
next
  case (StorePayload seq u j)
  show ?thesis
  proof (cases "j < length u")
    case True
    with a StorePayload have st: "atomic_store M Relaxed (MpWord (mp_slot index seq) j) t (u ! j) tv = Some (M', tv')"
        and p': "p' = StorePayload seq u (Suc j)"
      by (auto simp: MpPublisher_publish_access_def write_piece_access_def)
    from st obtain m where "mem_grows M M'" "M' MpCursor = M MpCursor" "M' MpNextSeq = M MpNextSeq"
      by (rule atomic_store_adds) auto
    then show ?thesis using elsewhere_keeps ok StorePayload p' claimed_grows by auto
  next
    case False
    with a StorePayload have st: "atomic_store M Release (MpStamp (mp_slot index seq)) t (seq * 2 + 2) tv = Some (M', tv')"
        and p': "p' = FirstCas seq"
      by (auto simp: MpPublisher_publish_access_def write_piece_access_def)
    from st obtain m where new: "mem_grows M M'" "M' MpCursor = M MpCursor" "M' MpNextSeq = M MpNextSeq"
        "M' (MpStamp (mp_slot index seq)) t = Some m" "ms_val m = seq * 2 + 2"
      by (rule atomic_store_adds) auto
    have "Suc (unat seq) < 2 ^ 63 - 1" using claimed_bound [OF ok(1)] ok(3) StorePayload by simp
    then have "stamped index M' (unat seq)" using stamped_newer [where M = M', OF new(4)] new(5) by simp
    then show ?thesis using elsewhere_keeps [OF new(1-3) ok(1,2)] ok(3) StorePayload p' claimed_grows [OF new(1)] new(1) by auto
  qed
qed (use p in auto)

lemma cursor_access:
  assumes ok: "counter_ok M" "cursor_hist index M" "cursor_pc index M p"
    and a: "MpPublisher_publish_access index v t M p tv = Some (M', p', tv')"
  shows "counter_ok M' \<and> cursor_hist index M' \<and> cursor_pc index M' p' \<and> mem_grows M M'"
proof (cases p)
  case (WaitSlot seq u)
  then show ?thesis using a ok
    by (auto simp: MpPublisher_publish_access_def wait_slot_access_def Let_def split: if_splits)
next
  case (FirstCas seq)
  with a obtain won where cas: "atomic_cas M MpCursor t (seq - 1) seq tv = Some (won, M', tv')"
      and p': "p' = (if won then CatchUp seq else if seq > 0 then WaitPred seq else SecondCas seq)"
    by (auto simp: MpPublisher_publish_access_def first_cas_access_def expected_cursor_pred)
  show ?thesis using cas_keeps [OF ok(1,2) cas] ok(3) FirstCas p' claimed_grows stamped_grows by auto
next
  case (WaitPred seq)
  then show ?thesis using a ok by (auto simp: MpPublisher_publish_access_def wait_pred_access_def Let_def split: if_splits)
next
  case (SecondCas seq)
  with a obtain won where cas: "atomic_cas M MpCursor t (seq - 1) seq tv = Some (won, M', tv')" and p': "p' = CheckCursor seq"
    by (auto simp: MpPublisher_publish_access_def second_cas_access_def expected_cursor_pred)
  show ?thesis using cas_keeps [OF ok(1,2) cas] ok(3) SecondCas p' claimed_grows stamped_grows by auto
next
  case (CheckCursor seq)
  then show ?thesis using a ok by (auto simp: MpPublisher_publish_access_def check_cursor_access_def split: if_splits)
next
  case (CatchUp seq)
  then obtain x where ld: "atomic_load M Acquire MpNextSeq t tv = Some (x, tv')" "M' = M"
      and p': "p' = (if seq + 1 \<ge> x then Idle else CatchUpStamp seq)"
    using a by (auto simp: MpPublisher_publish_access_def catch_up_bound_access_def)
  obtain m where m: "M MpNextSeq t = Some m" "ms_val m = x" using atomic_load_val [OF ld(1)] by blast
  have t: "x = of_nat t" "t < 2 ^ 63 - 1" "\<forall>t' \<le> t. M MpNextSeq t' \<noteq> None" using ok(1) m by (auto simp: counter_ok_def)
  have "claimed M (unat (seq + 1))" if "seq + 1 < x"
  proof -
    have "unat (seq + 1) < t" using that t(1,2) by (simp add: word_less_nat_alt unat_of_nat)
    then show ?thesis using t(3) by (simp add: claimed_def)
  qed
  then show ?thesis using ok ld(2) p' by (auto simp: not_le)
next
  case (CatchUpStamp seq)
  then obtain x where ld: "atomic_load M Acquire (MpStamp (mp_slot index (seq + 1))) t tv = Some (x, tv')" "M' = M"
      and p': "p' = (if x < (seq + 1) * 2 + 2 then Idle else CatchUpCas seq)"
    using a by (auto simp: MpPublisher_publish_access_def catch_up_stamp_access_def Let_def)
  have "Suc (unat (seq + 1)) < 2 ^ 63 - 1" using claimed_bound [OF ok(1)] ok(3) CatchUpStamp by simp
  then show ?thesis using atomic_load_val [OF ld(1)] stamped_newer [of M index "seq + 1" t] ok CatchUpStamp ld(2) p' by auto
next
  case (CatchUpCas seq)
  with a obtain won where cas: "atomic_cas M MpCursor t ((seq + 1) - 1) (seq + 1) tv = Some (won, M', tv')"
      and p': "p' = (if won then CatchUp (seq + 1) else Idle)"
    by (auto simp: MpPublisher_publish_access_def catch_up_cas_access_def Let_def)
  show ?thesis using cas_keeps [OF ok(1,2) cas] ok(3) CatchUpCas p' claimed_grows by auto
qed (use cursor_access_write [OF ok a] in auto)

lemma cursor_inv_init: "cursor_inv index (weak_ring_init f)"
  by (auto simp: cursor_inv_def weak_ring_init_def mem_init_def counter_ok_def cursor_hist_def split: if_splits)

lemma weak_ring_stepE:
  assumes "weak_ring_step index a s = Some s'"
  obtains i v t M p tv where "MpPublisher_publish_access index v t (wr_mem s) (wr_pc s i) (wr_tv s i) = Some (M, p, tv)"
    "s' = \<lparr>wr_mem = M, wr_pc = (wr_pc s)(i := p), wr_tv = (wr_tv s)(i := tv)\<rparr>"
  using assms by (cases a) (auto simp: weak_ring_step_def split: option.splits)

lemma cursor_inv_step:
  assumes "cursor_inv index s" "weak_ring_step index a s = Some s'"
  shows "cursor_inv index s'"
proof -
  from assms(2) obtain i v t M p tv where
      acc: "MpPublisher_publish_access index v t (wr_mem s) (wr_pc s i) (wr_tv s i) = Some (M, p, tv)"
    and s': "s' = \<lparr>wr_mem = M, wr_pc = (wr_pc s)(i := p), wr_tv = (wr_tv s)(i := tv)\<rparr>" by (rule weak_ring_stepE)
  have "counter_ok M \<and> cursor_hist index M \<and> cursor_pc index M p \<and> mem_grows (wr_mem s) M"
    using assms(1) cursor_access [OF _ _ _ acc] by (simp add: cursor_inv_def)
  then show ?thesis using assms(1) cursor_pc_grows by (auto simp: cursor_inv_def s')
qed

lemma cursor_inv_reaches: "weak_ring_reaches index s s' \<Longrightarrow> cursor_inv index s \<Longrightarrow> cursor_inv index s'"
  by (induction rule: weak_ring_reaches.induct) (auto intro: cursor_inv_step)

lemma weak_ring_reaches_trans: "weak_ring_reaches index s' s'' \<Longrightarrow> weak_ring_reaches index s s' \<Longrightarrow> weak_ring_reaches index s s''"
  by (induction rule: weak_ring_reaches.induct) (auto intro: weak_ring_next)

lemma weak_ring_run_reaches: "weak_ring_run index as s = Some s' \<Longrightarrow> weak_ring_reaches index s s'"
proof (induction as arbitrary: s)
  case (Cons a as)
  then obtain s1 where s1: "weak_ring_step index a s = Some s1" "weak_ring_reaches index s1 s'"
    by (auto split: option.splits)
  have "weak_ring_reaches index s s1" using s1(1) by (rule weak_ring_next [OF weak_ring_start])
  then show ?case by (rule weak_ring_reaches_trans [OF s1(2)])
qed (simp add: weak_ring_start)

section \<open>A cursor that nobody moves any more\<close>

text \<open>The counter has passed 2, the cursor holds nothing but \<^verbatim>\<open>u64::MAX\<close> and 0, and no thread is catching up: every
  publisher that is still to come has a sequence number of at least 2 and expects the cursor at 1 or later.\<close>

primrec late_pc :: "u64 pc \<Rightarrow> bool" where
  "late_pc Idle = True"
| "late_pc (WaitSlot seq v) = (2 \<le> seq \<and> seq < u64_max)"
| "late_pc (BeginWrite seq v) = (2 \<le> seq \<and> seq < u64_max)"
| "late_pc (StorePayload seq v j) = (2 \<le> seq \<and> seq < u64_max)"
| "late_pc (FirstCas seq) = (2 \<le> seq \<and> seq < u64_max)"
| "late_pc (WaitPred seq) = (2 \<le> seq \<and> seq < u64_max)"
| "late_pc (SecondCas seq) = (2 \<le> seq \<and> seq < u64_max)"
| "late_pc (CheckCursor seq) = (2 \<le> seq \<and> seq < u64_max)"
| "late_pc (CatchUp seq) = False"
| "late_pc (CatchUpStamp seq) = False"
| "late_pc (CatchUpCas seq) = False"

definition stuck_at_0 :: "mp_mem \<Rightarrow> bool" where
  "stuck_at_0 M \<longleftrightarrow> (\<forall>t m. M MpCursor t = Some m \<longrightarrow> ms_val m = u64_max \<or> ms_val m = 0) \<and>
     (\<forall>t m. M MpNextSeq t = Some m \<and> M MpNextSeq (Suc t) = None \<longrightarrow> 2 \<le> ms_val m)"

definition stuck_inv :: "weak_ring \<Rightarrow> bool" where
  "stuck_inv s \<longleftrightarrow> stuck_at_0 (wr_mem s) \<and> (\<forall>i. late_pc (wr_pc s i))"

lemma late_cas_fails:
  assumes "stuck_at_0 M" "2 \<le> seq" "atomic_cas M MpCursor t (expected_cursor seq) seq tv = Some (won, M', tv')"
  shows "\<not> won \<and> M' = M"
  using assms(3)
proof (cases rule: atomic_cas_cases)
  case (Won m m0)
  have "ms_val m0 = - 1 \<or> ms_val m0 = 0" using assms(1) Won(2) unfolding stuck_at_0_def by blast
  then have "seq - 1 = - 1 \<or> seq - 1 = 0" using Won(3) by (simp add: expected_cursor_pred)
  then have "seq = 0 \<or> seq = 1" by (auto simp: diff_eq_eq)
  then show ?thesis using assms(2) by (auto simp: word_le_nat_alt)
qed simp

lemma late_check_fails:
  assumes "stuck_at_0 M" "2 \<le> seq" "seq < u64_max" "atomic_load M ord MpCursor t tv = Some (x, tv')"
  shows "x \<noteq> seq"
proof -
  have "x = u64_max \<or> x = 0" using atomic_load_val [OF assms(4)] assms(1) unfolding stuck_at_0_def by blast
  then show ?thesis using assms(2,3) by (auto simp: word_le_nat_alt)
qed

lemma stuck_elsewhere:
  assumes "stuck_at_0 M" "atomic_store M ord l t v tv = Some (M', tv')" "l \<noteq> MpCursor" "l \<noteq> MpNextSeq"
  shows "stuck_at_0 M'"
  using assms(2) by (rule atomic_store_adds) (use assms in \<open>auto simp: stuck_at_0_def\<close>)

lemma stuck_claim:
  assumes "stuck_at_0 M" "claim_access v t M tv = Some (M', p', tv')"
  shows "stuck_at_0 M' \<and> late_pc p'"
proof -
  from assms(2) obtain m0 where m0: "M MpNextSeq t = Some m0" "ms_val m0 < 2 ^ 63 - 2" "p' = WaitSlot (ms_val m0) v"
      and rmw: "atomic_rmw M Acquire Release MpNextSeq t (ms_val m0 + 1) tv = Some (M', tv')"
    by (auto simp: claim_access_def split: option.splits if_splits)
  from rmw obtain m where new: "M MpNextSeq (Suc t) = None" "M' = M(MpNextSeq := (M MpNextSeq)(Suc t \<mapsto> m))"
      "ms_val m = ms_val m0 + 1"
    by (rule atomic_rmw_adds) blast
  have two: "2 \<le> ms_val m0" using assms(1) m0(1) new(1) by (auto simp: stuck_at_0_def)
  then have "2 \<le> ms_val m" "ms_val m0 < u64_max" using m0(2) new(3) by (auto simp: word_le_nat_alt word_less_nat_alt unat_u64_Suc)
  then show ?thesis using assms(1) new(2) two m0(3) by (auto simp: stuck_at_0_def)
qed

lemma stuck_access:
  assumes "stuck_at_0 M" "late_pc p" and a: "MpPublisher_publish_access index v t M p tv = Some (M', p', tv')"
  shows "stuck_at_0 M' \<and> late_pc p'"
proof (cases p)
  case Idle
  then show ?thesis using stuck_claim [OF assms(1)] a by (simp add: MpPublisher_publish_access_def)
next
  case (FirstCas seq)
  then show ?thesis using a assms(1,2) late_cas_fails [OF assms(1), of seq]
    by (fastforce simp: MpPublisher_publish_access_def first_cas_access_def split: if_splits)
next
  case (SecondCas seq)
  then show ?thesis using a assms(1,2) late_cas_fails [OF assms(1), of seq]
    by (fastforce simp: MpPublisher_publish_access_def second_cas_access_def)
next
  case (CheckCursor seq)
  then show ?thesis using a assms(1,2) late_check_fails [OF assms(1), of seq]
    by (auto simp: MpPublisher_publish_access_def check_cursor_access_def)
qed (use a assms(1,2) in \<open>auto simp: MpPublisher_publish_access_def wait_slot_access_def write_begin_access_def
  write_piece_access_def wait_pred_access_def Let_def split: if_splits elim!: stuck_elsewhere\<close>)

lemma stuck_step: "stuck_inv s \<Longrightarrow> weak_ring_step index a s = Some s' \<Longrightarrow> stuck_inv s'"
  by (erule weak_ring_stepE) (auto simp: stuck_inv_def dest: stuck_access)

lemma stuck_reaches: "weak_ring_reaches index s s' \<Longrightarrow> stuck_inv s \<Longrightarrow> stuck_inv s'"
  by (induction rule: weak_ring_reaches.induct) (auto intro: stuck_step)

lemma weak_ring_run_others: "weak_ring_run index as s = Some s' \<Longrightarrow> i \<notin> fst ` set as \<Longrightarrow> wr_pc s' i = wr_pc s i"
proof (induction as arbitrary: s)
  case (Cons a as)
  then obtain s1 where s1: "weak_ring_step index a s = Some s1" "weak_ring_run index as s1 = Some s'"
    by (auto split: option.splits)
  have "wr_pc s1 i = wr_pc s i" using s1(1) Cons.prems(2) by (cases a) (auto simp: weak_ring_step_def split: option.splits)
  then show ?case using Cons.IH [OF s1(2)] Cons.prems(2) by simp
qed simp

section \<open>Properties\<close>

text \<open>
  \<^bold>\<open>The cursor of the multi-producer channel is safe under the source's orderings.\<close>  Whatever value of the
  cursor a thread loads, in any run of any number of publishers, every message up to it has been claimed and
  its done stamp, or that of a later message of the same slot, has been stored.
\<close>

theorem weak_cursor_no_gap:
  assumes "RingIndex_new c = Inr index" "weak_ring_reaches index (weak_ring_init f) s"
    and "x \<in> cursor_values s" "x \<noteq> u64_max" "q \<le> unat x"
  shows "(\<exists>n \<in> claimed_values s. q < unat n) \<and>
    (\<exists>t m. wr_mem s (MpStamp (q mod unat c)) t = Some m \<and> 2 * q + 2 \<le> unat (ms_val m))"
proof -
  have inv: "counter_ok (wr_mem s)" "cursor_hist index (wr_mem s)"
    using cursor_inv_reaches [OF assms(2) cursor_inv_init] by (simp_all add: cursor_inv_def)
  from assms(3) obtain t m where m: "wr_mem s MpCursor t = Some m" "ms_val m = x" by (auto simp: cursor_values_def)
  have t: "x = of_nat t - 1" "\<forall>q < t. claimed (wr_mem s) q \<and> stamped index (wr_mem s) q"
    using inv(2) m by (auto simp: cursor_hist_def)
  then obtain p where p: "t = Suc p" using assms(4) by (cases t) auto
  then have "Suc p < 2 ^ 63 - 1" using t(2) claimed_bound [OF inv(1)] by simp
  then have "q < t" using assms(5) t(1) p by (simp add: unat_of_nat)
  then have q: "claimed (wr_mem s) q" "stamped index (wr_mem s) q" using t(2) by auto
  from q(1) obtain m' where m': "wr_mem s MpNextSeq (Suc q) = Some m'" by (auto simp: claimed_def)
  then have "ms_val m' = of_nat (Suc q)" "Suc q < 2 ^ 63 - 1" using inv(1) unfolding counter_ok_def by blast+
  then have n: "unat (ms_val m') = Suc q" "unat (of_nat q :: u64) = q" by (simp_all add: unat_of_nat del: of_nat_Suc)
  then have "ms_val m' \<in> claimed_values s" "q < unat (ms_val m')" using m' by (auto simp: claimed_values_def)
  moreover have "mp_slot index (of_nat q) = q mod unat c"
    using RingIndex_slot_unat [OF assms(1), of "of_nat q"] n(2) by (simp add: mp_slot_def)
  ultimately show ?thesis using q(2) by (auto simp: stamped_def)
qed

text \<open>Two publishers on a ring of 64 slots.  Thread 1, with sequence number 1, sees the done stamp of message 0
  but tries to move the cursor before thread 0 has; thread 0 then moves it to 0 and reads \<^verbatim>\<open>next_seq\<close> as its own claim
  left it.\<close>

definition demo_index :: ring_index where
  "demo_index = projr (RingIndex_new 64)"

definition stuck_choices :: "mp_choice list" where
  "stuck_choices =
     [(0, [7], 0), (1, [8], 1), (0, [], 0), (0, [], 1), (0, [], 1), (0, [], 2),
      (1, [], 0), (1, [], 1), (1, [], 1), (1, [], 2), (1, [], 0), (1, [], 2), (1, [], 0), (1, [], 0),
      (0, [], 0), (0, [], 1)]"

definition seen_in :: "weak_ring \<Rightarrow> u64 pc list \<times> u64 option list" where
  "seen_in s = (map (wr_pc s) [0, 1],
     map (map_option ms_val) [wr_mem s MpCursor 0, wr_mem s MpCursor 1, wr_mem s MpCursor 2, wr_mem s MpNextSeq 2,
       wr_mem s (MpStamp 0) 2, wr_mem s (MpStamp 1) 2])"

lemma stuck_run:
  "map_option seen_in (weak_ring_run demo_index stuck_choices (weak_ring_init (\<lambda>_ _. 0))) =
     Some ([Idle, Idle], [Some u64_max, Some 0, None, Some 2, Some 2, Some 4])"
  by code_simp

theorem weak_cursor_no_gap_witness:
  "\<exists>s n t m. weak_ring_reaches demo_index (weak_ring_init (\<lambda>_ _. 0)) s \<and> 0 \<in> cursor_values s \<and>
     n \<in> claimed_values s \<and> 0 < unat n \<and> wr_mem s (MpStamp 0) t = Some m \<and> 2 \<le> unat (ms_val m)"
proof -
  obtain s where run: "weak_ring_run demo_index stuck_choices (weak_ring_init (\<lambda>_ _. 0)) = Some s"
      and "map_option ms_val (wr_mem s MpCursor 1) = Some 0"
    using stuck_run by (auto simp: seen_in_def)
  then have cur: "0 \<in> cursor_values s" by (force simp: cursor_values_def)
  have index: "RingIndex_new 64 = Inr demo_index" by (simp add: demo_index_def RingIndex_new_def Let_def)
  have reach: "weak_ring_reaches demo_index (weak_ring_init (\<lambda>_ _. 0)) s" by (rule weak_ring_run_reaches [OF run])
  from weak_cursor_no_gap [OF index reach cur, of 0] obtain n t m where
      "n \<in> claimed_values s" "0 < unat n" "wr_mem s (MpStamp 0) t = Some m" "2 \<le> unat (ms_val m)" by auto
  with reach cur show ?thesis by blast
qed

lemma stuck_inv_from:
  assumes "cursor_inv index s" "\<And>i. wr_pc s i = Idle" "wr_mem s MpCursor 2 = None" "wr_mem s MpNextSeq 2 \<noteq> None"
  shows "stuck_inv s"
proof -
  have "x = u64_max \<or> x = 0" if "wr_mem s MpCursor t = Some m" "x = ms_val m" for t m x
  proof -
    have x: "x = of_nat t - 1" "\<forall>q < t. wr_mem s MpCursor q \<noteq> None"
      using assms(1) that unfolding cursor_inv_def cursor_hist_def by blast+
    then have "\<not> 2 < t" "t \<noteq> 2" using assms(3) that(1) by auto
    then have "t = 0 \<or> t = 1" by linarith
    then show ?thesis using x(1) by auto
  qed
  moreover have "2 \<le> ms_val m" if "wr_mem s MpNextSeq t = Some m" "wr_mem s MpNextSeq (Suc t) = None" for t m
  proof -
    have "\<forall>t' \<le> 2. wr_mem s MpNextSeq t' \<noteq> None" using assms(1,4) unfolding cursor_inv_def counter_ok_def by blast
    then have "\<not> Suc t \<le> 2" using that(2) by blast
    moreover have "ms_val m = of_nat t" "t < 2 ^ 63 - 1"
      using assms(1) that(1) unfolding cursor_inv_def counter_ok_def by blast+
    ultimately show ?thesis by (simp add: word_le_nat_alt unat_of_nat)
  qed
  ultimately show ?thesis using assms(2) by (auto simp: stuck_inv_def stuck_at_0_def)
qed

text \<open>
  C17: \<^bold>\<open>The cursor is not eventually consistent.\<close>  Under the source's memory orderings there is a run of two
  publishers on a fresh ring of 64 slots after which both have returned from \<^verbatim>\<open>publish\<close>, both messages are
  completely written, and the cursor is at 0; in every continuation, whatever is published later, the
  cursor never leaves 0 again.
\<close>

theorem weak_cursor_stuck:
  "\<exists>s. weak_ring_reaches demo_index (weak_ring_init (\<lambda>_ _. 0)) s \<and> (\<forall>i. wr_pc s i = Idle) \<and>
     2 \<in> claimed_values s \<and> map_option ms_val (wr_mem s (MpStamp 0) 2) = Some 2 \<and>
     map_option ms_val (wr_mem s (MpStamp 1) 2) = Some 4 \<and>
     (\<Union>s' \<in> {s'. weak_ring_reaches demo_index s s'}. cursor_values s') = {u64_max, 0}"
proof -
  let ?s0 = "weak_ring_init (\<lambda>_ _. 0)"
  obtain s where run: "weak_ring_run demo_index stuck_choices ?s0 = Some s"
      and seen: "wr_pc s 0 = Idle" "wr_pc s 1 = Idle" "map_option ms_val (wr_mem s MpCursor 0) = Some u64_max"
        "map_option ms_val (wr_mem s MpCursor 1) = Some 0" "wr_mem s MpCursor 2 = None"
        "map_option ms_val (wr_mem s MpNextSeq 2) = Some 2" "map_option ms_val (wr_mem s (MpStamp 0) 2) = Some 2"
        "map_option ms_val (wr_mem s (MpStamp 1) 2) = Some 4"
    using stuck_run by (auto simp: seen_in_def)
  have reach: "weak_ring_reaches demo_index ?s0 s" by (rule weak_ring_run_reaches [OF run])
  have "fst ` set stuck_choices = {0, 1}" by (auto simp: stuck_choices_def)
  then have idle: "wr_pc s i = Idle" for i
    using weak_ring_run_others [OF run, of i] seen(1,2) by (cases "i \<in> {0, 1}") (auto simp: weak_ring_init_def)
  have stuck: "stuck_inv s"
    using stuck_inv_from [OF cursor_inv_reaches [OF reach cursor_inv_init] idle seen(5)] seen(6) by auto
  have "cursor_values s' \<subseteq> {u64_max, 0}" if "weak_ring_reaches demo_index s s'" for s'
    using stuck_reaches [OF that stuck] by (auto simp: stuck_inv_def stuck_at_0_def cursor_values_def)
  moreover have "u64_max \<in> cursor_values s" "0 \<in> cursor_values s" using seen(3,4) by (force simp: cursor_values_def)+
  moreover have "2 \<in> claimed_values s" using seen(6) by (force simp: claimed_values_def)
  ultimately show ?thesis using reach idle seen(7,8) weak_ring_start [of demo_index s] by (intro exI [of _ s]) blast
qed

end
