(* ===== verification/Weak_Event.thy ===== *)
theory Weak_Event
  imports Weak_Memory
begin

text \<open>
  The event ring of \<^verbatim>\<open>src/src/event.rs\<close> with the memory orderings of the source.  Its slots are mutated in place
  through \<^verbatim>\<open>&mut T\<close> and read through \<^verbatim>\<open>&T\<close>, without a seqlock, so that two conflicting accesses that are not ordered by
  happens-before are a data race.

  Races are detected with vector clocks.  The publisher numbers its mutations and every subscriber its reads;
  the views of theory \<open>Weak_Memory\<close> carry these numbers from thread to thread along the acquire and release edges,
  so that a thread has seen an access exactly when the access happens before what it does next.

  Trackers are \<^verbatim>\<open>Arc\<close> cells that the ring holds weakly.  Dropping a subscriber takes the strong count to zero and then,
  in a second step, releases the weak count the strong references share.  A failed \<^verbatim>\<open>Weak::upgrade\<close> is a relaxed
  load and synchronises with nothing; dropping the pruned \<^verbatim>\<open>Weak\<close> synchronises with the subscriber when it is the last
  one, that is when the second step has already been taken.
\<close>

section \<open>State\<close>

datatype ev_loc = CursorLoc | TrackLoc nat | ReadsLoc nat | WritesLoc

datatype ev_pub_pc = PIdle | PScan "nat list" "nat list" u64 bool | PMut

datatype ev_sub_pc = SIdle | SHold | SDropping | SGone

record weak_esub =
  we_cursor :: u64
  we_pc :: ev_sub_pc
  we_tv :: "ev_loc tview"
  we_reads :: "nat list"

record weak_event =
  ew_mem :: "(ev_loc, u64) memory"
  ew_seq :: u64
  ew_cached_slowest :: u64
  ew_pc :: ev_pub_pc
  ew_tv :: "ev_loc tview"
  ew_writes :: "nat list"
  ew_trackers :: "nat list"
  ew_lock :: "ev_loc view"
  ew_subs :: "weak_esub list"
  ew_early :: bool

definition sub_live :: "weak_esub \<Rightarrow> bool" where
  "sub_live x \<longleftrightarrow> we_pc x = SIdle \<or> we_pc x = SHold"

definition tick :: "'l \<Rightarrow> nat \<Rightarrow> 'l tview \<Rightarrow> 'l tview" where
  "tick l n tv = tv\<lparr>tv_cur := (tv_cur tv)(l := n)\<rparr>"

section \<open>The publisher\<close>

text \<open>The mutable borrow begins when \<^verbatim>\<open>has_room\<close> has returned true.\<close>

definition begin_mutation :: "weak_event \<Rightarrow> weak_event" where
  "begin_mutation s = s\<lparr>ew_pc := PMut, ew_writes := ew_writes s @ [unat (ew_seq s)]\<rparr>"

text \<open>\<^verbatim>\<open>has_room\<close> up to the cached check; otherwise the tracker lock is taken and the scan begins.  Sequence numbers stay
  a capacity below the end of their range.\<close>

definition has_room_access :: "u64 \<Rightarrow> weak_event \<Rightarrow> weak_event option" where
  "has_room_access cap s =
     (if ew_pc s \<noteq> PIdle \<or> cap \<ge> u64_max - ew_seq s then None
      else if ew_seq s \<ge> ew_cached_slowest s + cap
      then Some (s\<lparr>ew_pc := PScan [] (ew_trackers s) u64_max False,
                   ew_tv := (ew_tv s)\<lparr>tv_cur := vjoin (tv_cur (ew_tv s)) (ew_lock s)\<rparr>\<rparr>)
      else Some (begin_mutation s))"

text \<open>One tracker of the scan of \<^verbatim>\<open>slowest\<close>.\<close>

definition slowest_access :: "nat \<Rightarrow> weak_event \<Rightarrow> weak_event option" where
  "slowest_access t s =
     (case ew_pc s of
        PScan kept (j # rest) mn anyone \<Rightarrow>
          let x = ew_subs s ! j
          in if sub_live x
             then
               (case atomic_load (ew_mem s) Acquire (TrackLoc j) t (ew_tv s) of
                  None \<Rightarrow> None
                | Some (v, tv) \<Rightarrow> Some (s\<lparr>ew_tv := tv, ew_pc := PScan (kept @ [j]) rest (min mn v) True\<rparr>))
             else if we_pc x = SGone
             then Some (s\<lparr>ew_pc := PScan kept rest mn anyone,
                          ew_tv := (ew_tv s)\<lparr>tv_cur := vjoin (tv_cur (ew_tv s)) (tv_cur (we_tv x))\<rparr>\<rparr>)
             else Some (s\<lparr>ew_pc := PScan kept rest mn anyone, ew_early := True\<rparr>)
      | _ \<Rightarrow> None)"

text \<open>The end of the scan: the lock is released and \<^verbatim>\<open>has_room\<close> decides.\<close>

definition has_room_decide :: "u64 \<Rightarrow> weak_event \<Rightarrow> weak_event option" where
  "has_room_decide cap s =
     (case ew_pc s of
        PScan kept [] mn anyone \<Rightarrow>
          let s1 = s\<lparr>ew_trackers := kept, ew_lock := tv_cur (ew_tv s)\<rparr>
          in if anyone
             then
               let s2 = s1\<lparr>ew_cached_slowest := mn\<rparr>
               in Some (if ew_seq s \<ge> mn + cap then s2\<lparr>ew_pc := PIdle\<rparr> else begin_mutation s2)
             else Some (begin_mutation s1)
      | _ \<Rightarrow> None)"

text \<open>The closure returns, and the message is published; or it panics.\<close>

definition EventPublisher_write_access :: "nat \<Rightarrow> weak_event \<Rightarrow> weak_event option" where
  "EventPublisher_write_access t s =
     (if ew_pc s \<noteq> PMut then None
      else
        (case atomic_store (ew_mem s) Release CursorLoc t (ew_seq s) (tick WritesLoc (length (ew_writes s)) (ew_tv s)) of
           None \<Rightarrow> None
         | Some (M, tv) \<Rightarrow> Some (s\<lparr>ew_mem := M, ew_tv := tv, ew_seq := ew_seq s + 1, ew_pc := PIdle\<rparr>)))"

definition write_panics :: "weak_event \<Rightarrow> weak_event option" where
  "write_panics s =
     (if ew_pc s \<noteq> PMut then None
      else Some (s\<lparr>ew_pc := PIdle, ew_tv := tick WritesLoc (length (ew_writes s)) (ew_tv s)\<rparr>))"

section \<open>Subscribers\<close>

text \<open>\<^verbatim>\<open>subscribe\<close> runs under the tracker lock.  The calling thread has seen nothing yet, the least any thread can have
  seen.\<close>

definition subscribe_access :: "nat \<Rightarrow> weak_event \<Rightarrow> weak_event option" where
  "subscribe_access t s =
     (case ew_pc s of
        PScan _ _ _ _ \<Rightarrow> None
      | _ \<Rightarrow>
          (case atomic_load (ew_mem s) Acquire CursorLoc t \<lparr>tv_cur = ew_lock s, tv_acq = ew_lock s, tv_rel = (\<lambda>_. 0)\<rparr> of
             None \<Rightarrow> None
           | Some (head, tv) \<Rightarrow>
               let start = (if head = u64_max then 0 else head + 1);
                   j = length (ew_subs s)
               in Some (s\<lparr>ew_mem := (ew_mem s)(TrackLoc j := [0 \<mapsto> \<lparr>ms_val = start, ms_view = (\<lambda>_. 0)\<rparr>]),
                          ew_trackers := ew_trackers s @ [j], ew_lock := tv_cur tv,
                          ew_subs := ew_subs s @ [\<lparr>we_cursor = start, we_pc = SIdle, we_tv = tv, we_reads = []\<rparr>]\<rparr>)))"

definition put_sub :: "nat \<Rightarrow> weak_esub \<Rightarrow> weak_event \<Rightarrow> weak_event" where
  "put_sub j x s = s\<lparr>ew_subs := (ew_subs s)[j := x]\<rparr>"

text \<open>\<^verbatim>\<open>process\<close> up to the call of the closure, which borrows the slot.\<close>

definition process_access :: "nat \<Rightarrow> nat \<Rightarrow> weak_event \<Rightarrow> weak_event option" where
  "process_access j t s =
     (let x = ew_subs s ! j
      in if \<not> (j < length (ew_subs s) \<and> we_pc x = SIdle) then None
         else
           (case atomic_load (ew_mem s) Acquire CursorLoc t (we_tv x) of
              None \<Rightarrow> None
            | Some (head, tv) \<Rightarrow>
                if head = u64_max \<or> we_cursor x > head then Some (put_sub j (x\<lparr>we_tv := tv\<rparr>) s)
                else Some (put_sub j (x\<lparr>we_tv := tv, we_pc := SHold, we_reads := we_reads x @ [unat (we_cursor x)]\<rparr>) s)))"

text \<open>The closure returns and the tracker moves; or it panics and the message is not consumed.\<close>

definition processed_access :: "nat \<Rightarrow> nat \<Rightarrow> weak_event \<Rightarrow> weak_event option" where
  "processed_access j t s =
     (let x = ew_subs s ! j
      in if \<not> (j < length (ew_subs s) \<and> we_pc x = SHold) then None
         else
           (case atomic_store (ew_mem s) Release (TrackLoc j) t (we_cursor x + 1) (tick (ReadsLoc j) (length (we_reads x)) (we_tv x)) of
              None \<Rightarrow> None
            | Some (M, tv) \<Rightarrow>
                Some (put_sub j (x\<lparr>we_tv := tv, we_pc := SIdle, we_cursor := we_cursor x + 1\<rparr>) (s\<lparr>ew_mem := M\<rparr>))))"

definition process_panics :: "nat \<Rightarrow> weak_event \<Rightarrow> weak_event option" where
  "process_panics j s =
     (let x = ew_subs s ! j
      in if \<not> (j < length (ew_subs s) \<and> we_pc x = SHold) then None
         else Some (put_sub j (x\<lparr>we_pc := SIdle, we_tv := tick (ReadsLoc j) (length (we_reads x)) (we_tv x)\<rparr>) s))"

definition drop_access :: "nat \<Rightarrow> weak_event \<Rightarrow> weak_event option" where
  "drop_access j s =
     (let x = ew_subs s ! j
      in if \<not> j < length (ew_subs s) then None
         else if we_pc x = SIdle then Some (put_sub j (x\<lparr>we_pc := SDropping\<rparr>) s)
         else if we_pc x = SDropping then Some (put_sub j (x\<lparr>we_pc := SGone\<rparr>) s)
         else None)"

section \<open>Runs and races\<close>

datatype ev_action =
    HasRoom | Slowest nat | Decide | Write nat | WritePanics
  | Subscribe nat | Process nat nat | Processed nat nat | ProcessPanics nat | DropSub nat

primrec weak_event_do :: "u64 \<Rightarrow> ev_action \<Rightarrow> weak_event \<Rightarrow> weak_event option" where
  "weak_event_do cap HasRoom s = has_room_access cap s"
| "weak_event_do cap (Slowest t) s = slowest_access t s"
| "weak_event_do cap Decide s = has_room_decide cap s"
| "weak_event_do cap (Write t) s = EventPublisher_write_access t s"
| "weak_event_do cap WritePanics s = write_panics s"
| "weak_event_do cap (Subscribe t) s = subscribe_access t s"
| "weak_event_do cap (Process j t) s = process_access j t s"
| "weak_event_do cap (Processed j t) s = processed_access j t s"
| "weak_event_do cap (ProcessPanics j) s = process_panics j s"
| "weak_event_do cap (DropSub j) s = drop_access j s"

fun weak_event_run :: "u64 \<Rightarrow> ev_action list \<Rightarrow> weak_event \<Rightarrow> weak_event option" where
  "weak_event_run cap [] s = Some s"
| "weak_event_run cap (a # as) s =
     (case weak_event_do cap a s of None \<Rightarrow> None | Some s' \<Rightarrow> weak_event_run cap as s')"

definition weak_event_init :: weak_event where
  "weak_event_init =
     \<lparr>ew_mem = (\<lambda>l. if l = CursorLoc then [0 \<mapsto> \<lparr>ms_val = u64_max, ms_view = (\<lambda>_. 0)\<rparr>] else Map.empty),
      ew_seq = 0, ew_cached_slowest = 0, ew_pc = PIdle, ew_tv = tv_init, ew_writes = [],
      ew_trackers = [], ew_lock = (\<lambda>_. 0), ew_subs = [], ew_early = False\<rparr>"

text \<open>The publisher mutates a slot while a read of it has not been seen to be over, or a subscriber reads a slot that
  has a mutation it has not seen.\<close>

definition event_race :: "u64 \<Rightarrow> weak_event \<Rightarrow> bool" where
  "event_race cap s \<longleftrightarrow>
     ew_pc s = PMut \<and>
       (\<exists>j < length (ew_subs s). \<exists>n < length (we_reads (ew_subs s ! j)).
          we_reads (ew_subs s ! j) ! n mod unat cap = unat (ew_seq s) mod unat cap \<and> tv_cur (ew_tv s) (ReadsLoc j) \<le> n) \<or>
     (\<exists>x\<in>set (ew_subs s). we_pc x = SHold \<and>
        (\<exists>n < length (ew_writes s).
           ew_writes s ! n mod unat cap = unat (we_cursor x) mod unat cap \<and> tv_cur (we_tv x) WritesLoc \<le> n))"

section \<open>Invariant\<close>

definition next_seq :: "u64 \<Rightarrow> nat" where
  "next_seq v = (if v = u64_max then 0 else unat v + 1)"

text \<open>\<open>scan\<close> is the sequence number at the last scan of the trackers; the publisher has seen all reads of messages below
  \<open>safe\<close> and has not gone further than a capacity beyond it.\<close>

definition pub_ok :: "nat \<Rightarrow> nat \<Rightarrow> nat \<Rightarrow> weak_event \<Rightarrow> bool" where
  "pub_ok c scan safe s \<longleftrightarrow> 0 < c \<and>
     unat (ew_seq s) + c < 2 ^ 64 \<and> (ew_pc s \<noteq> PIdle \<longrightarrow> unat (ew_seq s) + c + 1 < 2 ^ 64) \<and>
     unat (ew_cached_slowest s) \<le> safe \<and> safe \<le> scan \<and> scan \<le> unat (ew_seq s) \<and>
     (\<forall>q\<in>set (ew_writes s). q \<le> unat (ew_seq s) \<and> q < safe + c) \<and> (ew_pc s = PMut \<longrightarrow> unat (ew_seq s) < safe + c)"

definition cursor_ok :: "nat \<Rightarrow> weak_event \<Rightarrow> bool" where
  "cursor_ok scan s \<longleftrightarrow>
     (\<forall>t m. ew_mem s CursorLoc t = Some m \<longrightarrow>
        t \<le> tv_cur (ew_tv s) CursorLoc \<and> (t = tv_cur (ew_tv s) CursorLoc \<longrightarrow> next_seq (ms_val m) = unat (ew_seq s)) \<and>
        (ew_lock s CursorLoc \<le> t \<longrightarrow> scan \<le> next_seq (ms_val m)) \<and> next_seq (ms_val m) \<le> unat (ew_seq s) \<and>
        (\<forall>n < length (ew_writes s). ew_writes s ! n < next_seq (ms_val m) \<longrightarrow> n < ms_view m WritesLoc))"

definition esub_fits :: "nat \<Rightarrow> weak_event \<Rightarrow> nat \<Rightarrow> weak_esub \<Rightarrow> bool" where
  "esub_fits safe s j x \<longleftrightarrow>
     (sub_live x \<longrightarrow> safe \<le> unat (we_cursor x)) \<and> unat (we_cursor x) \<le> unat (ew_seq s) \<and>
     (\<forall>r\<in>set (we_reads x). r \<le> unat (we_cursor x) \<and> r < unat (ew_seq s)) \<and>
     (\<forall>t m. ew_mem s (TrackLoc j) t = Some m \<longrightarrow>
        unat (ms_val m) \<le> unat (we_cursor x) \<and>
        (\<forall>n < length (we_reads x). we_reads x ! n < unat (ms_val m) \<longrightarrow> n < ms_view m (ReadsLoc j))) \<and>
     (\<forall>n < length (we_reads x). we_reads x ! n < safe \<longrightarrow> n < tv_cur (ew_tv s) (ReadsLoc j)) \<and>
     (we_pc x \<noteq> SHold \<longrightarrow> length (we_reads x) \<le> tv_cur (we_tv x) (ReadsLoc j)) \<and>
     (we_pc x = SHold \<longrightarrow> unat (we_cursor x) < unat (ew_seq s) \<and>
        (\<forall>n < length (ew_writes s). ew_writes s ! n \<le> unat (we_cursor x) \<longrightarrow> n < tv_cur (we_tv x) WritesLoc))"

text \<open>A subscriber the ring has no tracker of any more is gone, and the publisher has seen all its reads.\<close>

definition forgotten :: "weak_event \<Rightarrow> nat \<Rightarrow> weak_esub \<Rightarrow> bool" where
  "forgotten s j x \<longleftrightarrow> \<not> sub_live x \<and> length (we_reads x) \<le> tv_cur (ew_tv s) (ReadsLoc j)"

definition trackers_ok :: "weak_event \<Rightarrow> nat \<Rightarrow> weak_esub \<Rightarrow> bool" where
  "trackers_ok s j x \<longleftrightarrow>
     (case ew_pc s of
        PScan kept rest mn anyone \<Rightarrow>
          (j \<in> set kept \<longrightarrow> unat mn \<le> unat (we_cursor x) \<and>
             (\<forall>n < length (we_reads x). we_reads x ! n < unat mn \<longrightarrow> n < tv_cur (ew_tv s) (ReadsLoc j))) \<and>
          (j \<notin> set kept \<union> set rest \<longrightarrow> forgotten s j x)
      | _ \<Rightarrow> j \<notin> set (ew_trackers s) \<longrightarrow> forgotten s j x)"

definition scan_ok :: "weak_event \<Rightarrow> bool" where
  "scan_ok s \<longleftrightarrow>
     set (ew_trackers s) \<subseteq> {..<length (ew_subs s)} \<and>
     (case ew_pc s of
        PScan kept rest mn anyone \<Rightarrow> (anyone \<longleftrightarrow> kept \<noteq> []) \<and> set kept \<union> set rest \<subseteq> {..<length (ew_subs s)}
      | _ \<Rightarrow> True)"

definition ev_fits :: "nat \<Rightarrow> nat \<Rightarrow> nat \<Rightarrow> weak_event \<Rightarrow> bool" where
  "ev_fits c scan safe s \<longleftrightarrow>
     pub_ok c scan safe s \<and> cursor_ok scan s \<and> scan_ok s \<and>
     (\<forall>j < length (ew_subs s). esub_fits safe s j (ew_subs s ! j) \<and> trackers_ok s j (ew_subs s ! j))"

lemma ev_fitsD:
  assumes "ev_fits c scan safe s"
  shows "pub_ok c scan safe s" "cursor_ok scan s" "scan_ok s"
    "j < length (ew_subs s) \<Longrightarrow> esub_fits safe s j (ew_subs s ! j)" "j < length (ew_subs s) \<Longrightarrow> trackers_ok s j (ew_subs s ! j)"
  using assms unfolding ev_fits_def by blast+

lemma same_slot_gap:
  fixes r q c :: nat
  assumes "r mod c = q mod c" "r < q"
  shows "r + c \<le> q"
  using assms by (metis add.commute le_add_diff_inverse less_imp_le mod_eq_dvd_iff_nat nat_dvd_not_less not_le zero_less_diff add_le_cancel_left)

text \<open>The invariant excludes races.\<close>

lemma ev_fits_no_race:
  assumes inv: "ev_fits (unat cap) scan safe s"
  shows "\<not> event_race cap s"
proof -
  have pub: "q \<le> unat (ew_seq s) \<and> q < safe + unat cap" if "q \<in> set (ew_writes s)" for q
    using ev_fitsD(1) [OF inv] that by (simp add: pub_ok_def)
  have "n < tv_cur (ew_tv s) (ReadsLoc j)"
    if m: "ew_pc s = PMut" and j: "j < length (ew_subs s)" and n: "n < length (we_reads (ew_subs s ! j))"
      and eq: "we_reads (ew_subs s ! j) ! n mod unat cap = unat (ew_seq s) mod unat cap" for j n
  proof -
    have x: "esub_fits safe s j (ew_subs s ! j)" using ev_fitsD(4) [OF inv j] .
    then have "we_reads (ew_subs s ! j) ! n < unat (ew_seq s)" using n by (simp add: esub_fits_def)
    then have "we_reads (ew_subs s ! j) ! n + unat cap \<le> unat (ew_seq s)" using same_slot_gap [OF eq] by simp
    moreover have "unat (ew_seq s) < safe + unat cap" using ev_fitsD(1) [OF inv] m by (simp add: pub_ok_def)
    ultimately have "we_reads (ew_subs s ! j) ! n < safe" by simp
    then show ?thesis using x n by (simp add: esub_fits_def)
  qed
  moreover have "n < tv_cur (we_tv x) WritesLoc"
    if x: "x \<in> set (ew_subs s)" "we_pc x = SHold" and n: "n < length (ew_writes s)"
      and eq: "ew_writes s ! n mod unat cap = unat (we_cursor x) mod unat cap" for x n
  proof -
    obtain j where j: "j < length (ew_subs s)" "x = ew_subs s ! j" using x(1) by (auto simp: in_set_conv_nth)
    then have fit: "esub_fits safe s j x" using ev_fitsD(4) [OF inv] by simp
    then have "safe \<le> unat (we_cursor x)" using x(2) by (simp add: esub_fits_def sub_live_def)
    moreover have "ew_writes s ! n < safe + unat cap" using pub n by simp
    ultimately have "\<not> unat (we_cursor x) < ew_writes s ! n" using same_slot_gap [OF eq [symmetric]] by linarith
    then show ?thesis using fit x(2) n by (simp add: esub_fits_def)
  qed
  ultimately show ?thesis unfolding event_race_def by (meson not_le)
qed

lemma ev_fits_init: "0 < unat cap \<Longrightarrow> ev_fits (unat (cap :: u64)) 0 0 weak_event_init"
  using unat_u64_bound' [of cap] by (simp add: ev_fits_def pub_ok_def cursor_ok_def scan_ok_def weak_event_init_def next_seq_def tv_init_def)

section \<open>Preservation: the publisher\<close>

text \<open>What a subscriber is promised does not depend on how far the publisher has come since.\<close>

lemma esub_fits_mono:
  assumes "esub_fits safe s j x" "ew_mem s' (TrackLoc j) = ew_mem s (TrackLoc j)" "unat (ew_seq s) \<le> unat (ew_seq s')"
    and "tv_cur (ew_tv s) (ReadsLoc j) \<le> tv_cur (ew_tv s') (ReadsLoc j)"
    and "ew_writes s' = ew_writes s @ ws" "\<forall>q\<in>set ws. unat (ew_seq s) \<le> q"
    and "sub_live x \<Longrightarrow> safe' \<le> unat (we_cursor x)"
    and "\<And>n. n < length (we_reads x) \<Longrightarrow> safe \<le> we_reads x ! n \<Longrightarrow> we_reads x ! n < safe' \<Longrightarrow> n < tv_cur (ew_tv s') (ReadsLoc j)"
  shows "esub_fits safe' s' j x"
proof -
  have "n < tv_cur (we_tv x) WritesLoc"
    if "we_pc x = SHold" "n < length (ew_writes s')" "ew_writes s' ! n \<le> unat (we_cursor x)" for n
  proof -
    have hold: "unat (we_cursor x) < unat (ew_seq s)"
        "\<forall>n < length (ew_writes s). ew_writes s ! n \<le> unat (we_cursor x) \<longrightarrow> n < tv_cur (we_tv x) WritesLoc"
      using assms(1) that(1) unfolding esub_fits_def by blast+
    have "n < length (ew_writes s)"
    proof (rule ccontr)
      assume "\<not> n < length (ew_writes s)"
      then have "ew_writes s' ! n \<in> set ws" using that(2) assms(5) by (simp add: nth_append)
      then show False using assms(6) hold(1) that(3) by fastforce
    qed
    then show ?thesis using hold(2) that(3) assms(5) by (simp add: nth_append)
  qed
  moreover have "n < tv_cur (ew_tv s') (ReadsLoc j)" if "n < length (we_reads x)" "we_reads x ! n < safe'" for n
    using assms(1,4) assms(8) [OF that(1)] that unfolding esub_fits_def by (meson less_le_trans not_le)
  ultimately show ?thesis using assms(1,2,3,7) unfolding esub_fits_def by (fastforce intro: order_trans less_le_trans)
qed

lemma cursor_ok_mono:
  assumes "cursor_ok scan s" "ew_mem s' CursorLoc = ew_mem s CursorLoc" "ew_seq s' = ew_seq s"
    and "\<And>t m. ew_mem s CursorLoc t = Some m \<Longrightarrow> ew_lock s' CursorLoc \<le> t \<Longrightarrow> scan' \<le> next_seq (ms_val m)"
    and "tv_cur (ew_tv s) CursorLoc \<le> tv_cur (ew_tv s') CursorLoc"
    and "ew_writes s' = ew_writes s @ ws" "\<forall>q\<in>set ws. unat (ew_seq s) \<le> q"
  shows "cursor_ok scan' s'"
  unfolding cursor_ok_def
proof (intro allI impI)
  fix t m
  assume "ew_mem s' CursorLoc t = Some m"
  then have m: "ew_mem s CursorLoc t = Some m" using assms(2) by simp
  note c = assms(1) [unfolded cursor_ok_def, rule_format, OF m]
  have "n < ms_view m WritesLoc" if "n < length (ew_writes s')" "ew_writes s' ! n < next_seq (ms_val m)" for n
  proof -
    have "n < length (ew_writes s)"
    proof (rule ccontr)
      assume "\<not> n < length (ew_writes s)"
      then have "ew_writes s' ! n \<in> set ws" using that(1) assms(6) by (simp add: nth_append)
      then show False using assms(7) c that(2) by fastforce
    qed
    then show ?thesis using c that assms(6) by (simp add: nth_append)
  qed
  then show "t \<le> tv_cur (ew_tv s') CursorLoc \<and>
      (t = tv_cur (ew_tv s') CursorLoc \<longrightarrow> next_seq (ms_val m) = unat (ew_seq s')) \<and>
      (ew_lock s' CursorLoc \<le> t \<longrightarrow> scan' \<le> next_seq (ms_val m)) \<and> next_seq (ms_val m) \<le> unat (ew_seq s') \<and>
      (\<forall>n < length (ew_writes s'). ew_writes s' ! n < next_seq (ms_val m) \<longrightarrow> n < ms_view m WritesLoc)"
    using c assms(3,5) assms(4) [OF m] by auto
qed

lemma forgotten_mono:
  "forgotten s j x \<Longrightarrow> tv_cur (ew_tv s) (ReadsLoc j) \<le> tv_cur (ew_tv s') (ReadsLoc j) \<Longrightarrow> forgotten s' j x"
  by (auto simp: forgotten_def)

text \<open>A step of the publisher that stores nothing and keeps the lock.\<close>

lemma ev_fits_quiet:
  assumes inv: "ev_fits c scan safe s"
    and same: "ew_mem s' = ew_mem s" "ew_seq s' = ew_seq s" "ew_subs s' = ew_subs s" "ew_lock s' = ew_lock s"
    and view: "\<And>l. l \<noteq> WritesLoc \<Longrightarrow> tv_cur (ew_tv s) l \<le> tv_cur (ew_tv s') l"
    and writes: "ew_writes s' = ew_writes s @ ws" "\<forall>q\<in>set ws. unat (ew_seq s) \<le> q"
    and pub: "pub_ok c scan safe s'" "scan_ok s'" and tr: "\<And>j. j < length (ew_subs s) \<Longrightarrow> trackers_ok s' j (ew_subs s ! j)"
  shows "ev_fits c scan safe s'"
proof -
  have "cursor_ok scan s'"
    by (rule cursor_ok_mono [OF ev_fitsD(2) [OF inv] _ same(2) _ _ writes])
      (use ev_fitsD(2) [OF inv] in \<open>auto simp: same view cursor_ok_def\<close>)
  moreover have "esub_fits safe s' j (ew_subs s ! j)" if j: "j < length (ew_subs s)" for j
    by (rule esub_fits_mono [OF ev_fitsD(4) [OF inv j] _ _ _ writes])
      (use ev_fitsD(4) [OF inv j] in \<open>auto simp: same view esub_fits_def\<close>)
  ultimately show ?thesis using pub tr by (simp add: ev_fits_def same)
qed

lemma has_room_fits:
  assumes inv: "ev_fits (unat cap) scan safe s" and a: "has_room_access cap s = Some s'"
  shows "ev_fits (unat cap) scan safe s'"
proof -
  have "\<not> cap \<ge> u64_max - ew_seq s" using a by (auto simp: has_room_access_def split: if_splits)
  then have "unat (ew_seq s) + unat cap + 1 < 2 ^ 64"
    using unat_u64_le [of "ew_seq s"] by (simp add: word_le_nat_alt unat_u64_diff)
  moreover have "ew_pc s = PIdle" using a by (auto simp: has_room_access_def split: if_splits)
  ultimately have idle: "ew_pc s = PIdle" "unat (ew_seq s) + unat cap + 1 < 2 ^ 64" by blast+
  note p = ev_fitsD(1) [OF inv, unfolded pub_ok_def]
  have "unat (ew_cached_slowest s) + unat cap < 2 ^ 64" using p by linarith
  then have sum: "unat (ew_cached_slowest s + cap) = unat (ew_cached_slowest s) + unat cap" by (simp add: unat_u64_add)
  have tr: "j \<notin> set (ew_trackers s) \<longrightarrow> forgotten s j (ew_subs s ! j)" if "j < length (ew_subs s)" for j
    using ev_fitsD(5) [OF inv that] idle(1) by (simp add: trackers_ok_def)
  show ?thesis
  proof (cases "ew_seq s \<ge> ew_cached_slowest s + cap")
    case True
    then have s': "s' = s\<lparr>ew_pc := PScan [] (ew_trackers s) u64_max False,
        ew_tv := (ew_tv s)\<lparr>tv_cur := vjoin (tv_cur (ew_tv s)) (ew_lock s)\<rparr>\<rparr>"
      using a by (auto simp: has_room_access_def split: if_splits)
    show ?thesis
    proof (rule ev_fits_quiet [OF inv, where ws = "[]"])
      show "pub_ok (unat cap) scan safe s'" using p idle by (simp add: pub_ok_def s')
      show "scan_ok s'" using ev_fitsD(3) [OF inv] by (simp add: scan_ok_def s')
      show "trackers_ok s' j (ew_subs s ! j)" if "j < length (ew_subs s)" for j
        using tr [OF that] forgotten_mono [of s j _ s'] by (simp add: trackers_ok_def s')
    qed (simp_all add: s')
  next
    case False
    then have s': "s' = begin_mutation s" using a by (auto simp: has_room_access_def split: if_splits)
    have "unat (ew_seq s) < safe + unat cap" using False sum p by (simp add: word_le_nat_alt)
    then have "pub_ok (unat cap) scan safe s'" using p idle by (auto simp: pub_ok_def s' begin_mutation_def)
    moreover have "scan_ok s'" using ev_fitsD(3) [OF inv] by (simp add: scan_ok_def s' begin_mutation_def idle(1))
    moreover have "trackers_ok s' j (ew_subs s ! j)" if "j < length (ew_subs s)" for j
      using tr [OF that] by (simp add: trackers_ok_def s' begin_mutation_def forgotten_def)
    ultimately show ?thesis
      by (intro ev_fits_quiet [OF inv, where ws = "[unat (ew_seq s)]"]) (simp_all add: s' begin_mutation_def)
  qed
qed

lemma write_panics_fits:
  assumes inv: "ev_fits c scan safe s" and a: "write_panics s = Some s'"
  shows "ev_fits c scan safe s'"
proof -
  have m: "ew_pc s = PMut" and s': "s' = s\<lparr>ew_pc := PIdle, ew_tv := tick WritesLoc (length (ew_writes s)) (ew_tv s)\<rparr>"
    using a by (auto simp: write_panics_def split: if_splits)
  have "pub_ok c scan safe s'" "scan_ok s'" using ev_fitsD(1,3) [OF inv] m by (auto simp: pub_ok_def scan_ok_def s')
  moreover have "trackers_ok s' j (ew_subs s ! j)" if "j < length (ew_subs s)" for j
    using ev_fitsD(5) [OF inv that] m by (simp add: trackers_ok_def s' tick_def forgotten_def)
  ultimately show ?thesis by (intro ev_fits_quiet [OF inv, where ws = "[]"]) (simp_all add: s' tick_def)
qed

text \<open>A scan that does not prune the tracker of a subscriber in the middle of its drop.\<close>

lemma slowest_fits:
  assumes inv: "ev_fits c scan safe s" and a: "slowest_access t s = Some s'" and early: "\<not> ew_early s'"
  shows "ev_fits c scan safe s'"
proof -
  obtain kept j rest mn anyone where pc: "ew_pc s = PScan kept (j # rest) mn anyone"
    using a by (auto simp: slowest_access_def split: ev_pub_pc.splits list.splits)
  define x where "x = ew_subs s ! j"
  have j: "j < length (ew_subs s)" using ev_fitsD(3) [OF inv] pc by (simp add: scan_ok_def)
  have fit: "esub_fits safe s j x" using ev_fitsD(4) [OF inv j] by (simp add: x_def)
  note p = ev_fitsD(1) [OF inv]
  have tr: "(i \<in> set kept \<longrightarrow> unat mn \<le> unat (we_cursor (ew_subs s ! i)) \<and>
        (\<forall>n < length (we_reads (ew_subs s ! i)). we_reads (ew_subs s ! i) ! n < unat mn \<longrightarrow> n < tv_cur (ew_tv s) (ReadsLoc i))) \<and>
      (i \<notin> set kept \<union> set (j # rest) \<longrightarrow> forgotten s i (ew_subs s ! i))" if "i < length (ew_subs s)" for i
    using ev_fitsD(5) [OF inv that] pc by (simp add: trackers_ok_def)
  show ?thesis
  proof (cases "sub_live x")
    case True
    then obtain v tv where ld: "atomic_load (ew_mem s) Acquire (TrackLoc j) t (ew_tv s) = Some (v, tv)"
        and s': "s' = s\<lparr>ew_tv := tv, ew_pc := PScan (kept @ [j]) rest (min mn v) True\<rparr>"
      using a pc by (auto simp: slowest_access_def x_def Let_def split: option.splits)
    obtain m where m: "ew_mem s (TrackLoc j) t = Some m" "v = ms_val m" "\<And>l. tv_cur (ew_tv s) l \<le> tv_cur tv l"
        "\<And>l. ms_view m l \<le> tv_cur tv l"
      using atomic_loadE [OF ld] by metis
    show ?thesis
    proof (rule ev_fits_quiet [OF inv, where ws = "[]"])
      show "pub_ok c scan safe s'" using p pc by (simp add: pub_ok_def s')
      show "scan_ok s'" using ev_fitsD(3) [OF inv] pc by (auto simp: scan_ok_def s')
      show "trackers_ok s' i (ew_subs s ! i)" if i: "i < length (ew_subs s)" for i
      proof (cases "i = j")
        case True
        have "unat (ms_val m) \<le> unat (we_cursor x)"
            "\<forall>n < length (we_reads x). we_reads x ! n < unat (ms_val m) \<longrightarrow> n < ms_view m (ReadsLoc j)"
          using fit m(1) unfolding esub_fits_def by blast+
        then show ?thesis using True m(2) less_le_trans [OF _ m(4)]
          by (auto simp: trackers_ok_def s' x_def min_def word_le_nat_alt)
      next
        case False
        have "unat (min mn v) \<le> unat mn" by (simp add: min_def word_le_nat_alt)
        then show ?thesis using tr [OF i] False less_le_trans [OF _ m(3)] forgotten_mono [of s i _ s'] m(3)
          by (auto simp: trackers_ok_def s' intro: order_trans)
      qed
    qed (simp_all add: s' m(3))
  next
    case False
    then have gone: "we_pc x = SGone" using early a pc
      by (auto simp: slowest_access_def x_def Let_def split: if_splits)
    then have s': "s' = s\<lparr>ew_pc := PScan kept rest mn anyone,
        ew_tv := (ew_tv s)\<lparr>tv_cur := vjoin (tv_cur (ew_tv s)) (tv_cur (we_tv x))\<rparr>\<rparr>"
      using False a pc by (auto simp: slowest_access_def x_def Let_def)
    show ?thesis
    proof (rule ev_fits_quiet [OF inv, where ws = "[]"])
      show "pub_ok c scan safe s'" using p pc by (simp add: pub_ok_def s')
      show "scan_ok s'" using ev_fitsD(3) [OF inv] pc by (auto simp: scan_ok_def s')
      show "trackers_ok s' i (ew_subs s ! i)" if i: "i < length (ew_subs s)" for i
      proof -
        have "forgotten s' j x" using fit gone False by (simp add: forgotten_def esub_fits_def s' le_max_iff_disj)
        moreover have "forgotten s' i (ew_subs s ! i)" if "i \<notin> set kept \<union> set (j # rest)"
          using tr [OF i] that forgotten_mono [of s i _ s'] by (simp add: s')
        ultimately show ?thesis using tr [OF i] by (auto simp: trackers_ok_def s' x_def less_max_iff_disj)
      qed
    qed (simp_all add: s')
  qed
qed

text \<open>The end of a scan moves \<open>scan\<close> to the current sequence number and \<open>safe\<close> to what the scan has found.\<close>

lemma scanned_fits:
  assumes inv: "ev_fits c scan safe s" and pc: "ew_pc s = PScan kept [] mn anyone"
    and safe': "safe' = (if anyone then max safe (unat mn) else unat (ew_seq s))"
    and same: "ew_mem s' = ew_mem s" "ew_seq s' = ew_seq s" "ew_subs s' = ew_subs s" "ew_tv s' = ew_tv s"
      "ew_trackers s' = kept" "ew_lock s' = tv_cur (ew_tv s)"
    and cached: "ew_cached_slowest s' = (if anyone then mn else ew_cached_slowest s)"
    and writes: "ew_pc s' = PIdle \<and> ew_writes s' = ew_writes s \<or>
      ew_pc s' = PMut \<and> ew_writes s' = ew_writes s @ [unat (ew_seq s)] \<and> unat (ew_seq s) < safe' + c"
  shows "ev_fits c (unat (ew_seq s)) safe' s'"
proof -
  note p = ev_fitsD(1) [OF inv, unfolded pub_ok_def]
  have tr: "j \<in> set kept \<and> unat mn \<le> unat (we_cursor (ew_subs s ! j)) \<and>
        (\<forall>n < length (we_reads (ew_subs s ! j)). we_reads (ew_subs s ! j) ! n < unat mn \<longrightarrow> n < tv_cur (ew_tv s) (ReadsLoc j)) \<or>
      j \<notin> set kept \<and> forgotten s j (ew_subs s ! j)" if "j < length (ew_subs s)" for j
    using ev_fitsD(5) [OF inv that] pc by (auto simp: trackers_ok_def)
  have scan: "anyone \<longleftrightarrow> kept \<noteq> []" "set kept \<subseteq> {..<length (ew_subs s)}" using ev_fitsD(3) [OF inv] pc by (auto simp: scan_ok_def)
  have le: "unat mn \<le> unat (ew_seq s)" if "anyone"
  proof -
    obtain j where "j \<in> set kept" using scan(1) \<open>anyone\<close> by (cases kept) auto
    moreover from this have "j < length (ew_subs s)" using scan(2) by auto
    ultimately show ?thesis using tr ev_fitsD(4) [OF inv, of j] by (fastforce simp: esub_fits_def)
  qed
  obtain ws where ws: "ew_writes s' = ew_writes s @ ws" "\<forall>q\<in>set ws. unat (ew_seq s) \<le> q" using writes by auto
  have bounds: "safe \<le> safe'" "safe' \<le> unat (ew_seq s)" "unat (ew_cached_slowest s') \<le> safe'" using p le by (auto simp: safe' cached)
  have old: "q \<le> unat (ew_seq s) \<and> q < safe' + c" if "q \<in> set (ew_writes s)" for q
    using p that bounds(1) by (meson add_le_mono1 less_le_trans)
  have pub: "pub_ok c (unat (ew_seq s)) safe' s'"
    using p bounds old writes pc unfolding pub_ok_def same by auto
  have "cursor_ok (unat (ew_seq s)) s'"
  proof (rule cursor_ok_mono [OF ev_fitsD(2) [OF inv] _ same(2) _ _ ws])
    show "unat (ew_seq s) \<le> next_seq (ms_val m)" if "ew_mem s CursorLoc t = Some m" "ew_lock s' CursorLoc \<le> t" for t m
      using ev_fitsD(2) [OF inv, unfolded cursor_ok_def, rule_format, OF that(1)] that(2) by (simp add: same)
  qed (simp_all add: same)
  moreover have "scan_ok s'" using scan(2) writes by (auto simp: scan_ok_def same)
  moreover have "esub_fits safe' s' j (ew_subs s ! j) \<and> trackers_ok s' j (ew_subs s ! j)" if j: "j < length (ew_subs s)" for j
  proof
    show "esub_fits safe' s' j (ew_subs s ! j)"
    proof (rule esub_fits_mono [OF ev_fitsD(4) [OF inv j] _ _ _ ws])
      show "safe' \<le> unat (we_cursor (ew_subs s ! j))" if "sub_live (ew_subs s ! j)"
        using tr [OF j] that ev_fitsD(4) [OF inv j] scan(1) by (auto simp: forgotten_def esub_fits_def safe')
      show "n < tv_cur (ew_tv s') (ReadsLoc j)"
        if "n < length (we_reads (ew_subs s ! j))" "safe \<le> we_reads (ew_subs s ! j) ! n" "we_reads (ew_subs s ! j) ! n < safe'" for n
        using tr [OF j] that scan(1) by (auto simp: forgotten_def safe' same split: if_splits)
    qed (simp_all add: same)
    show "trackers_ok s' j (ew_subs s ! j)" using tr [OF j] writes by (auto simp: trackers_ok_def same forgotten_def)
  qed
  ultimately show ?thesis using pub by (simp add: ev_fits_def same)
qed

lemma has_room_decide_fits:
  assumes inv: "ev_fits (unat cap) scan safe s" and a: "has_room_decide cap s = Some s'"
  shows "\<exists>scan' safe'. ev_fits (unat cap) scan' safe' s'"
proof -
  obtain kept mn anyone where pc: "ew_pc s = PScan kept [] mn anyone"
    using a by (auto simp: has_room_decide_def split: ev_pub_pc.splits list.splits)
  define safe' where "safe' = (if anyone then max safe (unat mn) else unat (ew_seq s))"
  define s1 where "s1 = s\<lparr>ew_trackers := kept, ew_lock := tv_cur (ew_tv s)\<rparr>"
  note p = ev_fitsD(1) [OF inv, unfolded pub_ok_def]
  show ?thesis
  proof (cases anyone)
    case True
    have s': "s' = (if ew_seq s \<ge> mn + cap then s1\<lparr>ew_cached_slowest := mn, ew_pc := PIdle\<rparr>
        else begin_mutation (s1\<lparr>ew_cached_slowest := mn\<rparr>))"
      using a pc True by (auto simp: has_room_decide_def s1_def Let_def)
    have "unat (ew_seq s) < safe' + unat cap" if "\<not> ew_seq s \<ge> mn + cap"
    proof -
      have "unat (mn + cap) \<le> unat mn + unat cap" by (simp add: unat_word_ariths)
      then show ?thesis using that True by (simp add: word_le_nat_alt safe'_def)
    qed
    then show ?thesis
      by (intro exI [of _ "unat (ew_seq s)"] exI [of _ safe'] scanned_fits [OF inv pc safe'_def])
        (auto simp: s' s1_def begin_mutation_def True)
  next
    case False
    then have s': "s' = begin_mutation s1" using a pc by (simp add: has_room_decide_def s1_def Let_def)
    then show ?thesis using p False
      by (intro exI [of _ "unat (ew_seq s)"] exI [of _ safe'] scanned_fits [OF inv pc safe'_def])
        (auto simp: s1_def begin_mutation_def safe'_def)
  qed
qed

lemma atomic_store_release:
  assumes "atomic_store M Release l t v tv = Some (M', tv')"
  shows "M' = M(l := (M l)(t \<mapsto> \<lparr>ms_val = v, ms_view = tv_cur tv'\<rparr>))" "tv_cur tv l < t" "tv_cur tv' = vseen (tv_cur tv) l t"
  using assms by (auto simp: atomic_store_def Let_def split: if_splits)

lemma write_fits:
  assumes inv: "ev_fits c scan safe s" and a: "EventPublisher_write_access t s = Some s'"
  shows "ev_fits c scan safe s'"
proof -
  let ?tv = "tick WritesLoc (length (ew_writes s)) (ew_tv s)"
  obtain M tv where m: "ew_pc s = PMut" and st: "atomic_store (ew_mem s) Release CursorLoc t (ew_seq s) ?tv = Some (M, tv)"
      and s': "s' = s\<lparr>ew_mem := M, ew_tv := tv, ew_seq := ew_seq s + 1, ew_pc := PIdle\<rparr>"
    using a by (auto simp: EventPublisher_write_access_def split: if_splits option.splits)
  note st = atomic_store_release [OF st]
  note p = ev_fitsD(1) [OF inv, unfolded pub_ok_def]
  have P: "unat (ew_seq s) + c + 1 < 2 ^ 64" "ew_seq s \<noteq> u64_max" using p m by (auto simp: u64_eq_max_iff)
  then have suc: "unat (ew_seq s + 1) = Suc (unat (ew_seq s))" using p m by (simp add: unat_u64_Suc)
  have cur: "tv_cur tv l = (if l = CursorLoc then t else if l = WritesLoc then length (ew_writes s) else tv_cur (ew_tv s) l)" for l
    using st(2) by (simp add: st(3) tick_def)
  have "pub_ok c scan safe s'" using p P by (auto simp: pub_ok_def s' suc)
  moreover have "cursor_ok scan s'"
    unfolding cursor_ok_def
  proof (intro allI impI)
    fix u m
    assume um: "ew_mem s' CursorLoc u = Some m"
    show "u \<le> tv_cur (ew_tv s') CursorLoc \<and> (u = tv_cur (ew_tv s') CursorLoc \<longrightarrow> next_seq (ms_val m) = unat (ew_seq s')) \<and>
        (ew_lock s' CursorLoc \<le> u \<longrightarrow> scan \<le> next_seq (ms_val m)) \<and> next_seq (ms_val m) \<le> unat (ew_seq s') \<and>
        (\<forall>n < length (ew_writes s'). ew_writes s' ! n < next_seq (ms_val m) \<longrightarrow> n < ms_view m WritesLoc)"
    proof (cases "u = t")
      case True
      then have "m = \<lparr>ms_val = ew_seq s, ms_view = tv_cur tv\<rparr>" using um by (simp add: s' st(1))
      then show ?thesis using True P(2) p suc by (simp add: s' cur next_seq_def)
    next
      case False
      then have old: "ew_mem s CursorLoc u = Some m" using um by (simp add: s' st(1))
      have "u < t" using ev_fitsD(2) [OF inv, unfolded cursor_ok_def, rule_format, OF old] st(2) by (simp add: tick_def)
      then show ?thesis using ev_fitsD(2) [OF inv, unfolded cursor_ok_def, rule_format, OF old] suc by (simp add: s' cur)
    qed
  qed
  moreover have "scan_ok s'" using ev_fitsD(3) [OF inv] m by (simp add: scan_ok_def s')
  moreover have "esub_fits safe s' j (ew_subs s ! j) \<and> trackers_ok s' j (ew_subs s ! j)" if j: "j < length (ew_subs s)" for j
  proof
    show "esub_fits safe s' j (ew_subs s ! j)"
      by (rule esub_fits_mono [OF ev_fitsD(4) [OF inv j], where ws = "[]"])
        (use ev_fitsD(4) [OF inv j] in \<open>auto simp: s' st(1) suc cur esub_fits_def\<close>)
    show "trackers_ok s' j (ew_subs s ! j)"
      using ev_fitsD(5) [OF inv j] m by (simp add: trackers_ok_def s' forgotten_def cur)
  qed
  ultimately show ?thesis by (simp add: ev_fits_def s')
qed

section \<open>Preservation: the subscribers\<close>

lemma esub_fits_same:
  assumes "esub_fits safe s j x" "ew_mem s' (TrackLoc j) = ew_mem s (TrackLoc j)" "ew_seq s' = ew_seq s" "ew_tv s' = ew_tv s"
    "ew_writes s' = ew_writes s"
  shows "esub_fits safe s' j x"
  using assms unfolding esub_fits_def by simp

lemma subscribe_fits:
  assumes inv: "ev_fits c scan safe s" and a: "subscribe_access t s = Some s'"
  shows "ev_fits c scan safe s'"
proof -
  let ?j = "length (ew_subs s)"
  have pc: "\<not> (\<exists>kept rest mn anyone. ew_pc s = PScan kept rest mn anyone)"
    using a by (auto simp: subscribe_access_def)
  then obtain head tv where ld: "atomic_load (ew_mem s) Acquire CursorLoc t \<lparr>tv_cur = ew_lock s, tv_acq = ew_lock s, tv_rel = (\<lambda>_. 0)\<rparr> = Some (head, tv)"
    using a by (auto simp: subscribe_access_def split: ev_pub_pc.splits option.splits)
  define start where "start = (if head = u64_max then 0 else head + 1)"
  let ?x = "\<lparr>we_cursor = start, we_pc = SIdle, we_tv = tv, we_reads = []\<rparr>"
  have s': "s' = s\<lparr>ew_mem := (ew_mem s)(TrackLoc ?j := [0 \<mapsto> \<lparr>ms_val = start, ms_view = (\<lambda>_. 0)\<rparr>]),
      ew_trackers := ew_trackers s @ [?j], ew_lock := tv_cur tv, ew_subs := ew_subs s @ [?x]\<rparr>"
    using a pc ld by (auto simp: subscribe_access_def start_def Let_def split: ev_pub_pc.splits)
  obtain m where m: "ew_mem s CursorLoc t = Some m" "head = ms_val m" "ew_lock s CursorLoc \<le> t" "\<And>l. ew_lock s l \<le> tv_cur tv l"
    by (rule atomic_loadE [OF ld]) simp
  have "unat start = next_seq (ms_val m)"
    using unat_u64_le [of head] by (auto simp: start_def next_seq_def m(2) [symmetric] u64_eq_max_iff unat_u64_Suc)
  then have start: "scan \<le> unat start" "unat start \<le> unat (ew_seq s)"
    using ev_fitsD(2) [OF inv, unfolded cursor_ok_def, rule_format, OF m(1)] m(3) by auto
  have "pub_ok c scan safe s'" using ev_fitsD(1) [OF inv] by (simp add: pub_ok_def s')
  moreover have "cursor_ok scan s'"
    using ev_fitsD(2) [OF inv] order_trans [OF m(4)] by (simp add: cursor_ok_def s')
  moreover have "scan_ok s'" using ev_fitsD(3) [OF inv] pc by (auto simp: scan_ok_def s' split: ev_pub_pc.splits)
  moreover have "esub_fits safe s' i (ew_subs s' ! i) \<and> trackers_ok s' i (ew_subs s' ! i)" if i: "i < length (ew_subs s')" for i
  proof (cases "i = ?j")
    case True
    have "esub_fits safe s' ?j ?x" using start ev_fitsD(1) [OF inv] by (auto simp: esub_fits_def pub_ok_def s' split: if_splits)
    moreover have "trackers_ok s' ?j ?x" using pc by (auto simp: trackers_ok_def s' split: ev_pub_pc.splits)
    ultimately show ?thesis using True by (simp add: s')
  next
    case False
    then have i: "i < ?j" using i by (simp add: s')
    have "esub_fits safe s' i (ew_subs s ! i)" by (rule esub_fits_same [OF ev_fitsD(4) [OF inv i]]) (use False in \<open>simp_all add: s'\<close>)
    moreover have "trackers_ok s' i (ew_subs s ! i)"
      using ev_fitsD(5) [OF inv i] pc by (auto simp: trackers_ok_def s' forgotten_def split: ev_pub_pc.splits)
    ultimately show ?thesis using i by (simp add: s' nth_append)
  qed
  ultimately show ?thesis by (simp add: ev_fits_def)
qed

text \<open>A step of one subscriber.\<close>

lemma put_sub_fits:
  assumes inv: "ev_fits c scan safe s" and j: "j < length (ew_subs s)"
    and s': "s' = put_sub j x' (s\<lparr>ew_mem := M\<rparr>)" and M: "\<And>l. l \<noteq> TrackLoc j \<Longrightarrow> M l = ew_mem s l"
    and x': "esub_fits safe s' j x'" "unat (we_cursor (ew_subs s ! j)) \<le> unat (we_cursor x')"
    and reads: "we_reads x' = we_reads (ew_subs s ! j) \<or>
      we_reads x' = we_reads (ew_subs s ! j) @ [unat (we_cursor (ew_subs s ! j))] \<and> sub_live (ew_subs s ! j)"
    and live: "sub_live x' \<Longrightarrow> sub_live (ew_subs s ! j)"
  shows "ev_fits c scan safe s'"
proof -
  have "pub_ok c scan safe s'" "cursor_ok scan s'" "scan_ok s'"
    using ev_fitsD(1-3) [OF inv] M [of CursorLoc]
    by (simp_all add: pub_ok_def cursor_ok_def scan_ok_def s' put_sub_def split: ev_pub_pc.splits)
  moreover have "trackers_ok s' j x'"
    using ev_fitsD(5) [OF inv j] x'(2) reads live
    by (auto simp: trackers_ok_def s' put_sub_def forgotten_def nth_append less_Suc_eq split: ev_pub_pc.splits)
  moreover have "esub_fits safe s' i (ew_subs s ! i) \<and> trackers_ok s' i (ew_subs s ! i)" if "i < length (ew_subs s)" "i \<noteq> j" for i
  proof
    show "esub_fits safe s' i (ew_subs s ! i)"
      by (rule esub_fits_same [OF ev_fitsD(4) [OF inv that(1)]]) (use that(2) M in \<open>simp_all add: s' put_sub_def\<close>)
    show "trackers_ok s' i (ew_subs s ! i)"
      using ev_fitsD(5) [OF inv that(1)] by (simp add: trackers_ok_def s' put_sub_def forgotten_def split: ev_pub_pc.splits)
  qed
  moreover have "ew_subs s' = (ew_subs s)[j := x']" by (simp add: s' put_sub_def)
  ultimately show ?thesis using x'(1) unfolding ev_fits_def
    by (metis length_list_update nth_list_update_eq nth_list_update_neq)
qed

lemma put_same_mem: "put_sub j x s = put_sub j x (s\<lparr>ew_mem := ew_mem s\<rparr>)"
  by simp

lemma process_fits:
  assumes inv: "ev_fits c scan safe s" and a: "process_access j t s = Some s'"
  shows "ev_fits c scan safe s'"
proof -
  define x where "x = ew_subs s ! j"
  obtain head tv where j: "j < length (ew_subs s)" "we_pc x = SIdle"
      and ld: "atomic_load (ew_mem s) Acquire CursorLoc t (we_tv x) = Some (head, tv)"
      and s': "s' = (if head = u64_max \<or> we_cursor x > head then put_sub j (x\<lparr>we_tv := tv\<rparr>) s
        else put_sub j (x\<lparr>we_tv := tv, we_pc := SHold, we_reads := we_reads x @ [unat (we_cursor x)]\<rparr>) s)"
    using a by (auto simp: process_access_def x_def Let_def split: if_splits option.splits)
  have fit: "esub_fits safe s j x" using ev_fitsD(4) [OF inv j(1)] by (simp add: x_def)
  have live: "sub_live x" using j(2) by (simp add: sub_live_def)
  obtain m where m: "ew_mem s CursorLoc t = Some m" "head = ms_val m" "\<And>l. tv_cur (we_tv x) l \<le> tv_cur tv l"
      "\<And>l. ms_view m l \<le> tv_cur tv l"
    using atomic_loadE [OF ld] by metis
  show ?thesis
  proof (cases "head = u64_max \<or> we_cursor x > head")
    case True
    then have s': "s' = put_sub j (x\<lparr>we_tv := tv\<rparr>) s" using s' by simp
    have "esub_fits safe s' j (x\<lparr>we_tv := tv\<rparr>)"
      using fit j(2) order_trans [OF _ m(3)] by (simp add: esub_fits_def s' put_sub_def sub_live_def)
    then show ?thesis using live
      by (intro put_sub_fits [OF inv j(1) s' [unfolded put_same_mem [of _ _ s]]]) (simp_all add: x_def sub_live_def)
  next
    case False
    let ?x = "x\<lparr>we_tv := tv, we_pc := SHold, we_reads := we_reads x @ [unat (we_cursor x)]\<rparr>"
    have s': "s' = put_sub j ?x s" using s' False by simp
    note cur = ev_fitsD(2) [OF inv, unfolded cursor_ok_def, rule_format, OF m(1)]
    have below: "unat (we_cursor x) < next_seq (ms_val m)" using False m(2) by (auto simp: next_seq_def word_less_nat_alt)
    then have "unat (we_cursor x) < unat (ew_seq s)" using cur by linarith
    moreover have "n < tv_cur tv WritesLoc" if "n < length (ew_writes s)" "ew_writes s ! n \<le> unat (we_cursor x)" for n
      using cur that below less_le_trans [OF _ m(4)] by (meson le_less_trans)
    moreover have "\<not> unat (we_cursor x) < unat (ms_val m')" if "ew_mem s (TrackLoc j) u = Some m'" for u m'
      using fit that unfolding esub_fits_def by (meson not_le)
    ultimately have "esub_fits safe s' j ?x"
      using fit live by (auto simp: esub_fits_def s' put_sub_def sub_live_def nth_append less_Suc_eq split: if_splits)
    then show ?thesis using live
      by (intro put_sub_fits [OF inv j(1) s' [unfolded put_same_mem [of _ _ s]]]) (simp_all add: x_def sub_live_def)
  qed
qed

lemma processed_fits:
  assumes inv: "ev_fits c scan safe s" and a: "processed_access j t s = Some s'"
  shows "ev_fits c scan safe s'"
proof -
  define x where "x = ew_subs s ! j"
  let ?tv = "tick (ReadsLoc j) (length (we_reads x)) (we_tv x)"
  obtain M tv where j: "j < length (ew_subs s)" "we_pc x = SHold"
      and st: "atomic_store (ew_mem s) Release (TrackLoc j) t (we_cursor x + 1) ?tv = Some (M, tv)"
      and s': "s' = put_sub j (x\<lparr>we_tv := tv, we_pc := SIdle, we_cursor := we_cursor x + 1\<rparr>) (s\<lparr>ew_mem := M\<rparr>)"
    using a by (auto simp: processed_access_def x_def Let_def split: if_splits option.splits)
  note st = atomic_store_release [OF st]
  have fit: "esub_fits safe s j x" using ev_fitsD(4) [OF inv j(1)] by (simp add: x_def)
  then have less: "unat (we_cursor x) < unat (ew_seq s)" "safe \<le> unat (we_cursor x)" using j(2) by (auto simp: esub_fits_def sub_live_def)
  then have suc: "unat (we_cursor x + 1) = Suc (unat (we_cursor x))" using unat_u64_le [of "ew_seq s"] by (simp add: unat_u64_Suc)
  have cur: "tv_cur tv (ReadsLoc j) = length (we_reads x)" by (simp add: st(3) tick_def)
  have "unat (ms_val m) \<le> Suc (unat (we_cursor x)) \<and>
      (\<forall>n < length (we_reads x). we_reads x ! n < unat (ms_val m) \<longrightarrow> n < ms_view m (ReadsLoc j))" if "M (TrackLoc j) u = Some m" for u m
  proof (cases "u = t")
    case True
    then have "m = \<lparr>ms_val = we_cursor x + 1, ms_view = tv_cur tv\<rparr>" using that by (simp add: st(1))
    then show ?thesis by (simp add: suc cur)
  next
    case False
    then have "ew_mem s (TrackLoc j) u = Some m" using that by (simp add: st(1))
    then show ?thesis using fit unfolding esub_fits_def by (meson le_SucI)
  qed
  then have "esub_fits safe s' j (x\<lparr>we_tv := tv, we_pc := SIdle, we_cursor := we_cursor x + 1\<rparr>)"
    using fit less by (auto simp: esub_fits_def s' put_sub_def suc cur)
  then show ?thesis using j
    by (intro put_sub_fits [OF inv j(1) s']) (auto simp: x_def sub_live_def st(1) suc [unfolded x_def])
qed

lemma process_panics_fits:
  assumes inv: "ev_fits c scan safe s" and a: "process_panics j s = Some s'"
  shows "ev_fits c scan safe s'"
proof -
  define x where "x = ew_subs s ! j"
  have j: "j < length (ew_subs s)" "we_pc x = SHold"
      and s': "s' = put_sub j (x\<lparr>we_pc := SIdle, we_tv := tick (ReadsLoc j) (length (we_reads x)) (we_tv x)\<rparr>) s"
    using a by (auto simp: process_panics_def x_def Let_def split: if_splits)
  have "esub_fits safe s' j (x\<lparr>we_pc := SIdle, we_tv := tick (ReadsLoc j) (length (we_reads x)) (we_tv x)\<rparr>)"
    using ev_fitsD(4) [OF inv j(1)] j(2) by (simp add: x_def esub_fits_def s' put_sub_def sub_live_def tick_def)
  then show ?thesis using j
    by (intro put_sub_fits [OF inv j(1) s' [unfolded put_same_mem [of _ _ s]]]) (simp_all add: x_def sub_live_def)
qed

lemma drop_fits:
  assumes inv: "ev_fits c scan safe s" and a: "drop_access j s = Some s'"
  shows "ev_fits c scan safe s'"
proof -
  define x where "x = ew_subs s ! j"
  obtain pc where j: "j < length (ew_subs s)" "we_pc x \<noteq> SHold" "pc = SDropping \<or> pc = SGone" and s': "s' = put_sub j (x\<lparr>we_pc := pc\<rparr>) s"
    using a by (auto simp: drop_access_def x_def Let_def split: if_splits)
  have "esub_fits safe s' j (x\<lparr>we_pc := pc\<rparr>)"
    using ev_fitsD(4) [OF inv j(1)] j(2,3) by (auto simp: x_def esub_fits_def s' put_sub_def sub_live_def)
  then show ?thesis using j(3)
    by (intro put_sub_fits [OF inv j(1) s' [unfolded put_same_mem [of _ _ s]]]) (auto simp: x_def sub_live_def)
qed

section \<open>Every run\<close>

lemma early_stays: "weak_event_do cap a s = Some s' \<Longrightarrow> ew_early s \<Longrightarrow> ew_early s'"
  by (cases a)
    (auto simp: has_room_access_def slowest_access_def has_room_decide_def EventPublisher_write_access_def write_panics_def
       subscribe_access_def process_access_def processed_access_def process_panics_def drop_access_def put_sub_def begin_mutation_def
       Let_def split: if_splits option.splits ev_pub_pc.splits list.splits)

lemma weak_event_do_fits:
  assumes inv: "ev_fits (unat cap) scan safe s" and a: "weak_event_do cap a s = Some s'" "\<not> ew_early s'"
  shows "\<exists>scan safe. ev_fits (unat cap) scan safe s'"
proof -
  have "ev_fits (unat cap) scan safe s' \<or> has_room_decide cap s = Some s'"
  proof (cases a)
    case HasRoom
    then show ?thesis using has_room_fits [OF inv] a(1) by simp
  next
    case (Slowest t)
    then show ?thesis using slowest_fits [OF inv] a by simp
  next
    case (Write t)
    then show ?thesis using write_fits [OF inv] a(1) by simp
  next
    case WritePanics
    then show ?thesis using write_panics_fits [OF inv] a(1) by simp
  next
    case (Subscribe t)
    then show ?thesis using subscribe_fits [OF inv] a(1) by simp
  next
    case (Process j t)
    then show ?thesis using process_fits [OF inv] a(1) by simp
  next
    case (Processed j t)
    then show ?thesis using processed_fits [OF inv] a(1) by simp
  next
    case (ProcessPanics j)
    then show ?thesis using process_panics_fits [OF inv] a(1) by simp
  next
    case (DropSub j)
    then show ?thesis using drop_fits [OF inv] a(1) by simp
  qed (use a(1) in simp)
  then show ?thesis using has_room_decide_fits [OF inv] by blast
qed

lemma run_early: "weak_event_run cap as s = Some s' \<Longrightarrow> ew_early s \<Longrightarrow> ew_early s'"
  by (induction as arbitrary: s) (auto split: option.splits dest: early_stays)

lemma weak_event_run_fits:
  "ev_fits (unat cap) scan safe s \<Longrightarrow> weak_event_run cap as s = Some s' \<Longrightarrow> \<not> ew_early s' \<Longrightarrow>
    \<exists>scan safe. ev_fits (unat cap) scan safe s'"
proof (induction as arbitrary: s scan safe)
  case (Cons a as)
  then obtain s1 where s1: "weak_event_do cap a s = Some s1" "weak_event_run cap as s1 = Some s'" by (auto split: option.splits)
  then have "\<not> ew_early s1" using run_early Cons.prems(3) by blast
  then show ?case using weak_event_do_fits [OF Cons.prems(1) s1(1)] Cons.IH s1(2) Cons.prems(3) by blast
qed auto

section \<open>Properties\<close>

text \<open>A subscriber reads a message and is dropped; the publisher comes round to its slot.  In \<open>drop_then_scan\<close> the drop is
  over when the scan finds the tracker dead, in \<open>scan_in_drop\<close> it is not.\<close>

definition read_one :: "ev_action list" where
  "read_one = [Subscribe 0, HasRoom, Write 1, Process 0 1, Processed 0 1, HasRoom, Write 2, DropSub 0]"

definition drop_then_scan :: "ev_action list" where
  "drop_then_scan = read_one @ [DropSub 0, HasRoom, Slowest 0, Decide]"

definition scan_in_drop :: "ev_action list" where
  "scan_in_drop = read_one @ [HasRoom, Slowest 0, Decide, DropSub 0]"

text \<open>
  C10: \<^bold>\<open>The event ring has no data races\<close> under the memory orderings of the source, in every run in which no scan of
  the trackers falls into the drop of a subscriber, between its two counts: whenever the publisher mutates a slot, all
  reads of the slot happen before, and whenever a subscriber reads a slot, all mutations of it happen before.
\<close>

theorem weak_event_race_free:
  assumes "2 \<le> unat cap" "weak_event_run cap as weak_event_init = Some s" "\<not> ew_early s"
  shows "\<not> event_race cap s"
proof -
  have "0 < unat cap" using assms(1) by simp
  from weak_event_run_fits [OF ev_fits_init [OF this] assms(2,3)] show ?thesis using ev_fits_no_race by blast
qed

theorem weak_event_race_free_witness:
  "\<exists>s. weak_event_run 2 drop_then_scan weak_event_init = Some s \<and> ew_pc s = PMut \<and> ew_seq s = 2 \<and>
     map we_reads (ew_subs s) = [[0]] \<and> \<not> event_race 2 s"
proof -
  have "(case weak_event_run 2 drop_then_scan weak_event_init of
      None \<Rightarrow> None | Some s \<Rightarrow> Some (ew_pc s, ew_seq s, map we_reads (ew_subs s), ew_early s)) =
    Some (PMut, 2, [[0]], False)" by code_simp
  then obtain s where s: "weak_event_run 2 drop_then_scan weak_event_init = Some s" "ew_pc s = PMut" "ew_seq s = 2"
      "map we_reads (ew_subs s) = [[0]]" "\<not> ew_early s"
    by (auto split: option.splits)
  then show ?thesis using weak_event_race_free [OF _ s(1,5)] by simp
qed

text \<open>
  C33: \<^bold>\<open>The excluded case is a race.\<close>  A subscriber that has read a message is being dropped; the scan finds the strong
  count of its tracker at zero with a relaxed load, and the publisher mutates the slot of that message although
  the read does not happen before.
\<close>

theorem event_drop_race:
  "\<exists>s. weak_event_run 2 scan_in_drop weak_event_init = Some s \<and> event_race 2 s"
proof -
  have "(case weak_event_run 2 scan_in_drop weak_event_init of
      None \<Rightarrow> None
    | Some s \<Rightarrow> Some (ew_pc s, ew_seq s, length (ew_subs s), we_reads (ew_subs s ! 0), tv_cur (ew_tv s) (ReadsLoc 0))) =
    Some (PMut, 2, 1, [0], 0)" by code_simp
  then obtain s where s: "weak_event_run 2 scan_in_drop weak_event_init = Some s" "ew_pc s = PMut" "ew_seq s = 2"
      "length (ew_subs s) = 1" "we_reads (ew_subs s ! 0) = [0]" "tv_cur (ew_tv s) (ReadsLoc 0) = 0"
    by (auto split: option.splits)
  then have "event_race 2 s" unfolding event_race_def by (intro disjI1 conjI exI [of _ 0]) simp_all
  then show ?thesis using s(1) by blast
qed

end
