(* ===== verification/Bus.thy ===== *)
theory Bus
  imports Subscriber
begin

text \<open>
  The topic buses \<^verbatim>\<open>src/src/bus.rs\<close> (one message type) and \<^verbatim>\<open>src/src/typed_bus.rs\<close> (one type per topic).

  A channel's ring lives in a store, a list of rings whose positions play the part of the \<^verbatim>\<open>Arc\<close>
  pointers; handing out a publisher, a subscriber or a subscribable hands out such a position.  A call
  runs under the bus's lock, so calls follow one another.
\<close>

section \<open>Handles\<close>

type_synonym ring_id = nat
type_synonym topic = string

datatype bus_op = TakePublisher | TryTakePublisher | Subscribe | GetSubscribable

datatype bus_handle =
    GotPublisher ring_id publisher
  | NoPublisher
  | GotSubscriber ring_id subscriber
  | GotSubscribable ring_id

fun handle_ring :: "bus_handle \<Rightarrow> ring_id option" where
  "handle_ring (GotPublisher i p) = Some i"
| "handle_ring NoPublisher = None"
| "handle_ring (GotSubscriber i s) = Some i"
| "handle_ring (GotSubscribable i) = Some i"

fun is_publisher :: "bus_handle may_panic \<Rightarrow> bool" where
  "is_publisher (Inr (GotPublisher i p)) \<longleftrightarrow> True"
| "is_publisher _ \<longleftrightarrow> False"

record topic_entry =
  te_subscribable :: ring_id
  te_publisher :: "publisher option"

section \<open>Runs\<close>

type_synonym 'c bus_trace = "('c \<times> bus_handle may_panic) list"

fun bus_run :: "('c \<Rightarrow> 's \<Rightarrow> bus_handle may_panic \<times> 's) \<Rightarrow> 'c list \<Rightarrow> 's \<Rightarrow> 'c bus_trace \<times> 's" where
  "bus_run f [] s = ([], s)"
| "bus_run f (c # cs) s =
     (let (res, s') = f c s; (tr, s'') = bus_run f cs s' in ((c, res) # tr, s''))"

lemma run_Cons:
  assumes "bus_run f (c # cs) s = (tr, s'')"
  obtains res s' tr' where "f c s = (res, s')" "bus_run f cs s' = (tr', s'')" "tr = (c, res) # tr'"
  using assms by (auto split: prod.splits)

definition publishers :: "('c \<Rightarrow> topic) \<Rightarrow> topic \<Rightarrow> 'c bus_trace \<Rightarrow> 'c bus_trace" where
  "publishers topic_of t tr = filter (\<lambda>(c, res). topic_of c = t \<and> is_publisher res) tr"

section \<open>The contract of a bus\<close>

text \<open>
  What the users of a bus rely on: a topic keeps its ring, two topics never share one, every handle
  belongs to the ring of the topic it was asked for, and a publisher is handed out only once.
\<close>

locale topic_bus =
  fixes do_call :: "'c \<Rightarrow> 's \<Rightarrow> bus_handle may_panic \<times> 's"
    and topic_of :: "'c \<Rightarrow> topic"
    and ring_of :: "'s \<Rightarrow> topic \<Rightarrow> ring_id option"
    and taken :: "'s \<Rightarrow> topic \<Rightarrow> bool"
    and good :: "'s \<Rightarrow> bool"
  assumes good_call: "good s \<Longrightarrow> do_call c s = (res, s') \<Longrightarrow> good s'"
    and ring_kept: "good s \<Longrightarrow> do_call c s = (res, s') \<Longrightarrow> ring_of s t = Some i \<Longrightarrow> ring_of s' t = Some i"
    and ring_inj: "good s \<Longrightarrow> ring_of s t = Some i \<Longrightarrow> ring_of s t' = Some i \<Longrightarrow> t = t'"
    and ring_handle: "good s \<Longrightarrow> do_call c s = (Inr hn, s') \<Longrightarrow> handle_ring hn = Some i \<Longrightarrow>
        ring_of s' (topic_of c) = Some i"
    and pub_untaken: "good s \<Longrightarrow> do_call c s = (res, s') \<Longrightarrow> is_publisher res \<Longrightarrow> \<not> taken s (topic_of c)"
    and pub_takes: "good s \<Longrightarrow> do_call c s = (res, s') \<Longrightarrow> is_publisher res \<Longrightarrow> taken s' (topic_of c)"
    and taken_kept: "good s \<Longrightarrow> do_call c s = (res, s') \<Longrightarrow> taken s t \<Longrightarrow> taken s' t"
begin

lemma run_kept:
  assumes "good s" "bus_run do_call cs s = (tr, s')"
  shows "good s' \<and> (\<forall>t i. ring_of s t = Some i \<longrightarrow> ring_of s' t = Some i) \<and> (\<forall>t. taken s t \<longrightarrow> taken s' t)"
  using assms
proof (induction cs arbitrary: s tr)
  case (Cons c cs)
  from Cons.prems(2) obtain res s1 tr1 where 1: "do_call c s = (res, s1)" "bus_run do_call cs s1 = (tr1, s')" by (rule run_Cons)
  have "good s1" using good_call [OF Cons.prems(1) 1(1)] .
  then have "good s' \<and> (\<forall>t i. ring_of s1 t = Some i \<longrightarrow> ring_of s' t = Some i) \<and> (\<forall>t. taken s1 t \<longrightarrow> taken s' t)"
    using Cons.IH [OF _ 1(2)] by blast
  then show ?case using ring_kept [OF Cons.prems(1) 1(1)] taken_kept [OF Cons.prems(1) 1(1)] by blast
qed simp

lemma run_handles:
  assumes "good s" "bus_run do_call cs s = (tr, s')" "(c, Inr hn) \<in> set tr" "handle_ring hn = Some i"
  shows "ring_of s' (topic_of c) = Some i"
  using assms
proof (induction cs arbitrary: s tr)
  case (Cons c0 cs)
  from Cons.prems(2) obtain res s1 tr1 where 1: "do_call c0 s = (res, s1)" "bus_run do_call cs s1 = (tr1, s')"
    and tr: "tr = (c0, res) # tr1" by (rule run_Cons)
  have g1: "good s1" using good_call [OF Cons.prems(1) 1(1)] .
  show ?case
  proof (cases "(c, Inr hn) \<in> set tr1")
    case True
    then show ?thesis using Cons.IH [OF g1 1(2)] Cons.prems(4) by blast
  next
    case False
    then have "do_call c s = (Inr hn, s1)" using Cons.prems(3) tr 1(1) by auto
    then have "ring_of s1 (topic_of c) = Some i" using ring_handle Cons.prems(1,4) by blast
    then show ?thesis using run_kept [OF g1 1(2)] by blast
  qed
qed simp

lemma same_ring_iff:
  assumes "good s" "bus_run do_call cs s = (tr, s')"
    and "(c1, Inr h1) \<in> set tr" "handle_ring h1 = Some i" "(c2, Inr h2) \<in> set tr" "handle_ring h2 = Some j"
  shows "i = j \<longleftrightarrow> topic_of c1 = topic_of c2"
  using run_handles [OF assms(1-4)] run_handles [OF assms(1,2,5,6)] run_kept [OF assms(1,2)] ring_inj by fastforce

lemma publishers_taken:
  assumes "good s" "bus_run do_call cs s = (tr, s')" "taken s t"
  shows "publishers topic_of t tr = []"
  using assms
proof (induction cs arbitrary: s tr)
  case (Cons c cs)
  from Cons.prems(2) obtain res s1 tr1 where 1: "do_call c s = (res, s1)" "bus_run do_call cs s1 = (tr1, s')"
    and tr: "tr = (c, res) # tr1" by (rule run_Cons)
  have "publishers topic_of t tr1 = []"
    using Cons.IH [OF _ 1(2)] good_call [OF Cons.prems(1) 1(1)] taken_kept [OF Cons.prems(1) 1(1) Cons.prems(3)] by blast
  moreover have "\<not> (topic_of c = t \<and> is_publisher res)" using pub_untaken [OF Cons.prems(1) 1(1)] Cons.prems(3) by blast
  ultimately show ?case by (auto simp: publishers_def tr)
qed (simp add: publishers_def)

lemma publisher_once:
  assumes "good s" "bus_run do_call cs s = (tr, s')"
  shows "length (publishers topic_of t tr) \<le> 1"
  using assms
proof (induction cs arbitrary: s tr)
  case (Cons c cs)
  from Cons.prems(2) obtain res s1 tr1 where 1: "do_call c s = (res, s1)" "bus_run do_call cs s1 = (tr1, s')"
    and tr: "tr = (c, res) # tr1" by (rule run_Cons)
  have g1: "good s1" using good_call [OF Cons.prems(1) 1(1)] .
  show ?case
  proof (cases "topic_of c = t \<and> is_publisher res")
    case True
    then have "taken s1 t" using pub_takes [OF Cons.prems(1) 1(1)] by blast
    then show ?thesis using publishers_taken [OF g1 1(2)] True by (simp add: publishers_def tr)
  next
    case False
    then show ?thesis using Cons.IH [OF g1 1(2)] by (auto simp: publishers_def tr)
  qed
qed (simp add: publishers_def)

end

section \<open>\<^verbatim>\<open>Photon\<close>\<close>

record 'a photon =
  ph_topics :: "topic \<rightharpoonup> topic_entry"
  ph_default_capacity :: usize
  ph_rings :: "'a shared_ring list"

definition Photon_new :: "usize \<Rightarrow> 'a photon" where
  "Photon_new capacity = \<lparr>ph_topics = Map.empty, ph_default_capacity = capacity, ph_rings = []\<rparr>"

definition Photon_make_entry ::
    "'a \<Rightarrow> usize \<Rightarrow> 'a shared_ring list \<Rightarrow> (topic_entry \<times> 'a shared_ring list) may_panic" where
  "Photon_make_entry uninit capacity rings =
     (case channel uninit capacity of
        Inl e \<Rightarrow> Inl e
      | Inr (p, r) \<Rightarrow> Inr (\<lparr>te_subscribable = length rings, te_publisher = Some p\<rparr>, rings @ [r]))"

text \<open>\<^verbatim>\<open>topics.entry_ref(topic).or_insert_with(..)\<close>: a panic of the constructor leaves the map unchanged.\<close>

definition Photon_entry :: "'a \<Rightarrow> topic \<Rightarrow> 'a photon \<Rightarrow> (topic_entry \<times> 'a photon) may_panic" where
  "Photon_entry uninit t b =
     (case ph_topics b t of
        Some e \<Rightarrow> Inr (e, b)
      | None \<Rightarrow>
          (case Photon_make_entry uninit (ph_default_capacity b) (ph_rings b) of
             Inl x \<Rightarrow> Inl x
           | Inr (e, rings) \<Rightarrow> Inr (e, b\<lparr>ph_topics := (ph_topics b)(t \<mapsto> e), ph_rings := rings\<rparr>)))"

definition Photon_publisher :: "'a \<Rightarrow> topic \<Rightarrow> 'a photon \<Rightarrow> bus_handle may_panic \<times> 'a photon" where
  "Photon_publisher uninit t b =
     (case Photon_entry uninit t b of
        Inl x \<Rightarrow> (Inl x, b)
      | Inr (e, b') \<Rightarrow>
          (case te_publisher e of
             None \<Rightarrow> (Inl (PublisherTaken t), b')
           | Some p \<Rightarrow>
               (Inr (GotPublisher (te_subscribable e) p),
                b'\<lparr>ph_topics := (ph_topics b')(t \<mapsto> e\<lparr>te_publisher := None\<rparr>)\<rparr>)))"

definition Photon_try_publisher :: "'a \<Rightarrow> topic \<Rightarrow> 'a photon \<Rightarrow> bus_handle may_panic \<times> 'a photon" where
  "Photon_try_publisher uninit t b =
     (case Photon_entry uninit t b of
        Inl x \<Rightarrow> (Inl x, b)
      | Inr (e, b') \<Rightarrow>
          (case te_publisher e of
             None \<Rightarrow> (Inr NoPublisher, b')
           | Some p \<Rightarrow>
               (Inr (GotPublisher (te_subscribable e) p),
                b'\<lparr>ph_topics := (ph_topics b')(t \<mapsto> e\<lparr>te_publisher := None\<rparr>)\<rparr>)))"

definition Photon_subscribe :: "'a \<Rightarrow> topic \<Rightarrow> 'a photon \<Rightarrow> bus_handle may_panic \<times> 'a photon" where
  "Photon_subscribe uninit t b =
     (case Photon_entry uninit t b of
        Inl x \<Rightarrow> (Inl x, b)
      | Inr (e, b') \<Rightarrow>
          let i = te_subscribable e;
              (s, (r, _)) = Subscribable_subscribe (ph_rings b' ! i, [])
          in (Inr (GotSubscriber i s), b'\<lparr>ph_rings := (ph_rings b')[i := r]\<rparr>))"

definition Photon_subscribable :: "'a \<Rightarrow> topic \<Rightarrow> 'a photon \<Rightarrow> bus_handle may_panic \<times> 'a photon" where
  "Photon_subscribable uninit t b =
     (case Photon_entry uninit t b of
        Inl x \<Rightarrow> (Inl x, b)
      | Inr (e, b') \<Rightarrow> (Inr (GotSubscribable (te_subscribable e)), b'))"

type_synonym bus_call = "bus_op \<times> topic"

definition Photon_call :: "'a \<Rightarrow> bus_call \<Rightarrow> 'a photon \<Rightarrow> bus_handle may_panic \<times> 'a photon" where
  "Photon_call uninit = (\<lambda>(op, t) b.
     case op of
       TakePublisher \<Rightarrow> Photon_publisher uninit t b
     | TryTakePublisher \<Rightarrow> Photon_try_publisher uninit t b
     | Subscribe \<Rightarrow> Photon_subscribe uninit t b
     | GetSubscribable \<Rightarrow> Photon_subscribable uninit t b)"

definition photon_ring :: "'a photon \<Rightarrow> topic \<Rightarrow> ring_id option" where
  "photon_ring b t = map_option te_subscribable (ph_topics b t)"

definition photon_taken :: "'a photon \<Rightarrow> topic \<Rightarrow> bool" where
  "photon_taken b t \<longleftrightarrow> (\<exists>e. ph_topics b t = Some e \<and> te_publisher e = None)"

definition photon_ok :: "'a photon \<Rightarrow> bool" where
  "photon_ok b \<longleftrightarrow>
     (\<forall>t e. ph_topics b t = Some e \<longrightarrow> te_subscribable e < length (ph_rings b)) \<and>
     (\<forall>t t' e e'. ph_topics b t = Some e \<longrightarrow> ph_topics b t' = Some e' \<longrightarrow>
        te_subscribable e = te_subscribable e' \<longrightarrow> t = t')"

lemma Photon_entry_Inr:
  assumes "Photon_entry uninit t b = Inr (e, b')" "photon_ok b"
  shows "photon_ok b'" "ph_topics b' t = Some e" "\<And>t'. t' \<noteq> t \<Longrightarrow> ph_topics b' t' = ph_topics b t'"
    "ph_topics b t = Some e' \<Longrightarrow> e' = e" "ph_topics b t = None \<Longrightarrow> te_publisher e \<noteq> None"
    "te_subscribable e < length (ph_rings b')"
proof -
  have c: "ph_topics b t = Some e \<and> b' = b \<or>
      (\<exists>p r. ph_topics b t = None \<and> e = \<lparr>te_subscribable = length (ph_rings b), te_publisher = Some p\<rparr> \<and>
        b' = b\<lparr>ph_topics := (ph_topics b)(t \<mapsto> e), ph_rings := ph_rings b @ [r]\<rparr>)"
    using assms(1) by (auto simp: Photon_entry_def Photon_make_entry_def split: option.splits sum.splits)
  then show ok: "photon_ok b'"
  proof (elim disjE exE conjE)
    fix p r assume new: "ph_topics b t = None" "e = \<lparr>te_subscribable = length (ph_rings b), te_publisher = Some p\<rparr>"
      "b' = b\<lparr>ph_topics := (ph_topics b)(t \<mapsto> e), ph_rings := ph_rings b @ [r]\<rparr>"
    have lt: "te_subscribable x < length (ph_rings b)" if "ph_topics b t' = Some x" for t' x
      using that assms(2) by (auto simp: photon_ok_def)
    show ?thesis using assms(2) new(1) unfolding photon_ok_def new(3)
      by (auto simp: new(2) less_Suc_eq dest: lt)
  qed (use assms(2) in simp)
  show "ph_topics b' t = Some e" "\<And>t'. t' \<noteq> t \<Longrightarrow> ph_topics b' t' = ph_topics b t'"
    "ph_topics b t = Some e' \<Longrightarrow> e' = e" "ph_topics b t = None \<Longrightarrow> te_publisher e \<noteq> None"
    using c by auto
  then show "te_subscribable e < length (ph_rings b')" using ok by (auto simp: photon_ok_def)
qed

text \<open>Every call either fails to create its topic and changes nothing, or acts on the topic's entry and
  takes at most the publisher out of it.\<close>

lemma Photon_call_cases:
  assumes "Photon_call uninit (op, t) b = (res, b')"
  obtains (Fail) x where "Photon_entry uninit t b = Inl x" "res = Inl x" "b' = b"
  | (Entry) e b1 where "Photon_entry uninit t b = Inr (e, b1)"
      "is_publisher res \<Longrightarrow> te_publisher e \<noteq> None"
      "ph_topics b' = (if is_publisher res then (ph_topics b1)(t \<mapsto> e\<lparr>te_publisher := None\<rparr>) else ph_topics b1)"
      "length (ph_rings b') = length (ph_rings b1)"
      "\<And>hn i. res = Inr hn \<Longrightarrow> handle_ring hn = Some i \<Longrightarrow> i = te_subscribable e"
proof (cases "Photon_entry uninit t b")
  case (Inl x)
  then have "res = Inl x \<and> b' = b" using assms
    by (cases op) (auto simp: Photon_call_def Photon_publisher_def Photon_try_publisher_def Photon_subscribe_def
        Photon_subscribable_def)
  then show thesis using Inl by (intro Fail) simp_all
next
  case (Inr eb)
  obtain e b1 where eb: "eb = (e, b1)" by (cases eb)
  have "(is_publisher res \<longrightarrow> te_publisher e \<noteq> None) \<and>
      ph_topics b' = (if is_publisher res then (ph_topics b1)(t \<mapsto> e\<lparr>te_publisher := None\<rparr>) else ph_topics b1) \<and>
      length (ph_rings b') = length (ph_rings b1) \<and>
      (\<forall>hn i. res = Inr hn \<longrightarrow> handle_ring hn = Some i \<longrightarrow> i = te_subscribable e)"
  proof (cases op)
    case TakePublisher
    then show ?thesis using assms Inr eb
      by (cases "te_publisher e") (auto simp: Photon_call_def Photon_publisher_def)
  next
    case TryTakePublisher
    then show ?thesis using assms Inr eb
      by (cases "te_publisher e") (auto simp: Photon_call_def Photon_try_publisher_def)
  next
    case Subscribe
    then show ?thesis using assms Inr eb
      by (auto simp: Photon_call_def Photon_subscribe_def Let_def split_beta)
  next
    case GetSubscribable
    then show ?thesis using assms Inr eb by (auto simp: Photon_call_def Photon_subscribable_def)
  qed
  then show thesis using Inr eb by (intro Entry [of e b1]) auto
qed

interpretation photon: topic_bus "Photon_call uninit" snd photon_ring photon_taken photon_ok
  for uninit
proof
  fix c :: bus_call and b b' :: "'a photon" and res t i
  assume ok: "photon_ok b"
  show "t = t'" if "photon_ring b t = Some i" "photon_ring b t' = Some i" for t'
    using ok that by (auto simp: photon_ok_def photon_ring_def)
  obtain op u where c: "c = (op, u)" by (cases c)
  have effects: "photon_ok b' \<and> (photon_ring b t = Some i \<longrightarrow> photon_ring b' t = Some i) \<and>
      (\<forall>hn i. res = Inr hn \<longrightarrow> handle_ring hn = Some i \<longrightarrow> photon_ring b' (snd c) = Some i) \<and>
      (is_publisher res \<longrightarrow> \<not> photon_taken b (snd c) \<and> photon_taken b' (snd c)) \<and>
      (photon_taken b t \<longrightarrow> photon_taken b' t)"
    if "Photon_call uninit c b = (res, b')" for b' res t i
    using that [unfolded c]
  proof (cases rule: Photon_call_cases)
    case Fail
    then show ?thesis using ok by simp
  next
    case (Entry e b1)
    note en = Photon_entry_Inr [OF Entry(1) ok]
    have ok': "photon_ok b'"
    proof (cases "is_publisher res")
      case True
      have "ph_topics b' = (ph_topics b1)(u \<mapsto> e\<lparr>te_publisher := None\<rparr>)" using Entry(3) True by simp
      then show ?thesis using en(1,2,6) Entry(4) unfolding photon_ok_def
        by (auto simp: photon_ok_def split: if_splits)
    next
      case False
      then show ?thesis using en(1) Entry(3,4) by (simp add: photon_ok_def)
    qed
    have old: "ph_topics b t = Some x \<Longrightarrow> ph_topics b1 t = Some x" for x using en(2,3,4) by (cases "t = u") auto
    have "photon_ring b t = Some i \<longrightarrow> photon_ring b' t = Some i"
      using old en(2) Entry(3) by (auto simp: photon_ring_def)
    moreover have "photon_ring b' u = Some (te_subscribable e)" using en(2) Entry(3) by (auto simp: photon_ring_def)
    moreover have "is_publisher res \<longrightarrow> \<not> photon_taken b u \<and> photon_taken b' u"
      using Entry(2,3) en(4) by (auto simp: photon_taken_def)
    moreover have "photon_taken b t \<longrightarrow> photon_taken b' t"
      using old en(2) Entry(2,3) by (auto simp: photon_taken_def)
    ultimately show ?thesis using ok' Entry(5) c by auto
  qed
  show "photon_ok b'" if "Photon_call uninit c b = (res, b')" using effects [OF that] by blast
  show "photon_ring b' t = Some i" if "Photon_call uninit c b = (res, b')" "photon_ring b t = Some i"
    using effects [OF that(1)] that(2) by blast
  show "photon_ring b' (snd c) = Some i" if "Photon_call uninit c b = (Inr hn, b')" "handle_ring hn = Some i" for hn
    using effects [OF that(1)] that(2) by blast
  show "\<not> photon_taken b (snd c)" if "Photon_call uninit c b = (res, b')" "is_publisher res"
    using effects [OF that(1)] that(2) by blast
  show "photon_taken b' (snd c)" if "Photon_call uninit c b = (res, b')" "is_publisher res"
    using effects [OF that(1)] that(2) by blast
  show "photon_taken b' t" if "Photon_call uninit c b = (res, b')" "photon_taken b t"
    using effects [OF that(1)] that(2) by blast
qed

section \<open>\<^verbatim>\<open>TypedBus\<close>\<close>

text \<open>
  A Rust type is known to the bus by its \<^verbatim>\<open>TypeId\<close> and its name.  The boxed \<^verbatim>\<open>dyn Any\<close> carries the
  \<^verbatim>\<open>TypeId\<close> of its content, and a ring in the store the \<^verbatim>\<open>TypeId\<close> of its messages.
\<close>

record rust_type =
  ty_id :: nat
  ty_name :: string

record boxed_any =
  any_type :: nat
  any_entry :: topic_entry

record topic_slot =
  ts_type_id :: nat
  ts_type_name :: string
  ts_inner :: boxed_any

record 'a typed_bus =
  tb_topics :: "topic \<rightharpoonup> topic_slot"
  tb_default_capacity :: usize
  tb_rings :: "(nat \<times> 'a shared_ring) list"

definition TypedBus_new :: "usize \<Rightarrow> 'a typed_bus" where
  "TypedBus_new capacity = \<lparr>tb_topics = Map.empty, tb_default_capacity = capacity, tb_rings = []\<rparr>"

definition TypedBus_make_slot ::
    "'a \<Rightarrow> rust_type \<Rightarrow> usize \<Rightarrow> (nat \<times> 'a shared_ring) list \<Rightarrow>
     (topic_slot \<times> (nat \<times> 'a shared_ring) list) may_panic" where
  "TypedBus_make_slot uninit ty capacity rings =
     (case channel uninit capacity of
        Inl e \<Rightarrow> Inl e
      | Inr (p, r) \<Rightarrow>
          Inr (\<lparr>ts_type_id = ty_id ty, ts_type_name = ty_name ty,
                ts_inner = \<lparr>any_type = ty_id ty,
                            any_entry = \<lparr>te_subscribable = length rings, te_publisher = Some p\<rparr>\<rparr>\<rparr>,
               rings @ [(ty_id ty, r)]))"

definition TypedBus_slot :: "'a \<Rightarrow> rust_type \<Rightarrow> topic \<Rightarrow> 'a typed_bus \<Rightarrow> (topic_slot \<times> 'a typed_bus) may_panic" where
  "TypedBus_slot uninit ty t b =
     (case tb_topics b t of
        Some sl \<Rightarrow> Inr (sl, b)
      | None \<Rightarrow>
          (case TypedBus_make_slot uninit ty (tb_default_capacity b) (tb_rings b) of
             Inl x \<Rightarrow> Inl x
           | Inr (sl, rings) \<Rightarrow> Inr (sl, b\<lparr>tb_topics := (tb_topics b)(t \<mapsto> sl), tb_rings := rings\<rparr>)))"

definition TypedBus_downcast_mut :: "rust_type \<Rightarrow> topic_slot \<Rightarrow> topic \<Rightarrow> topic_entry may_panic" where
  "TypedBus_downcast_mut ty sl t =
     (if ts_type_id sl \<noteq> ty_id ty then Inl (TypeMismatch t)
      else if any_type (ts_inner sl) = ty_id ty then Inr (any_entry (ts_inner sl))
      else Inl DowncastFailed)"

definition put_entry :: "topic_slot \<Rightarrow> topic_entry \<Rightarrow> topic_slot" where
  "put_entry sl e = sl\<lparr>ts_inner := (ts_inner sl)\<lparr>any_entry := e\<rparr>\<rparr>"

text \<open>The entry of a topic at a type: \<^verbatim>\<open>or_insert_with\<close> and \<^verbatim>\<open>downcast_mut\<close>, as every operation starts.\<close>

definition TypedBus_entry ::
    "'a \<Rightarrow> rust_type \<Rightarrow> topic \<Rightarrow> 'a typed_bus \<Rightarrow> (topic_slot \<times> topic_entry) may_panic \<times> 'a typed_bus" where
  "TypedBus_entry uninit ty t b =
     (case TypedBus_slot uninit ty t b of
        Inl x \<Rightarrow> (Inl x, b)
      | Inr (sl, b') \<Rightarrow>
          (case TypedBus_downcast_mut ty sl t of
             Inl x \<Rightarrow> (Inl x, b')
           | Inr e \<Rightarrow> (Inr (sl, e), b')))"

definition TypedBus_publisher ::
    "'a \<Rightarrow> rust_type \<Rightarrow> topic \<Rightarrow> 'a typed_bus \<Rightarrow> bus_handle may_panic \<times> 'a typed_bus" where
  "TypedBus_publisher uninit ty t b =
     (case TypedBus_entry uninit ty t b of
        (Inl x, b') \<Rightarrow> (Inl x, b')
      | (Inr (sl, e), b') \<Rightarrow>
          (case te_publisher e of
             None \<Rightarrow> (Inl (PublisherTaken t), b')
           | Some p \<Rightarrow>
               (Inr (GotPublisher (te_subscribable e) p),
                b'\<lparr>tb_topics := (tb_topics b')(t \<mapsto> put_entry sl (e\<lparr>te_publisher := None\<rparr>))\<rparr>)))"

definition TypedBus_try_publisher ::
    "'a \<Rightarrow> rust_type \<Rightarrow> topic \<Rightarrow> 'a typed_bus \<Rightarrow> bus_handle may_panic \<times> 'a typed_bus" where
  "TypedBus_try_publisher uninit ty t b =
     (case TypedBus_entry uninit ty t b of
        (Inl x, b') \<Rightarrow> (Inl x, b')
      | (Inr (sl, e), b') \<Rightarrow>
          (case te_publisher e of
             None \<Rightarrow> (Inr NoPublisher, b')
           | Some p \<Rightarrow>
               (Inr (GotPublisher (te_subscribable e) p),
                b'\<lparr>tb_topics := (tb_topics b')(t \<mapsto> put_entry sl (e\<lparr>te_publisher := None\<rparr>))\<rparr>)))"

definition TypedBus_subscribe ::
    "'a \<Rightarrow> rust_type \<Rightarrow> topic \<Rightarrow> 'a typed_bus \<Rightarrow> bus_handle may_panic \<times> 'a typed_bus" where
  "TypedBus_subscribe uninit ty t b =
     (case TypedBus_entry uninit ty t b of
        (Inl x, b') \<Rightarrow> (Inl x, b')
      | (Inr (sl, e), b') \<Rightarrow>
          let i = te_subscribable e;
              (s, (r, _)) = Subscribable_subscribe (snd (tb_rings b' ! i), [])
          in (Inr (GotSubscriber i s), b'\<lparr>tb_rings := (tb_rings b')[i := (fst (tb_rings b' ! i), r)]\<rparr>))"

definition TypedBus_subscribable ::
    "'a \<Rightarrow> rust_type \<Rightarrow> topic \<Rightarrow> 'a typed_bus \<Rightarrow> bus_handle may_panic \<times> 'a typed_bus" where
  "TypedBus_subscribable uninit ty t b =
     (case TypedBus_entry uninit ty t b of
        (Inl x, b') \<Rightarrow> (Inl x, b')
      | (Inr (sl, e), b') \<Rightarrow> (Inr (GotSubscribable (te_subscribable e)), b'))"

type_synonym typed_call = "bus_op \<times> rust_type \<times> topic"

definition TypedBus_call :: "'a \<Rightarrow> typed_call \<Rightarrow> 'a typed_bus \<Rightarrow> bus_handle may_panic \<times> 'a typed_bus" where
  "TypedBus_call uninit = (\<lambda>(op, ty, t) b.
     case op of
       TakePublisher \<Rightarrow> TypedBus_publisher uninit ty t b
     | TryTakePublisher \<Rightarrow> TypedBus_try_publisher uninit ty t b
     | Subscribe \<Rightarrow> TypedBus_subscribe uninit ty t b
     | GetSubscribable \<Rightarrow> TypedBus_subscribable uninit ty t b)"

definition call_topic :: "typed_call \<Rightarrow> topic" where
  "call_topic = (\<lambda>(op, ty, t). t)"

definition typed_ring :: "'a typed_bus \<Rightarrow> topic \<Rightarrow> ring_id option" where
  "typed_ring b t = map_option (te_subscribable \<circ> any_entry \<circ> ts_inner) (tb_topics b t)"

definition typed_taken :: "'a typed_bus \<Rightarrow> topic \<Rightarrow> bool" where
  "typed_taken b t \<longleftrightarrow> (\<exists>sl. tb_topics b t = Some sl \<and> te_publisher (any_entry (ts_inner sl)) = None)"

definition typed_slot_ok :: "'a typed_bus \<Rightarrow> topic_slot \<Rightarrow> bool" where
  "typed_slot_ok b sl \<longleftrightarrow>
     (let i = te_subscribable (any_entry (ts_inner sl))
      in any_type (ts_inner sl) = ts_type_id sl \<and> i < length (tb_rings b) \<and> fst (tb_rings b ! i) = ts_type_id sl)"

definition typed_ok :: "'a typed_bus \<Rightarrow> bool" where
  "typed_ok b \<longleftrightarrow>
     (\<forall>t sl. tb_topics b t = Some sl \<longrightarrow> typed_slot_ok b sl) \<and>
     (\<forall>t t' i. typed_ring b t = Some i \<longrightarrow> typed_ring b t' = Some i \<longrightarrow> t = t')"

lemma TypedBus_entry_cases:
  assumes ok: "typed_ok b" and "TypedBus_entry uninit ty t b = (res, b1)"
  obtains (Mismatch) sl where "tb_topics b t = Some sl" "ts_type_id sl \<noteq> ty_id ty" "res = Inl (TypeMismatch t)" "b1 = b"
  | (NoRing) x where "tb_topics b t = None" "channel uninit (tb_default_capacity b) = Inl x" "res = Inl x" "b1 = b"
  | (Old) sl where "tb_topics b t = Some sl" "ts_type_id sl = ty_id ty" "b1 = b" "res = Inr (sl, any_entry (ts_inner sl))"
  | (New) sl r where "tb_topics b t = None" "ts_type_id sl = ty_id ty" "any_type (ts_inner sl) = ty_id ty"
      "te_subscribable (any_entry (ts_inner sl)) = length (tb_rings b)" "te_publisher (any_entry (ts_inner sl)) \<noteq> None"
      "b1 = b\<lparr>tb_topics := (tb_topics b)(t \<mapsto> sl), tb_rings := tb_rings b @ [(ty_id ty, r)]\<rparr>"
      "res = Inr (sl, any_entry (ts_inner sl))"
proof (cases "tb_topics b t")
  case (Some sl)
  then have "any_type (ts_inner sl) = ts_type_id sl" using ok by (simp add: typed_ok_def typed_slot_ok_def Let_def)
  then show thesis using assms(2) Some Mismatch Old
    by (auto simp: TypedBus_entry_def TypedBus_slot_def TypedBus_downcast_mut_def split: if_splits)
next
  case None
  show thesis
  proof (cases "channel uninit (tb_default_capacity b)")
    case (Inl x)
    then show thesis using None assms(2)
      by (intro NoRing) (auto simp: TypedBus_entry_def TypedBus_slot_def TypedBus_make_slot_def)
  next
    case (Inr pr)
    obtain p r where "pr = (p, r)" by (cases pr)
    then show thesis using None Inr assms(2)
      by (intro New [of "\<lparr>ts_type_id = ty_id ty, ts_type_name = ty_name ty, ts_inner = \<lparr>any_type = ty_id ty,
            any_entry = \<lparr>te_subscribable = length (tb_rings b), te_publisher = Some p\<rparr>\<rparr>\<rparr>" r])
        (auto simp: TypedBus_entry_def TypedBus_slot_def TypedBus_make_slot_def TypedBus_downcast_mut_def)
  qed
qed

lemma map_update_same: "f x = f (xs ! i) \<Longrightarrow> map f (xs[i := x]) = map f xs"
  by (cases "i < length xs") (simp_all add: map_update list_update_same_conv list_update_beyond)

lemma typed_slot_ok_more:
  assumes "typed_slot_ok b sl" "tb_rings b' = tb_rings b @ xs"
  shows "typed_slot_ok b' sl"
  using assms by (auto simp: typed_slot_ok_def Let_def nth_append)

lemma TypedBus_entry_Inr:
  assumes ok: "typed_ok b" and entry: "TypedBus_entry uninit ty t b = (Inr (sl, e), b1)"
  shows "typed_ok b1" "tb_topics b1 t = Some sl" "e = any_entry (ts_inner sl)" "ts_type_id sl = ty_id ty"
    "\<And>t'. t' \<noteq> t \<Longrightarrow> tb_topics b1 t' = tb_topics b t'" "\<And>sl'. tb_topics b t = Some sl' \<Longrightarrow> sl' = sl"
    "tb_topics b t = None \<Longrightarrow> te_publisher e \<noteq> None" "\<exists>xs. tb_rings b1 = tb_rings b @ xs"
proof -
  have slot: "typed_slot_ok b x" if "tb_topics b t' = Some x" for t' x using that ok by (simp add: typed_ok_def)
  show "typed_ok b1"
    using ok entry
  proof (cases rule: TypedBus_entry_cases)
    case (New sl' r)
    have fresh: "typed_ring b t' \<noteq> Some (length (tb_rings b))" for t'
      using slot [of t'] by (auto simp: typed_ring_def typed_slot_ok_def Let_def)
    have ring: "typed_ring b1 t' = (if t' = t then Some (length (tb_rings b)) else typed_ring b t')" for t'
      using New(4,6) by (simp add: typed_ring_def)
    have "t1 = t2" if "typed_ring b1 t1 = Some i" "typed_ring b1 t2 = Some i" for t1 t2 i
      using that ok fresh unfolding ring by (auto simp: typed_ok_def split: if_splits)
    moreover have "typed_slot_ok b1 x" if "tb_topics b1 t' = Some x" for t' x
    proof (cases "t' = t")
      case True
      then have "x = sl'" using that New(6) by simp
      then show ?thesis using New(2,3,4,6) by (simp add: typed_slot_ok_def)
    next
      case False
      then show ?thesis using that New(6) typed_slot_ok_more [OF slot, of t' x b1] by simp
    qed
    ultimately show ?thesis unfolding typed_ok_def by blast
  qed (use ok in simp_all)
  show "tb_topics b1 t = Some sl" "e = any_entry (ts_inner sl)" "ts_type_id sl = ty_id ty"
    "\<And>t'. t' \<noteq> t \<Longrightarrow> tb_topics b1 t' = tb_topics b t'" "\<And>sl'. tb_topics b t = Some sl' \<Longrightarrow> sl' = sl"
    "tb_topics b t = None \<Longrightarrow> te_publisher e \<noteq> None" "\<exists>xs. tb_rings b1 = tb_rings b @ xs"
    using ok entry by (auto elim!: TypedBus_entry_cases)
qed

lemma TypedBus_call_cases:
  assumes "TypedBus_call uninit (op, ty, t) b = (res, b')"
  obtains (Fail) x where "TypedBus_entry uninit ty t b = (Inl x, b')" "res = Inl x"
  | (Entry) sl e b1 where "TypedBus_entry uninit ty t b = (Inr (sl, e), b1)"
      "is_publisher res \<Longrightarrow> te_publisher e \<noteq> None"
      "tb_topics b' = (if is_publisher res then (tb_topics b1)(t \<mapsto> put_entry sl (e\<lparr>te_publisher := None\<rparr>)) else tb_topics b1)"
      "map fst (tb_rings b') = map fst (tb_rings b1)"
      "\<And>hn i. res = Inr hn \<Longrightarrow> handle_ring hn = Some i \<Longrightarrow> i = te_subscribable e"
      "\<And>x. res = Inl x \<Longrightarrow> x = PublisherTaken t \<and> te_publisher e = None"
proof -
  obtain r b1 where en: "TypedBus_entry uninit ty t b = (r, b1)" by (cases "TypedBus_entry uninit ty t b")
  show thesis
  proof (cases r)
    case (Inl x)
    then have "res = Inl x \<and> b' = b1" using assms en
      by (cases op) (auto simp: TypedBus_call_def TypedBus_publisher_def TypedBus_try_publisher_def TypedBus_subscribe_def
        TypedBus_subscribable_def)
    then show thesis using Inl en by (intro Fail) simp_all
  next
    case (Inr se)
    obtain sl e where se: "se = (sl, e)" by (cases se)
    have "(is_publisher res \<longrightarrow> te_publisher e \<noteq> None) \<and>
        tb_topics b' = (if is_publisher res then (tb_topics b1)(t \<mapsto> put_entry sl (e\<lparr>te_publisher := None\<rparr>)) else tb_topics b1) \<and>
        map fst (tb_rings b') = map fst (tb_rings b1) \<and>
        (\<forall>hn i. res = Inr hn \<longrightarrow> handle_ring hn = Some i \<longrightarrow> i = te_subscribable e) \<and>
        (\<forall>x. res = Inl x \<longrightarrow> x = PublisherTaken t \<and> te_publisher e = None)"
    proof (cases op)
      case TakePublisher
      then show ?thesis using assms Inr en se
        by (cases "te_publisher e") (auto simp: TypedBus_call_def TypedBus_publisher_def)
    next
      case TryTakePublisher
      then show ?thesis using assms Inr en se
        by (cases "te_publisher e") (auto simp: TypedBus_call_def TypedBus_try_publisher_def)
    next
      case Subscribe
      then show ?thesis using assms Inr en se
        by (auto simp: TypedBus_call_def TypedBus_subscribe_def Let_def split_beta map_update_same)
    next
      case GetSubscribable
      then show ?thesis using assms Inr en se by (auto simp: TypedBus_call_def TypedBus_subscribable_def)
    qed
    then show thesis using Inr en se by (intro Entry [of sl e b1]) auto
  qed
qed

lemma TypedBus_call_effects:
  assumes ok: "typed_ok b" and call: "TypedBus_call uninit (op, ty, u) b = (res, b')"
  shows "typed_ok b'"
    and "typed_ring b t = Some i \<Longrightarrow> typed_ring b' t = Some i"
    and "res = Inr hn \<Longrightarrow> handle_ring hn = Some i \<Longrightarrow>
      typed_ring b' u = Some i \<and> i < length (tb_rings b') \<and> fst (tb_rings b' ! i) = ty_id ty"
    and "is_publisher res \<Longrightarrow> \<not> typed_taken b u \<and> typed_taken b' u"
    and "typed_taken b t \<Longrightarrow> typed_taken b' t"
    and "j < length (tb_rings b) \<Longrightarrow> j < length (tb_rings b') \<and> fst (tb_rings b' ! j) = fst (tb_rings b ! j)"
proof -
  have all: "typed_ok b' \<and> (typed_ring b t = Some i \<longrightarrow> typed_ring b' t = Some i) \<and>
      (\<forall>hn i. res = Inr hn \<longrightarrow> handle_ring hn = Some i \<longrightarrow>
         typed_ring b' u = Some i \<and> i < length (tb_rings b') \<and> fst (tb_rings b' ! i) = ty_id ty) \<and>
      (is_publisher res \<longrightarrow> \<not> typed_taken b u \<and> typed_taken b' u) \<and>
      (typed_taken b t \<longrightarrow> typed_taken b' t) \<and>
      (\<forall>j < length (tb_rings b). j < length (tb_rings b') \<and> fst (tb_rings b' ! j) = fst (tb_rings b ! j))"
    using call
  proof (cases rule: TypedBus_call_cases)
    case (Fail x)
    with ok have "b' = b" by (auto elim: TypedBus_entry_cases)
    then show ?thesis using ok Fail(2) by simp
  next
    case (Entry sl e b1)
    note en = TypedBus_entry_Inr [OF ok Entry(1)]
    let ?i = "te_subscribable e"
    have len: "length (tb_rings b') = length (tb_rings b1)" using Entry(4) by (rule map_eq_imp_length_eq)
    have tags: "fst (tb_rings b' ! j) = fst (tb_rings b1 ! j)" if "j < length (tb_rings b1)" for j
      using that Entry(4) len by (metis nth_map)
    have slot: "typed_slot_ok b1 x" if "tb_topics b1 t' = Some x" for t' x using that en(1) by (simp add: typed_ok_def)
    have slot': "typed_slot_ok b' x = typed_slot_ok b1 x" for x using len tags by (auto simp: typed_slot_ok_def Let_def)
    have ring: "typed_ring b' t' = typed_ring b1 t'" for t'
      using Entry(3) en(2,3) by (simp add: typed_ring_def put_entry_def)
    have "typed_slot_ok b1 x" if "tb_topics b' t' = Some x" for t' x
    proof (cases "tb_topics b1 t' = Some x")
      case False
      then have "x = put_entry sl (e\<lparr>te_publisher := None\<rparr>)" using that Entry(3) by (auto split: if_splits)
      then show ?thesis using slot [OF en(2)] en(3) by (simp add: typed_slot_ok_def put_entry_def Let_def)
    qed (rule slot)
    then have ok': "typed_ok b'" using en(1) unfolding typed_ok_def ring slot' by blast
    have old: "tb_topics b1 t' = Some x" if "tb_topics b t' = Some x" for t' x
      using that en(2,5,6) by (cases "t' = u") auto
    have keep: "typed_ring b t' = Some j \<longrightarrow> typed_ring b' t' = Some j" for t' j
      unfolding ring using old by (auto simp: typed_ring_def)
    have own: "typed_ring b' u = Some ?i \<and> ?i < length (tb_rings b') \<and> fst (tb_rings b' ! ?i) = ty_id ty"
      using slot [OF en(2)] en(2,3,4) len tags unfolding ring by (auto simp: typed_ring_def typed_slot_ok_def Let_def)
    have pub: "is_publisher res \<longrightarrow> \<not> typed_taken b u \<and> typed_taken b' u"
      using Entry(2,3) en(3,6) by (auto simp: typed_taken_def put_entry_def)
    have taken: "typed_taken b t' \<longrightarrow> typed_taken b' t'" for t'
    proof
      assume "typed_taken b t'"
      then obtain x where x: "tb_topics b1 t' = Some x" "te_publisher (any_entry (ts_inner x)) = None"
        using old by (auto simp: typed_taken_def)
      then show "typed_taken b' t'" using Entry(3) by (cases "t' = u") (auto simp: typed_taken_def put_entry_def)
    qed
    have "\<forall>j < length (tb_rings b). j < length (tb_rings b') \<and> fst (tb_rings b' ! j) = fst (tb_rings b ! j)"
      using en(8) len tags by (auto simp: nth_append)
    then show ?thesis using ok' keep own pub taken Entry(5) by auto
  qed
  show "typed_ok b'" using all by blast
  show "typed_ring b t = Some i \<Longrightarrow> typed_ring b' t = Some i" using all by blast
  show "res = Inr hn \<Longrightarrow> handle_ring hn = Some i \<Longrightarrow>
      typed_ring b' u = Some i \<and> i < length (tb_rings b') \<and> fst (tb_rings b' ! i) = ty_id ty" using all by blast
  show "is_publisher res \<Longrightarrow> \<not> typed_taken b u \<and> typed_taken b' u" using all by blast
  show "typed_taken b t \<Longrightarrow> typed_taken b' t" using all by blast
  show "j < length (tb_rings b) \<Longrightarrow> j < length (tb_rings b') \<and> fst (tb_rings b' ! j) = fst (tb_rings b ! j)"
    using all by blast
qed

interpretation typed: topic_bus "TypedBus_call uninit" call_topic typed_ring typed_taken typed_ok
  for uninit
proof
  fix c :: typed_call and b b' :: "'a typed_bus" and res t i
  assume ok: "typed_ok b"
  show "t = t'" if "typed_ring b t = Some i" "typed_ring b t' = Some i" for t'
    using ok that by (auto simp: typed_ok_def)
  obtain op ty u where c: "c = (op, ty, u)" "call_topic c = u" by (cases c) (auto simp: call_topic_def)
  note eff = TypedBus_call_effects [OF ok, of uninit op ty u, folded c(1)]
  show "typed_ok b'" if "TypedBus_call uninit c b = (res, b')" using eff(1) [OF that] .
  show "typed_ring b' t = Some i" if "TypedBus_call uninit c b = (res, b')" "typed_ring b t = Some i"
    using eff(2) [OF that] .
  show "typed_ring b' (call_topic c) = Some i"
    if "TypedBus_call uninit c b = (Inr hn, b')" "handle_ring hn = Some i" for hn
    using eff(3) [OF that(1) refl that(2)] c(2) by simp
  show "\<not> typed_taken b (call_topic c)" if "TypedBus_call uninit c b = (res, b')" "is_publisher res"
    using eff(4) [OF that] c(2) by simp
  show "typed_taken b' (call_topic c)" if "TypedBus_call uninit c b = (res, b')" "is_publisher res"
    using eff(4) [OF that] c(2) by simp
  show "typed_taken b' t" if "TypedBus_call uninit c b = (res, b')" "typed_taken b t" using eff(5) [OF that] .
qed

lemma typed_run_types:
  assumes "typed_ok b" "bus_run (TypedBus_call uninit) cs b = (tr, b')"
  shows "(\<forall>j < length (tb_rings b). j < length (tb_rings b') \<and> fst (tb_rings b' ! j) = fst (tb_rings b ! j)) \<and>
    (\<forall>op ty t res. ((op, ty, t), res) \<in> set tr \<longrightarrow> res \<noteq> Inl DowncastFailed \<and>
      (\<forall>hn i. res = Inr hn \<longrightarrow> handle_ring hn = Some i \<longrightarrow> i < length (tb_rings b') \<and> fst (tb_rings b' ! i) = ty_id ty))"
  using assms
proof (induction cs arbitrary: b tr)
  case (Cons c cs)
  from Cons.prems(2) obtain res b1 tr1 where 1: "TypedBus_call uninit c b = (res, b1)"
      "bus_run (TypedBus_call uninit) cs b1 = (tr1, b')" and tr: "tr = (c, res) # tr1"
    by (rule run_Cons)
  obtain op ty t where c: "c = (op, ty, t)" by (cases c)
  note eff = TypedBus_call_effects [OF Cons.prems(1) 1(1) [unfolded c]]
  note IH = Cons.IH [OF eff(1) 1(2)]
  have "res \<noteq> Inl DowncastFailed"
    using 1(1) unfolding c
  proof (cases rule: TypedBus_call_cases)
    case (Fail x)
    then show ?thesis using Cons.prems(1)
      by (auto simp: channel_def SharedRing_new_def RingIndex_new_def Let_def split: sum.splits if_splits
          elim!: TypedBus_entry_cases)
  qed auto
  then show ?case using IH eff(3,6) unfolding tr c by fastforce
qed simp

text \<open>What a call returns once it has the topic's entry, and what it leaves there.\<close>

lemma TypedBus_call_result:
  assumes ok: "typed_ok b" and entry: "TypedBus_entry uninit ty t b = (Inr (sl, e), b1)"
    and call: "TypedBus_call uninit (op, ty, t) b = (res, b')"
  shows "\<exists>i. typed_ring b' t = Some i \<and>
      (typed_taken b' t \<longleftrightarrow> te_publisher e = None \<or> op = TakePublisher \<or> op = TryTakePublisher) \<and>
      (case op of
         TakePublisher \<Rightarrow> if te_publisher e = None then res = Inl (PublisherTaken t) else \<exists>p. res = Inr (GotPublisher i p)
       | TryTakePublisher \<Rightarrow> if te_publisher e = None then res = Inr NoPublisher else \<exists>p. res = Inr (GotPublisher i p)
       | Subscribe \<Rightarrow> \<exists>s. res = Inr (GotSubscriber i s)
       | GetSubscribable \<Rightarrow> res = Inr (GotSubscribable i))"
proof -
  note en = TypedBus_entry_Inr(2,3) [OF ok entry]
  note defs = TypedBus_call_def TypedBus_publisher_def TypedBus_try_publisher_def TypedBus_subscribe_def
    TypedBus_subscribable_def typed_ring_def typed_taken_def put_entry_def
  show ?thesis
    by (rule exI [of _ "te_subscribable e"], cases op; cases "te_publisher e")
      (use call entry en in \<open>auto simp: defs Let_def split_beta\<close>)
qed

lemma TypedBus_call_capacity:
  assumes ok: "typed_ok b" and call: "TypedBus_call uninit (op, ty, t) b = (res, b')"
  shows "tb_default_capacity b' = tb_default_capacity b"
proof -
  obtain r b1 where en: "TypedBus_entry uninit ty t b = (r, b1)" by (cases "TypedBus_entry uninit ty t b")
  have "tb_default_capacity b1 = tb_default_capacity b" using ok en by (auto elim!: TypedBus_entry_cases)
  moreover have "tb_default_capacity b' = tb_default_capacity b1"
    using call en by (cases op) (auto simp: TypedBus_call_def TypedBus_publisher_def TypedBus_try_publisher_def
      TypedBus_subscribe_def TypedBus_subscribable_def Let_def split_beta split: sum.splits option.splits)
  ultimately show ?thesis by simp
qed

lemma typed_run_capacity:
  "typed_ok b \<Longrightarrow> bus_run (TypedBus_call uninit) cs b = (tr, b') \<Longrightarrow> tb_default_capacity b' = tb_default_capacity b"
proof (induction cs arbitrary: b tr)
  case (Cons c cs)
  from Cons.prems(2) obtain res b1 tr1 where 1: "TypedBus_call uninit c b = (res, b1)"
      "bus_run (TypedBus_call uninit) cs b1 = (tr1, b')"
    by (rule run_Cons)
  obtain op ty t where c: "c = (op, ty, t)" by (cases c)
  show ?case
    using Cons.IH [OF TypedBus_call_effects(1) [OF Cons.prems(1) 1(1) [unfolded c]] 1(2)]
      TypedBus_call_capacity [OF Cons.prems(1) 1(1) [unfolded c]] by simp
qed simp

section \<open>Properties\<close>

text \<open>
  C27: \<^bold>\<open>Topic routing on \<open>Photon\<close>.\<close>  After any sequence of calls on a new bus, at most one publisher
  has been handed out per topic, and two handles (publishers, subscribers or subscribables) share a
  ring exactly when they were asked for under the same topic name.
\<close>

theorem photon_routes_topics:
  assumes "bus_run (Photon_call uninit) cs (Photon_new capacity) = (tr, b)"
  shows "length (publishers snd t tr) \<le> 1 \<and>
    (\<forall>c1 h1 i c2 h2 j. (c1, Inr h1) \<in> set tr \<and> handle_ring h1 = Some i \<and> (c2, Inr h2) \<in> set tr \<and> handle_ring h2 = Some j \<longrightarrow>
       (i = j \<longleftrightarrow> snd c1 = snd c2))"
proof -
  have "photon_ok (Photon_new capacity)" by (simp add: photon_ok_def Photon_new_def)
  from photon.publisher_once [OF this assms] photon.same_ring_iff [OF this assms] show ?thesis by blast
qed

definition demo_calls :: "bus_call list" where
  "demo_calls = [(TakePublisher, ''prices''), (Subscribe, ''prices''), (GetSubscribable, ''volumes''),
     (TryTakePublisher, ''prices''), (TryTakePublisher, ''volumes''), (TakePublisher, ''prices'')]"

theorem photon_routes_topics_witness:
  "map (map_sum id handle_ring \<circ> snd) (fst (bus_run (Photon_call (0 :: u64)) demo_calls (Photon_new 4))) =
     [Inr (Some 0), Inr (Some 0), Inr (Some 1), Inr None, Inr (Some 1), Inl (PublisherTaken ''prices'')] \<and>
   length (publishers snd ''prices'' (fst (bus_run (Photon_call (0 :: u64)) demo_calls (Photon_new 4)))) \<le> 1"
proof
  show "map (map_sum id handle_ring \<circ> snd) (fst (bus_run (Photon_call (0 :: u64)) demo_calls (Photon_new 4))) =
     [Inr (Some 0), Inr (Some 0), Inr (Some 1), Inr None, Inr (Some 1), Inl (PublisherTaken ''prices'')]"
    by code_simp
  show "length (publishers snd ''prices'' (fst (bus_run (Photon_call (0 :: u64)) demo_calls (Photon_new 4)))) \<le> 1"
    using photon_routes_topics [of "0 :: u64" demo_calls 4 _ _ "''prices''", OF surjective_pairing] by blast
qed

text \<open>
  C26: \<^bold>\<open>Type safety of \<open>TypedBus\<close>.\<close>  After any sequence of calls on a new bus, every handle that was
  given out at type \<open>ty\<close> belongs to a ring whose messages have that type, the internal downcast never
  fails, and publishers and rings are routed by topic as on \<open>Photon\<close>.
\<close>

theorem typed_bus_type_safe:
  assumes "bus_run (TypedBus_call uninit) cs (TypedBus_new capacity) = (tr, b)"
  shows "length (publishers call_topic t tr) \<le> 1 \<and>
    (\<forall>c1 h1 i c2 h2 j. (c1, Inr h1) \<in> set tr \<and> handle_ring h1 = Some i \<and> (c2, Inr h2) \<in> set tr \<and> handle_ring h2 = Some j \<longrightarrow>
       (i = j \<longleftrightarrow> call_topic c1 = call_topic c2)) \<and>
    (\<forall>op ty u res. ((op, ty, u), res) \<in> set tr \<longrightarrow> res \<noteq> Inl DowncastFailed \<and>
       (\<forall>hn i. res = Inr hn \<and> handle_ring hn = Some i \<longrightarrow> i < length (tb_rings b) \<and> fst (tb_rings b ! i) = ty_id ty))"
proof -
  have ok: "typed_ok (TypedBus_new capacity)" by (simp add: typed_ok_def TypedBus_new_def typed_ring_def)
  from typed.publisher_once [OF ok assms] typed.same_ring_iff [OF ok assms] typed_run_types [OF ok assms]
  show ?thesis by blast
qed

definition demo_f64 :: rust_type where
  "demo_f64 = \<lparr>ty_id = 1, ty_name = ''f64''\<rparr>"

definition demo_u32 :: rust_type where
  "demo_u32 = \<lparr>ty_id = 2, ty_name = ''u32''\<rparr>"

definition demo_typed_calls :: "typed_call list" where
  "demo_typed_calls = [(TakePublisher, demo_f64, ''prices''), (Subscribe, demo_u32, ''volumes''),
     (Subscribe, demo_f64, ''prices''), (Subscribe, demo_u32, ''prices'')]"

theorem typed_bus_type_safe_witness:
  "map (map_sum id handle_ring \<circ> snd) (fst (bus_run (TypedBus_call (0 :: u64)) demo_typed_calls (TypedBus_new 4))) =
     [Inr (Some 0), Inr (Some 1), Inr (Some 0), Inl (TypeMismatch ''prices'')] \<and>
   length (publishers call_topic ''prices'' (fst (bus_run (TypedBus_call (0 :: u64)) demo_typed_calls (TypedBus_new 4)))) \<le> 1"
proof
  show "map (map_sum id handle_ring \<circ> snd) (fst (bus_run (TypedBus_call (0 :: u64)) demo_typed_calls (TypedBus_new 4))) =
     [Inr (Some 0), Inr (Some 1), Inr (Some 0), Inl (TypeMismatch ''prices'')]"
    by code_simp
  show "length (publishers call_topic ''prices'' (fst (bus_run (TypedBus_call (0 :: u64)) demo_typed_calls (TypedBus_new 4)))) \<le> 1"
    using typed_bus_type_safe [of "0 :: u64" demo_typed_calls 4 _ _ "''prices''", OF surjective_pairing] by blast
qed

text \<open>
  C34: \<^bold>\<open>Every call of \<open>TypedBus\<close>, panics included.\<close>  On a bus made with a capacity of at least two and
  reached by any sequence of calls: a call on a topic that exists with another type panics with the
  type mismatch and leaves the bus unchanged.  Every other call works on the topic's ring, which is
  created when it is missing: \<^verbatim>\<open>publisher\<close> panics when the publisher was taken before and returns it
  otherwise, \<^verbatim>\<open>try_publisher\<close> returns \<^verbatim>\<open>None\<close> in the first case, and \<^verbatim>\<open>subscribe\<close> and \<^verbatim>\<open>subscribable\<close>
  always return.  The publisher is gone afterwards exactly when it was gone before or was asked for.
\<close>

theorem typed_bus_panics:
  assumes "bus_run (TypedBus_call uninit) cs (TypedBus_new capacity) = (tr, b)" and "2 \<le> capacity"
    and "TypedBus_call uninit (op, ty, t) b = (res, b')"
  shows "if (\<exists>sl. tb_topics b t = Some sl \<and> ts_type_id sl \<noteq> ty_id ty) then res = Inl (TypeMismatch t) \<and> b' = b
    else \<exists>i. typed_ring b' t = Some i \<and>
      (typed_taken b' t \<longleftrightarrow> typed_taken b t \<or> op = TakePublisher \<or> op = TryTakePublisher) \<and>
      (case op of
         TakePublisher \<Rightarrow> if typed_taken b t then res = Inl (PublisherTaken t) else \<exists>p. res = Inr (GotPublisher i p)
       | TryTakePublisher \<Rightarrow> if typed_taken b t then res = Inr NoPublisher else \<exists>p. res = Inr (GotPublisher i p)
       | Subscribe \<Rightarrow> \<exists>s. res = Inr (GotSubscriber i s)
       | GetSubscribable \<Rightarrow> res = Inr (GotSubscribable i))"
proof -
  have ok0: "typed_ok (TypedBus_new capacity)" by (simp add: typed_ok_def TypedBus_new_def typed_ring_def)
  have ok: "typed_ok b" using typed.run_kept [OF ok0 assms(1)] by blast
  have "tb_default_capacity b = capacity" using typed_run_capacity [OF ok0 assms(1)] by (simp add: TypedBus_new_def)
  then obtain p r where chan: "channel uninit (tb_default_capacity b) = Inr (p, r)"
    using assms(2) by (auto simp: channel_def SharedRing_new_def RingIndex_new_def Let_def)
  show ?thesis using assms(3)
  proof (cases rule: TypedBus_call_cases)
    case (Fail x)
    from ok Fail(1) show ?thesis by (cases rule: TypedBus_entry_cases) (use Fail(2) chan in auto)
  next
    case (Entry sl e b1)
    note en = TypedBus_entry_Inr [OF ok Entry(1)]
    have "te_publisher e = None \<longleftrightarrow> typed_taken b t"
      using en(3,6,7) by (cases "tb_topics b t") (auto simp: typed_taken_def)
    moreover have "\<not> (\<exists>sl. tb_topics b t = Some sl \<and> ts_type_id sl \<noteq> ty_id ty)" using en(4,6) by auto
    ultimately show ?thesis using TypedBus_call_result [OF ok Entry(1) assms(3)] by (cases op) auto
  qed
qed

definition demo_bus :: "u64 typed_bus" where
  "demo_bus = snd (bus_run (TypedBus_call (0 :: u64)) demo_typed_calls (TypedBus_new 4))"

theorem typed_bus_panics_witness:
  "fst (TypedBus_call 0 (Subscribe, demo_u32, ''prices'') demo_bus) = Inl (TypeMismatch ''prices'') \<and>
   snd (TypedBus_call 0 (Subscribe, demo_u32, ''prices'') demo_bus) = demo_bus \<and>
   fst (TypedBus_call 0 (TakePublisher, demo_f64, ''prices'') demo_bus) = Inl (PublisherTaken ''prices'') \<and>
   fst (TypedBus_call 0 (TryTakePublisher, demo_f64, ''prices'') demo_bus) = Inr NoPublisher"
proof -
  have run: "bus_run (TypedBus_call (0 :: u64)) demo_typed_calls (TypedBus_new 4) =
      (fst (bus_run (TypedBus_call (0 :: u64)) demo_typed_calls (TypedBus_new 4)), demo_bus)" by (simp add: demo_bus_def)
  have topics: "map_option ts_type_id (tb_topics demo_bus ''prices'') = Some 1 \<and>
      map_option (te_publisher \<circ> any_entry \<circ> ts_inner) (tb_topics demo_bus ''prices'') = Some None"
    unfolding demo_bus_def by code_simp
  then have taken: "typed_taken demo_bus ''prices''" and ty: "\<exists>sl. tb_topics demo_bus ''prices'' = Some sl \<and> ts_type_id sl = 1"
    by (auto simp: typed_taken_def)
  note spec = typed_bus_panics [OF run _ surjective_pairing, where t = "''prices''"]
  show ?thesis
    using spec [where op = Subscribe and ty = demo_u32] spec [where op = TakePublisher and ty = demo_f64]
      spec [where op = TryTakePublisher and ty = demo_f64] taken ty
    by (auto simp: demo_f64_def demo_u32_def)
qed

end
