(* ===== verification/Topology.thy ===== *)
theory Topology
  imports Channel_Spec Bus "HOL-Library.Sublist"
begin

text \<open>
  Multi-stage pipelines: \<^verbatim>\<open>src/src/topology/{mod,builder,fan_out,pipeline}.rs\<close> and the shutdown flag.

  The messages of all channels of a topology have one type: the Rust types only restrict which closures
  fit together.  A channel's ring is a position in a store, as for the buses.  A stage thread is its
  input subscriber, its output publisher, its closure, its idle counter and its status; one iteration
  of its loop is one step, and the scheduler picks the stages in any order.  The hints that a wait
  strategy issues are collected per stage.
\<close>

section \<open>Stages and their state\<close>

definition DEFAULT_CAPACITY :: usize where
  "DEFAULT_CAPACITY = 1024"

definition STAGE_RUNNING :: u8 where
  "STAGE_RUNNING = 0"

definition STAGE_COMPLETED :: u8 where
  "STAGE_COMPLETED = 1"

definition STAGE_PANICKED :: u8 where
  "STAGE_PANICKED = 2"

lemmas stage_status = STAGE_RUNNING_def STAGE_COMPLETED_def STAGE_PANICKED_def

record 'a stage =
  sg_input :: ring_id
  sg_sub :: subscriber
  sg_output :: ring_id
  sg_pub :: publisher
  sg_f :: "'a \<Rightarrow> 'a may_panic"
  sg_strategy :: wait_strategy
  sg_iter :: u32
  sg_hints :: "hint list"
  sg_status :: u8

record 'a topo =
  tp_arch :: target_arch
  tp_cpu :: cpu
  tp_waitpkg :: u8
  tp_rings :: "'a shared_ring list"
  tp_shutdown :: bool
  tp_stages :: "'a stage list"

definition Shutdown_new :: bool where
  "Shutdown_new = False"

definition Shutdown_trigger :: "'a topo \<Rightarrow> 'a topo" where
  "Shutdown_trigger tp = tp\<lparr>tp_shutdown := True\<rparr>"

definition Shutdown_is_shutdown :: "'a topo \<Rightarrow> bool" where
  "Shutdown_is_shutdown tp = tp_shutdown tp"

definition SharedState_new :: "target_arch \<Rightarrow> cpu \<Rightarrow> u8 \<Rightarrow> 'a topo" where
  "SharedState_new arch c pkg =
     \<lparr>tp_arch = arch, tp_cpu = c, tp_waitpkg = pkg, tp_rings = [], tp_shutdown = False, tp_stages = []\<rparr>"

definition spawn_stage ::
    "ring_id \<times> subscriber \<Rightarrow> ring_id \<times> publisher \<Rightarrow> ('a \<Rightarrow> 'a may_panic) \<Rightarrow> wait_strategy \<Rightarrow> 'a stage" where
  "spawn_stage input output f strategy =
     \<lparr>sg_input = fst input, sg_sub = snd input, sg_output = fst output, sg_pub = snd output, sg_f = f,
      sg_strategy = strategy, sg_iter = 0, sg_hints = [], sg_status = STAGE_RUNNING\<rparr>"

text \<open>One iteration of the loop of a stage thread.\<close>

definition stage_iteration :: "nat \<Rightarrow> 'a topo \<Rightarrow> 'a topo" where
  "stage_iteration k tp =
     (let st = tp_stages tp ! k; rings = tp_rings tp;
          put = (\<lambda>st'. tp\<lparr>tp_stages := (tp_stages tp)[k := st']\<rparr>)
      in if sg_status st \<noteq> STAGE_RUNNING then tp
         else if Shutdown_is_shutdown tp then put (st\<lparr>sg_status := STAGE_COMPLETED\<rparr>)
         else case Subscriber_try_recv (sg_sub st) (rings ! sg_input st, []) of
           (Inr value, s', _) \<Rightarrow>
             (case sg_f st value of
                Inl _ \<Rightarrow> put (st\<lparr>sg_sub := s', sg_status := STAGE_PANICKED\<rparr>)
              | Inr out \<Rightarrow>
                  (case Publisher_publish [] (sg_pub st) (rings ! sg_output st, []) out of
                     None \<Rightarrow> tp
                   | Some (p', (r', _), _) \<Rightarrow>
                       (put (st\<lparr>sg_sub := s', sg_pub := p', sg_iter := 0\<rparr>))
                         \<lparr>tp_rings := rings[sg_output st := r']\<rparr>))
         | (Inl Empty, s', _) \<Rightarrow>
             let (hs, pkg) = WaitStrategy_wait (tp_arch tp) (tp_cpu tp) (tp_waitpkg tp) (sg_strategy st) (sg_iter st)
             in (put (st\<lparr>sg_sub := s', sg_iter := u32_saturating_add (sg_iter st) 1, sg_hints := sg_hints st @ hs\<rparr>))
                  \<lparr>tp_waitpkg := pkg\<rparr>
         | (Inl (Lagged _), s', _) \<Rightarrow> put (st\<lparr>sg_sub := s', sg_iter := 0\<rparr>))"

section \<open>The builders\<close>

definition SharedState_add_stage ::
    "'a \<Rightarrow> ring_id \<times> subscriber \<Rightarrow> usize \<Rightarrow> ('a \<Rightarrow> 'a may_panic) \<Rightarrow> wait_strategy \<Rightarrow> 'a topo \<Rightarrow>
     ((ring_id \<times> subscriber) \<times> ring_id \<times> 'a topo) may_panic" where
  "SharedState_add_stage uninit input capacity f strategy tp =
     (case channel uninit capacity of
        Inl e \<Rightarrow> Inl e
      | Inr (next_pub, r) \<Rightarrow>
          let next_subs = length (tp_rings tp);
              (next_sub, (r', _)) = Subscribable_subscribe (r, []);
              stage = spawn_stage input (next_subs, next_pub) f strategy
          in Inr ((next_subs, next_sub), next_subs,
                  tp\<lparr>tp_rings := tp_rings tp @ [r'], tp_stages := tp_stages tp @ [stage]\<rparr>))"

record pipeline_builder =
  plb_capacity :: usize

definition PipelineBuilder_new :: pipeline_builder where
  "PipelineBuilder_new = \<lparr>plb_capacity = DEFAULT_CAPACITY\<rparr>"

definition PipelineBuilder_capacity :: "pipeline_builder \<Rightarrow> usize \<Rightarrow> pipeline_builder" where
  "PipelineBuilder_capacity b cp = b\<lparr>plb_capacity := cp\<rparr>"

record 'a stage_builder =
  sb_subscriber :: "ring_id \<times> subscriber"
  sb_subscribable :: ring_id
  sb_capacity :: usize
  sb_state :: "'a topo"

definition PipelineBuilder_input ::
    "'a \<Rightarrow> 'a topo \<Rightarrow> pipeline_builder \<Rightarrow> ((ring_id \<times> publisher) \<times> 'a stage_builder) may_panic" where
  "PipelineBuilder_input uninit state b =
     (case channel uninit (plb_capacity b) of
        Inl e \<Rightarrow> Inl e
      | Inr (p, r) \<Rightarrow>
          let subs = length (tp_rings state);
              (subscriber, (r', _)) = Subscribable_subscribe (r, [])
          in Inr ((subs, p),
                  \<lparr>sb_subscriber = (subs, subscriber), sb_subscribable = subs, sb_capacity = plb_capacity b,
                   sb_state = state\<lparr>tp_rings := tp_rings state @ [r']\<rparr>\<rparr>))"

definition StageBuilder_then_with ::
    "'a \<Rightarrow> ('a \<Rightarrow> 'a may_panic) \<Rightarrow> wait_strategy \<Rightarrow> 'a stage_builder \<Rightarrow> 'a stage_builder may_panic" where
  "StageBuilder_then_with uninit f strategy b =
     (case SharedState_add_stage uninit (sb_subscriber b) (sb_capacity b) f strategy (sb_state b) of
        Inl e \<Rightarrow> Inl e
      | Inr (next_sub, next_subs, state) \<Rightarrow>
          Inr \<lparr>sb_subscriber = next_sub, sb_subscribable = next_subs, sb_capacity = sb_capacity b, sb_state = state\<rparr>)"

definition StageBuilder_then ::
    "'a \<Rightarrow> ('a \<Rightarrow> 'a may_panic) \<Rightarrow> 'a stage_builder \<Rightarrow> 'a stage_builder may_panic" where
  "StageBuilder_then uninit f b = StageBuilder_then_with uninit f WaitStrategy_default b"

definition StageBuilder_build :: "'a stage_builder \<Rightarrow> (ring_id \<times> subscriber) \<times> 'a topo" where
  "StageBuilder_build b = (sb_subscriber b, sb_state b)"

record 'a fan_out_builder =
  fo_sub_a :: "ring_id \<times> subscriber"
  fo_subs_a :: ring_id
  fo_sub_b :: "ring_id \<times> subscriber"
  fo_subs_b :: ring_id
  fo_capacity :: usize
  fo_state :: "'a topo"

definition StageBuilder_fan_out ::
    "'a \<Rightarrow> ('a \<Rightarrow> 'a may_panic) \<Rightarrow> ('a \<Rightarrow> 'a may_panic) \<Rightarrow> 'a stage_builder \<Rightarrow> 'a fan_out_builder may_panic" where
  "StageBuilder_fan_out uninit fa fb b =
     (let i = sb_subscribable b; state = sb_state b;
          (input_b, (r', _)) = Subscribable_subscribe (tp_rings state ! i, []);
          state1 = state\<lparr>tp_rings := (tp_rings state)[i := r']\<rparr>;
          strategy = WaitStrategy_default
      in case SharedState_add_stage uninit (sb_subscriber b) (sb_capacity b) fa strategy state1 of
           Inl e \<Rightarrow> Inl e
         | Inr (sub_a, subs_a, state2) \<Rightarrow>
             (case SharedState_add_stage uninit (i, input_b) (sb_capacity b) fb strategy state2 of
                Inl e \<Rightarrow> Inl e
              | Inr (sub_b, subs_b, state3) \<Rightarrow>
                  Inr \<lparr>fo_sub_a = sub_a, fo_subs_a = subs_a, fo_sub_b = sub_b, fo_subs_b = subs_b,
                       fo_capacity = sb_capacity b, fo_state = state3\<rparr>))"

definition FanOutBuilder_then_a_with ::
    "'a \<Rightarrow> ('a \<Rightarrow> 'a may_panic) \<Rightarrow> wait_strategy \<Rightarrow> 'a fan_out_builder \<Rightarrow> 'a fan_out_builder may_panic" where
  "FanOutBuilder_then_a_with uninit f strategy b =
     (case SharedState_add_stage uninit (fo_sub_a b) (fo_capacity b) f strategy (fo_state b) of
        Inl e \<Rightarrow> Inl e
      | Inr (next_sub, next_subs, state) \<Rightarrow>
          Inr (b\<lparr>fo_sub_a := next_sub, fo_subs_a := next_subs, fo_state := state\<rparr>))"

definition FanOutBuilder_then_a ::
    "'a \<Rightarrow> ('a \<Rightarrow> 'a may_panic) \<Rightarrow> 'a fan_out_builder \<Rightarrow> 'a fan_out_builder may_panic" where
  "FanOutBuilder_then_a uninit f b = FanOutBuilder_then_a_with uninit f WaitStrategy_default b"

definition FanOutBuilder_then_b_with ::
    "'a \<Rightarrow> ('a \<Rightarrow> 'a may_panic) \<Rightarrow> wait_strategy \<Rightarrow> 'a fan_out_builder \<Rightarrow> 'a fan_out_builder may_panic" where
  "FanOutBuilder_then_b_with uninit f strategy b =
     (case SharedState_add_stage uninit (fo_sub_b b) (fo_capacity b) f strategy (fo_state b) of
        Inl e \<Rightarrow> Inl e
      | Inr (next_sub, next_subs, state) \<Rightarrow>
          Inr (b\<lparr>fo_sub_b := next_sub, fo_subs_b := next_subs, fo_state := state\<rparr>))"

definition FanOutBuilder_then_b ::
    "'a \<Rightarrow> ('a \<Rightarrow> 'a may_panic) \<Rightarrow> 'a fan_out_builder \<Rightarrow> 'a fan_out_builder may_panic" where
  "FanOutBuilder_then_b uninit f b = FanOutBuilder_then_b_with uninit f WaitStrategy_default b"

definition FanOutBuilder_build ::
    "'a fan_out_builder \<Rightarrow> ((ring_id \<times> subscriber) \<times> (ring_id \<times> subscriber)) \<times> 'a topo" where
  "FanOutBuilder_build b = ((fo_sub_a b, fo_sub_b b), fo_state b)"

section \<open>The pipeline handle\<close>

definition Pipeline_shutdown :: "'a topo \<Rightarrow> 'a topo" where
  "Pipeline_shutdown tp = tp\<lparr>tp_shutdown := True\<rparr>"

definition Pipeline_panicked_stages :: "'a topo \<Rightarrow> nat list" where
  "Pipeline_panicked_stages tp =
     map fst (filter (\<lambda>(i, st). sg_status st = STAGE_PANICKED) (enumerate 0 (tp_stages tp)))"

definition Pipeline_is_healthy :: "'a topo \<Rightarrow> bool" where
  "Pipeline_is_healthy tp = list_all (\<lambda>st. sg_status st = STAGE_RUNNING) (tp_stages tp)"

definition Pipeline_stage_count :: "'a topo \<Rightarrow> nat" where
  "Pipeline_stage_count tp = length (tp_stages tp)"

text \<open>Joining returns once every stage thread has ended; until then it blocks (\<open>None\<close>).\<close>

definition Pipeline_join :: "'a topo \<Rightarrow> unit option" where
  "Pipeline_join tp = (if list_all (\<lambda>st. sg_status st \<noteq> STAGE_RUNNING) (tp_stages tp) then Some () else None)"

definition Pipeline_try_join :: "'a topo \<Rightarrow> (nat list + unit) option" where
  "Pipeline_try_join tp =
     (case Pipeline_join tp of
        None \<Rightarrow> None
      | Some _ \<Rightarrow>
          let panicked = Pipeline_panicked_stages tp
          in Some (if panicked = [] then Inr () else Inl panicked))"

definition Pipeline_drop :: "'a topo \<Rightarrow> 'a topo" where
  "Pipeline_drop tp = tp\<lparr>tp_shutdown := True\<rparr>"

end
