(* ===== verification/Topology_Run.thy ===== *)
theory Topology_Run
  imports Topology
begin

text \<open>
  Runs of a topology: the owner of the input publisher feeds messages and may trigger the shutdown, and
  the stages iterate in any order.  The invariant relates every ring to the log of what was published to
  it and every stage to the messages it has transformed; the properties say what a stage's output is in
  terms of its input, that a quiet pipeline delivers everything, and how stages end.
\<close>

section \<open>Runs\<close>

datatype 'a topo_act = Feed 'a | Iterate nat | Trigger

type_synonym 'a topo_sys = "publisher \<times> 'a topo"

text \<open>The input channel is ring \<open>0\<close>.\<close>

definition topo_do :: "'a topo_act \<Rightarrow> 'a topo_sys \<Rightarrow> 'a topo_sys" where
  "topo_do a y =
     (let (p, tp) = y in
      case a of
        Feed v \<Rightarrow>
          (case Publisher_publish [] p (tp_rings tp ! 0, []) v of
             None \<Rightarrow> y
           | Some (p', (r', _), _) \<Rightarrow> (p', tp\<lparr>tp_rings := (tp_rings tp)[0 := r']\<rparr>))
      | Iterate k \<Rightarrow> (p, if k < length (tp_stages tp) then stage_iteration k tp else tp)
      | Trigger \<Rightarrow> (p, Pipeline_shutdown tp))"

fun topo_run :: "'a topo_act list \<Rightarrow> 'a topo_sys \<Rightarrow> 'a topo_sys" where
  "topo_run [] y = y"
| "topo_run (a # as) y = topo_run as (topo_do a y)"

definition fed :: "'a topo_act list \<Rightarrow> 'a list" where
  "fed as = concat (map (\<lambda>a. case a of Feed v \<Rightarrow> [v] | _ \<Rightarrow> []) as)"

lemma topo_run_append: "topo_run (xs @ ys) y = topo_run ys (topo_run xs y)"
  by (induction xs arbitrary: y) simp_all

lemma fed_simps [simp]:
  "fed [] = []" "fed (Feed v # as) = v # fed as" "fed (Iterate k # as) = fed as" "fed (Trigger # as) = fed as"
  "fed (xs @ ys) = fed xs @ fed ys"
  by (simp_all add: fed_def)

section \<open>The invariant\<close>

definition ring_ok :: "'a shared_ring \<Rightarrow> 'a list \<Rightarrow> bool" where
  "ring_ok r log \<longleftrightarrow> ring_log r log \<and> log_fits log \<and> sr_backpressure r = None"

definition stage_ok :: "'a shared_ring list \<Rightarrow> 'a list list \<Rightarrow> 'a stage \<Rightarrow> 'a list \<Rightarrow> bool" where
  "stage_ok rings logs st rcv \<longleftrightarrow>
     sg_input st < sg_output st \<and> sg_output st < length rings \<and>
     subscriber_at (sg_sub st) (rings ! sg_input st) (logs ! sg_input st) \<and> sub_tracker (sg_sub st) = None \<and>
     publisher_log (sg_pub st) (rings ! sg_output st) (logs ! sg_output st) \<and>
     map (sg_f st) rcv = map Inr (logs ! sg_output st) \<and>
     subseq rcv (take (unat (sub_cursor (sg_sub st))) (logs ! sg_input st)) \<and>
     unat (sub_total_lagged (sg_sub st)) + length rcv + (if sg_status st = STAGE_PANICKED then 1 else 0) =
       unat (sub_cursor (sg_sub st))"

definition topo_inv :: "'a list list \<Rightarrow> 'a list list \<Rightarrow> 'a topo_sys \<Rightarrow> bool" where
  "topo_inv logs rcvs y \<longleftrightarrow>
     (let (p, tp) = y; rings = tp_rings tp; stages = tp_stages tp in
      rings \<noteq> [] \<and> length logs = length rings \<and> length rcvs = length stages \<and>
      (\<forall>i < length rings. ring_ok (rings ! i) (logs ! i)) \<and>
      (\<forall>k < length stages. stage_ok rings logs (stages ! k) (rcvs ! k)) \<and>
      distinct (map sg_output stages) \<and> publisher_log p (rings ! 0) (logs ! 0))"

lemma topo_invD:
  assumes "topo_inv logs rcvs (p, tp)"
  shows "tp_rings tp \<noteq> []" "length logs = length (tp_rings tp)" "length rcvs = length (tp_stages tp)"
    "i < length (tp_rings tp) \<Longrightarrow> ring_ok (tp_rings tp ! i) (logs ! i)"
    "k < length (tp_stages tp) \<Longrightarrow> stage_ok (tp_rings tp) logs (tp_stages tp ! k) (rcvs ! k)"
    "distinct (map sg_output (tp_stages tp))" "publisher_log p (tp_rings tp ! 0) (logs ! 0)"
  using assms by (auto simp: topo_inv_def Let_def)

text \<open>Publishing on a lossy channel never blocks and appends to the log.\<close>

lemma lossy_publish:
  assumes "ring_ok r log" "publisher_log p r log" "length log < 2 ^ 63 - 2"
  obtains p' r' where "Publisher_publish [] p (r, []) v = Some (p', (r', []), [])" "ring_ok r' (log @ [v])"
    "publisher_log p' r' (log @ [v])" "sr_index r' = sr_index r"
proof -
  obtain p' r' where pub: "Publisher_publish_unchecked p r v = (p', r')" by (cases "Publisher_publish_unchecked p r v")
  have ok: "ring_log r log" "log_fits log" "sr_backpressure r = None" using assms(1) by (auto simp: ring_ok_def)
  have "\<not> pb_has_backpressure p" using assms(2) ok(3) by (simp add: publisher_log_def)
  then have "Publisher_publish [] p (r, []) v = Some (p', (r', []), [])" by (simp add: Publisher_publish_def pub)
  moreover have fr: "sr_index r' = sr_index r" "sr_backpressure r' = sr_backpressure r"
    using pub by (auto simp: Publisher_publish_unchecked_def Let_def)
  moreover have "ring_ok r' (log @ [v])"
    using ring_log_publish(1) [OF ok(1) assms(2) ok(2) pub] assms(3) ok(3) fr by (simp add: ring_ok_def log_fits_def)
  ultimately show thesis using that ring_log_publish(2) [OF ok(1) assms(2) ok(2) pub] by blast
qed

text \<open>A stage keeps its assertions when a ring it does not write grows.\<close>

lemma stage_ok_frame:
  assumes ok: "stage_ok rings logs st rcv" and j: "j \<noteq> sg_output st" "j < length rings" "length logs = length rings"
    and grow: "sr_index r' = sr_index (rings ! j)"
  shows "stage_ok (rings[j := r']) (logs[j := logs ! j @ ys]) st rcv"
proof -
  have le: "unat (sub_cursor (sg_sub st)) \<le> length (logs ! sg_input st)" using ok by (simp add: stage_ok_def subscriber_at_def)
  have "sg_input st < length rings" "sg_output st < length rings" using ok by (auto simp: stage_ok_def)
  then show ?thesis using ok j grow le
    by (cases "j = sg_input st") (auto simp: stage_ok_def subscriber_at_def nth_list_update)
qed

lemma topo_inv_feed:
  assumes inv: "topo_inv logs rcvs (p, tp)" and room: "length (logs ! 0) < 2 ^ 63 - 2"
  shows "topo_inv (logs[0 := logs ! 0 @ [v]]) rcvs (topo_do (Feed v) (p, tp))"
proof -
  note D = topo_invD [OF inv]
  have r0: "ring_ok (tp_rings tp ! 0) (logs ! 0)" using D(1,4) by simp
  from r0 D(7) room obtain p' r' where pub: "Publisher_publish [] p (tp_rings tp ! 0, []) v = Some (p', (r', []), [])"
      "ring_ok r' (logs ! 0 @ [v])" "publisher_log p' r' (logs ! 0 @ [v])" "sr_index r' = sr_index (tp_rings tp ! 0)"
    by (rule lossy_publish)
  have "stage_ok ((tp_rings tp)[0 := r']) (logs[0 := logs ! 0 @ [v]]) (tp_stages tp ! k) (rcvs ! k)"
    if "k < length (tp_stages tp)" for k
    using D(1,2) D(5) [OF that] pub(4) by (intro stage_ok_frame) (auto simp: stage_ok_def)
  then show ?thesis using D(1-4,6) pub by (auto simp: topo_inv_def topo_do_def nth_list_update Let_def)
qed

text \<open>What a receive does to a stage's subscriber.\<close>

lemma stage_recv:
  assumes r: "ring_ok r log" and s: "subscriber_at s r log" "sub_tracker s = None"
    and recv: "Subscriber_try_recv s (r, []) = (res, s', m')"
  shows "subscriber_at s' r log" "sub_tracker s' = None"
    "res = Inl Empty \<Longrightarrow> sub_cursor s' = sub_cursor s \<and> sub_total_lagged s' = sub_total_lagged s \<and> unat (sub_cursor s) = length log"
    "res = Inr v \<Longrightarrow> unat (sub_cursor s) < length log \<and> v = log ! unat (sub_cursor s) \<and>
       unat (sub_cursor s') = Suc (unat (sub_cursor s)) \<and> sub_total_lagged s' = sub_total_lagged s"
    "res = Inl (Lagged n) \<Longrightarrow> unat (sub_total_lagged s) \<le> unat (sub_cursor s) \<Longrightarrow>
       unat (sub_cursor s) + cap r < length log \<and> unat (sub_cursor s') = length log - cap r \<and>
       unat (sub_total_lagged s') = unat (sub_total_lagged s) + (unat (sub_cursor s') - unat (sub_cursor s))"
proof -
  have g: "ring_log r log" "log_fits log" using r by (auto simp: ring_ok_def)
  note ref = try_recv_refines [OF g(1) s(1) g(2) recv]
  show "subscriber_at s' r log" "sub_tracker s' = None" using ref(2,5) s(2) by auto
  have len: "length log < 2 ^ 63 - 1" using g(2) by (simp add: log_fits_def)
  have c: "unat (sub_cursor s) \<le> length log" using s(1) by (simp add: subscriber_at_def)
  show "res = Inl Empty \<Longrightarrow> sub_cursor s' = sub_cursor s \<and> sub_total_lagged s' = sub_total_lagged s \<and> unat (sub_cursor s) = length log"
    using ref(1,7) c by (auto simp: spec_recv_def counts_def u64_eq_iff split: if_splits)
  show "res = Inr v \<Longrightarrow> unat (sub_cursor s) < length log \<and> v = log ! unat (sub_cursor s) \<and>
       unat (sub_cursor s') = Suc (unat (sub_cursor s)) \<and> sub_total_lagged s' = sub_total_lagged s"
    using ref(1,7) by (auto simp: spec_recv_def counts_def split: if_splits)
  assume lag: "res = Inl (Lagged n)" and le: "unat (sub_total_lagged s) \<le> unat (sub_cursor s)"
  then have cur: "unat (sub_cursor s) + cap r < length log" "unat (sub_cursor s') = length log - cap r"
      "n = of_nat (length log - cap r - unat (sub_cursor s))"
    using ref(1) by (auto simp: spec_recv_def split: if_splits)
  have "unat n = length log - cap r - unat (sub_cursor s)" unfolding cur(3) using len by (intro unat_of_nat_u64) simp
  moreover have "sub_total_lagged s' = sub_total_lagged s + n" using ref(7) lag by (simp add: counts_def)
  moreover have "unat (sub_total_lagged s + n) = unat (sub_total_lagged s) + unat n"
    using le cur len calculation by (intro unat_u64_add) simp
  ultimately show "unat (sub_cursor s) + cap r < length log \<and> unat (sub_cursor s') = length log - cap r \<and>
       unat (sub_total_lagged s') = unat (sub_total_lagged s) + (unat (sub_cursor s') - unat (sub_cursor s))"
    using cur by simp
qed

text \<open>Replacing one stage.\<close>

lemma topo_inv_put:
  assumes inv: "topo_inv logs rcvs (p, tp)" and k: "k < length (tp_stages tp)"
    and tp': "tp_rings tp' = tp_rings tp" "tp_stages tp' = (tp_stages tp)[k := st']"
    and st': "sg_output st' = sg_output (tp_stages tp ! k)" "stage_ok (tp_rings tp) logs st' (rcvs ! k)"
  shows "topo_inv logs rcvs (p, tp')"
proof -
  note D = topo_invD [OF inv]
  have "map sg_output ((tp_stages tp)[k := st']) = map sg_output (tp_stages tp)" using st'(1) by (rule map_update_same)
  moreover have "stage_ok (tp_rings tp) logs ((tp_stages tp)[k := st'] ! l) (rcvs ! l)" if "l < length (tp_stages tp)" for l
    using D(5) [OF that] st'(2) that k by (cases "l = k") simp_all
  ultimately show ?thesis using D(1-4,6,7) by (simp add: topo_inv_def tp')
qed

text \<open>The iterations of a running stage, by the outcome of its receive.\<close>

lemma iterate_end:
  assumes inv: "topo_inv logs rcvs (p, tp)" and k: "k < length (tp_stages tp)"
    and run: "sg_status (tp_stages tp ! k) = STAGE_RUNNING" and stop: "tp_shutdown tp"
  shows "topo_inv logs rcvs (p, stage_iteration k tp)"
proof -
  let ?st = "(tp_stages tp ! k)\<lparr>sg_status := STAGE_COMPLETED\<rparr>"
  have "stage_iteration k tp = tp\<lparr>tp_stages := (tp_stages tp)[k := ?st]\<rparr>"
    using run stop by (simp add: stage_iteration_def Shutdown_is_shutdown_def)
  moreover have "stage_ok (tp_rings tp) logs ?st (rcvs ! k)"
    using topo_invD(5) [OF inv k] run by (simp add: stage_ok_def stage_status)
  ultimately show ?thesis using topo_inv_put [OF inv k, of _ ?st] by simp
qed

lemma iterate_empty:
  assumes inv: "topo_inv logs rcvs (p, tp)" and k: "k < length (tp_stages tp)" and st: "st = tp_stages tp ! k"
    and run: "sg_status st = STAGE_RUNNING" "\<not> tp_shutdown tp"
    and recv: "Subscriber_try_recv (sg_sub st) (tp_rings tp ! sg_input st, []) = (Inl Empty, s', m')"
  shows "topo_inv logs rcvs (p, stage_iteration k tp)"
proof -
  have ok: "stage_ok (tp_rings tp) logs st (rcvs ! k)" using topo_invD(5) [OF inv k] by (simp add: st)
  then have ri: "ring_ok (tp_rings tp ! sg_input st) (logs ! sg_input st)" using topo_invD(4) [OF inv] by (simp add: stage_ok_def)
  have sub: "subscriber_at (sg_sub st) (tp_rings tp ! sg_input st) (logs ! sg_input st)" "sub_tracker (sg_sub st) = None"
    using ok by (auto simp: stage_ok_def)
  obtain hs pkg where w: "WaitStrategy_wait (tp_arch tp) (tp_cpu tp) (tp_waitpkg tp) (sg_strategy st) (sg_iter st) = (hs, pkg)"
    by fastforce
  let ?st = "st\<lparr>sg_sub := s', sg_iter := u32_saturating_add (sg_iter st) 1, sg_hints := sg_hints st @ hs\<rparr>"
  have "stage_iteration k tp = tp\<lparr>tp_waitpkg := pkg, tp_stages := (tp_stages tp)[k := ?st]\<rparr>"
    using run recv w by (simp add: stage_iteration_def Shutdown_is_shutdown_def st [symmetric] Let_def)
  moreover have "stage_ok (tp_rings tp) logs ?st (rcvs ! k)"
    using ok stage_recv(1,2,3) [OF ri sub recv] by (simp add: stage_ok_def)
  ultimately show ?thesis using topo_inv_put [OF inv k, of _ ?st] by (simp add: st)
qed

lemma iterate_lagged:
  assumes inv: "topo_inv logs rcvs (p, tp)" and k: "k < length (tp_stages tp)" and st: "st = tp_stages tp ! k"
    and run: "sg_status st = STAGE_RUNNING" "\<not> tp_shutdown tp"
    and recv: "Subscriber_try_recv (sg_sub st) (tp_rings tp ! sg_input st, []) = (Inl (Lagged n), s', m')"
  shows "topo_inv logs rcvs (p, stage_iteration k tp)"
proof -
  let ?i = "sg_input st" and ?st = "st\<lparr>sg_sub := s', sg_iter := 0\<rparr>"
  let ?c = "unat (sub_cursor (sg_sub st))" and ?c' = "unat (sub_cursor s')"
  have ok: "stage_ok (tp_rings tp) logs st (rcvs ! k)" using topo_invD(5) [OF inv k] by (simp add: st)
  then have ri: "ring_ok (tp_rings tp ! ?i) (logs ! ?i)" using topo_invD(4) [OF inv] by (simp add: stage_ok_def)
  have sub: "subscriber_at (sg_sub st) (tp_rings tp ! ?i) (logs ! ?i)" "sub_tracker (sg_sub st) = None"
    and acc: "unat (sub_total_lagged (sg_sub st)) + length (rcvs ! k) = ?c"
    using ok run(1) by (auto simp: stage_ok_def stage_status)
  note rl = stage_recv(1,2) [OF ri sub recv] stage_recv(5) [OF ri sub recv refl]
  have "take ?c' (logs ! ?i) = take ?c (logs ! ?i) @ take (?c' - ?c) (drop ?c (logs ! ?i))"
    using rl(3) acc take_add [of ?c "?c' - ?c" "logs ! ?i"] by simp
  then have "subseq (rcvs ! k) (take ?c' (logs ! ?i))" using ok by (auto simp: stage_ok_def)
  moreover have "unat (sub_total_lagged s') + length (rcvs ! k) = ?c'" using acc rl(3) by simp
  ultimately have "stage_ok (tp_rings tp) logs ?st (rcvs ! k)"
    using ok rl(1,2) run(1) by (simp add: stage_ok_def stage_status)
  moreover have "stage_iteration k tp = tp\<lparr>tp_stages := (tp_stages tp)[k := ?st]\<rparr>"
    using run recv by (simp add: stage_iteration_def Shutdown_is_shutdown_def st [symmetric] Let_def)
  ultimately show ?thesis using topo_inv_put [OF inv k, of _ ?st] by (simp add: st)
qed

lemma iterate_panic:
  assumes inv: "topo_inv logs rcvs (p, tp)" and k: "k < length (tp_stages tp)" and st: "st = tp_stages tp ! k"
    and run: "sg_status st = STAGE_RUNNING" "\<not> tp_shutdown tp"
    and recv: "Subscriber_try_recv (sg_sub st) (tp_rings tp ! sg_input st, []) = (Inr v, s', m')"
    and f: "sg_f st v = Inl e"
  shows "topo_inv logs rcvs (p, stage_iteration k tp)"
proof -
  let ?i = "sg_input st" and ?st = "st\<lparr>sg_sub := s', sg_status := STAGE_PANICKED\<rparr>"
  let ?c = "unat (sub_cursor (sg_sub st))"
  have ok: "stage_ok (tp_rings tp) logs st (rcvs ! k)" using topo_invD(5) [OF inv k] by (simp add: st)
  then have ri: "ring_ok (tp_rings tp ! ?i) (logs ! ?i)" using topo_invD(4) [OF inv] by (simp add: stage_ok_def)
  have sub: "subscriber_at (sg_sub st) (tp_rings tp ! ?i) (logs ! ?i)" "sub_tracker (sg_sub st) = None"
    using ok by (auto simp: stage_ok_def)
  note rv = stage_recv(1,2) [OF ri sub recv] stage_recv(4) [OF ri sub recv refl]
  have "take (Suc ?c) (logs ! ?i) = take ?c (logs ! ?i) @ [v]" using rv by (simp add: take_Suc_conv_app_nth)
  then have "stage_ok (tp_rings tp) logs ?st (rcvs ! k)"
    using ok rv run(1) by (auto simp: stage_ok_def stage_status)
  moreover have "stage_iteration k tp = tp\<lparr>tp_stages := (tp_stages tp)[k := ?st]\<rparr>"
    using run recv f by (simp add: stage_iteration_def Shutdown_is_shutdown_def st [symmetric] Let_def)
  ultimately show ?thesis using topo_inv_put [OF inv k, of _ ?st] by (simp add: st)
qed

text \<open>The output channel grows by one message: every other stage is only affected as a reader of it.\<close>

lemma topo_inv_output:
  assumes inv: "topo_inv logs rcvs (p, tp)" and k: "k < length (tp_stages tp)" and st: "st = tp_stages tp ! k"
    and io: "0 < sg_output st" "sg_output st < length (tp_rings tp)"
    and r': "ring_ok r' (logs ! sg_output st @ [out])" "sr_index r' = sr_index (tp_rings tp ! sg_output st)"
    and st': "sg_output st' = sg_output st"
      "stage_ok ((tp_rings tp)[sg_output st := r']) (logs[sg_output st := logs ! sg_output st @ [out]]) st' (rcvs ! k @ [v])"
  shows "topo_inv (logs[sg_output st := logs ! sg_output st @ [out]]) (rcvs[k := rcvs ! k @ [v]])
    (p, tp\<lparr>tp_rings := (tp_rings tp)[sg_output st := r'], tp_stages := (tp_stages tp)[k := st']\<rparr>)"
proof -
  note D = topo_invD [OF inv]
  let ?o = "sg_output st"
  let ?rings = "(tp_rings tp)[?o := r']" and ?logs = "logs[?o := logs ! ?o @ [out]]" and ?rcvs = "rcvs[k := rcvs ! k @ [v]]"
  have "stage_ok ?rings ?logs ((tp_stages tp)[k := st'] ! l) (?rcvs ! l)" if l: "l < length (tp_stages tp)" for l
  proof (cases "l = k")
    case True
    then show ?thesis using st'(2) k D(3) by simp
  next
    case False
    have "sg_output (tp_stages tp ! l) \<noteq> ?o" using D(6) l k False unfolding st by (simp add: distinct_conv_nth)
    then have "stage_ok ?rings ?logs (tp_stages tp ! l) (rcvs ! l)"
      using D(2) D(5) [OF l] r'(2) io by (intro stage_ok_frame) auto
    then show ?thesis using False by simp
  qed
  moreover have "map sg_output ((tp_stages tp)[k := st']) = map sg_output (tp_stages tp)"
    using st'(1) by (intro map_update_same) (simp add: st)
  ultimately show ?thesis using D(1-4,6,7) r' io by (auto simp: topo_inv_def nth_list_update Let_def)
qed

lemma iterate_value:
  assumes inv: "topo_inv logs rcvs (p, tp)" and k: "k < length (tp_stages tp)" and st: "st = tp_stages tp ! k"
    and run: "sg_status st = STAGE_RUNNING" "\<not> tp_shutdown tp"
    and recv: "Subscriber_try_recv (sg_sub st) (tp_rings tp ! sg_input st, []) = (Inr v, s', m')"
    and f: "sg_f st v = Inr out"
  obtains p' r' where "stage_iteration k tp = tp\<lparr>tp_rings := (tp_rings tp)[sg_output st := r'],
        tp_stages := (tp_stages tp)[k := st\<lparr>sg_sub := s', sg_pub := p', sg_iter := 0\<rparr>]\<rparr>"
    "sr_index r' = sr_index (tp_rings tp ! sg_output st)"
    "topo_inv (logs[sg_output st := logs ! sg_output st @ [out]]) (rcvs[k := rcvs ! k @ [v]]) (p, stage_iteration k tp)"
proof -
  note D = topo_invD [OF inv]
  let ?i = "sg_input st" and ?o = "sg_output st" and ?c = "unat (sub_cursor (sg_sub st))"
  have ok: "stage_ok (tp_rings tp) logs st (rcvs ! k)" using D(5) [OF k] by (simp add: st)
  then have io: "?i < ?o" "?o < length (tp_rings tp)" "?i < length (tp_rings tp)" by (auto simp: stage_ok_def)
  have ri: "ring_ok (tp_rings tp ! ?i) (logs ! ?i)" and ro: "ring_ok (tp_rings tp ! ?o) (logs ! ?o)" using D(4) io by auto
  have sub: "subscriber_at (sg_sub st) (tp_rings tp ! ?i) (logs ! ?i)" "sub_tracker (sg_sub st) = None"
    and acc: "unat (sub_total_lagged (sg_sub st)) + length (rcvs ! k) = ?c"
    and pl: "publisher_log (sg_pub st) (tp_rings tp ! ?o) (logs ! ?o)"
    using ok run(1) by (auto simp: stage_ok_def stage_status)
  note rv = stage_recv(1,2) [OF ri sub recv] stage_recv(4) [OF ri sub recv refl]
  have tk: "take (Suc ?c) (logs ! ?i) = take ?c (logs ! ?i) @ [v]" using rv by (simp add: take_Suc_conv_app_nth)
  have "length (rcvs ! k) = length (logs ! ?o)" using ok by (metis length_map stage_ok_def)
  moreover have "length (logs ! ?i) < 2 ^ 63 - 1" using ri by (simp add: ring_ok_def log_fits_def)
  ultimately have room: "length (logs ! ?o) < 2 ^ 63 - 2" using acc rv by linarith
  from ro pl room obtain p' r' where pub:
      "Publisher_publish [] (sg_pub st) (tp_rings tp ! ?o, []) out = Some (p', (r', []), [])"
      "ring_ok r' (logs ! ?o @ [out])" "publisher_log p' r' (logs ! ?o @ [out])" "sr_index r' = sr_index (tp_rings tp ! ?o)"
    by (rule lossy_publish)
  let ?st = "st\<lparr>sg_sub := s', sg_pub := p', sg_iter := 0\<rparr>"
  have it: "stage_iteration k tp = tp\<lparr>tp_rings := (tp_rings tp)[?o := r'], tp_stages := (tp_stages tp)[k := ?st]\<rparr>"
    using run recv f pub(1) by (simp add: stage_iteration_def Shutdown_is_shutdown_def st [symmetric] Let_def)
  have "stage_ok ((tp_rings tp)[?o := r']) (logs[?o := logs ! ?o @ [out]]) ?st (rcvs ! k @ [v])"
    using ok rv run(1) acc tk io pub D(2) f
    by (auto simp: stage_ok_def stage_status intro: list_emb_append_mono)
  then have "topo_inv (logs[?o := logs ! ?o @ [out]]) (rcvs[k := rcvs ! k @ [v]]) (p, stage_iteration k tp)"
    unfolding it using io pub by (intro topo_inv_output [OF inv k st]) auto
  then show thesis using that it pub(4) by blast
qed

lemma stage_iteration_inv:
  assumes inv: "topo_inv logs rcvs (p, tp)" and k: "k < length (tp_stages tp)"
  defines "st \<equiv> tp_stages tp ! k"
  shows "topo_inv logs rcvs (p, stage_iteration k tp) \<or>
    (\<exists>v out. topo_inv (logs[sg_output st := logs ! sg_output st @ [out]]) (rcvs[k := rcvs ! k @ [v]]) (p, stage_iteration k tp))"
proof (cases "sg_status st = STAGE_RUNNING \<and> \<not> tp_shutdown tp")
  case False
  show ?thesis
  proof (cases "sg_status st = STAGE_RUNNING")
    case True
    then show ?thesis using iterate_end [OF inv k] False by (simp add: st_def)
  next
    case False
    then have "stage_iteration k tp = tp" by (simp add: stage_iteration_def st_def)
    then show ?thesis using inv by simp
  qed
next
  case True
  then have run: "sg_status st = STAGE_RUNNING" "\<not> tp_shutdown tp" by auto
  have st: "st = tp_stages tp ! k" by (simp add: st_def)
  obtain res s' m' where recv: "Subscriber_try_recv (sg_sub st) (tp_rings tp ! sg_input st, []) = (res, s', m')"
    by (metis prod_cases3)
  consider (Panic) v e where "res = Inr v" "sg_f st v = Inl e" | (Out) v out where "res = Inr v" "sg_f st v = Inr out"
    | (Empty) "res = Inl Empty" | (Lagged) n where "res = Inl (Lagged n)"
    by (metis sumE try_recv_error.exhaust)
  then show ?thesis
  proof cases
    case Panic
    then show ?thesis using iterate_panic [OF inv k st run, of _ s' m'] recv by blast
  next
    case (Out v out)
    show ?thesis by (rule iterate_value [OF inv k st run, of v s' m' out]) (use recv Out in auto)
  next
    case Empty
    then show ?thesis using iterate_empty [OF inv k st run, of s' m'] recv by blast
  next
    case Lagged
    then show ?thesis using iterate_lagged [OF inv k st run, of _ s' m'] recv by blast
  qed
qed

text \<open>Every run keeps the invariant, and the input log is what was fed.\<close>

lemma stage_output_pos:
  assumes "topo_inv logs rcvs (p, tp)" "k < length (tp_stages tp)"
  shows "0 < sg_output (tp_stages tp ! k)"
  using topo_invD(5) [OF assms] by (auto simp: stage_ok_def)

lemma topo_run_inv:
  assumes "topo_inv logs rcvs y" "length (logs ! 0) + length (fed as) < 2 ^ 63 - 1"
  shows "\<exists>logs' rcvs'. topo_inv logs' rcvs' (topo_run as y) \<and> logs' ! 0 = logs ! 0 @ fed as"
  using assms
proof (induction as arbitrary: logs rcvs y)
  case (Cons a as)
  obtain p tp where y: "y = (p, tp)" by (cases y)
  note inv = Cons.prems(1) [unfolded y]
  have "\<exists>logs1 rcvs1. topo_inv logs1 rcvs1 (topo_do a y) \<and> logs1 ! 0 = logs ! 0 @ fed [a]"
  proof (cases a)
    case (Feed v)
    have "0 < length logs" using topo_invD(1,2) [OF inv] by simp
    then show ?thesis using topo_inv_feed [OF inv, of v] Cons.prems(2) y Feed
      by (intro exI [of _ "logs[0 := logs ! 0 @ [v]]"] exI [of _ rcvs]) simp
  next
    case (Iterate k)
    show ?thesis
    proof (cases "k < length (tp_stages tp)")
      case True
      then have "topo_do a y = (p, stage_iteration k tp)" using y Iterate by (simp add: topo_do_def)
      moreover have "logs[sg_output (tp_stages tp ! k) := x] ! 0 = logs ! 0" for x
        using stage_output_pos [OF inv True] by simp
      ultimately show ?thesis using stage_iteration_inv [OF inv True] Iterate by (auto simp del: nth_list_update_eq)
    next
      case False
      then have "topo_do a y = y" using y Iterate by (simp add: topo_do_def)
      then show ?thesis using Cons.prems(1) Iterate by auto
    qed
  next
    case Trigger
    then have "topo_do a y = (p, tp\<lparr>tp_shutdown := True\<rparr>)" using y by (simp add: topo_do_def Pipeline_shutdown_def)
    then show ?thesis using inv Trigger by (auto simp: topo_inv_def Let_def)
  qed
  then obtain logs1 rcvs1 where 1: "topo_inv logs1 rcvs1 (topo_do a y)" "logs1 ! 0 = logs ! 0 @ fed [a]" by blast
  have split: "fed (a # as) = fed [a] @ fed as" using fed_simps(5) [of "[a]" as] by simp
  then have "length (logs1 ! 0) + length (fed as) < 2 ^ 63 - 1" using 1(2) Cons.prems(2) by simp
  from Cons.IH [OF 1(1) this] show ?case using 1(2) split by auto
qed auto

section \<open>Built topologies satisfy the invariant\<close>

definition fresh_topo :: "publisher \<Rightarrow> 'a topo \<Rightarrow> bool" where
  "fresh_topo p tp \<longleftrightarrow> topo_inv (map (\<lambda>_. []) (tp_rings tp)) (map (\<lambda>_. []) (tp_stages tp)) (p, tp)"

definition handle_ok :: "'a topo \<Rightarrow> ring_id \<times> subscriber \<Rightarrow> bool" where
  "handle_ok tp = (\<lambda>(i, s). i < length (tp_rings tp) \<and>
     s = \<lparr>sub_index = sr_index (tp_rings tp ! i), sub_cursor = 0, sub_tracker = None, sub_total_lagged = 0,
          sub_total_received = 0\<rparr>)"

lemma channel_ring_ok:
  assumes "channel uninit c = Inr (p, r)"
  shows "ring_ok r [] \<and> publisher_log p r []"
proof -
  from assms obtain index where ix: "RingIndex_new c = Inr index" and
      r: "r = \<lparr>sr_slots = map (\<lambda>_. Slot_new uninit) [0..<unat c], sr_index = index, sr_cursor = u64_max,
               sr_backpressure = None, sr_next_seq = None\<rparr>" and p: "p = make_publisher r"
    by (auto simp: channel_def SharedRing_new_def split: sum.splits)
  show ?thesis using RingIndex_new_Inr [OF ix]
    by (auto simp: ring_ok_def ring_log_def log_fits_def publisher_log_def r p make_publisher_def Slot_new_def)
qed

lemma subscribe_fresh:
  assumes "ring_ok r []"
  shows "Subscribable_subscribe (r, []) =
    (\<lparr>sub_index = sr_index r, sub_cursor = 0, sub_tracker = None, sub_total_lagged = 0, sub_total_received = 0\<rparr>, (r, []))"
  using assms by (simp add: Subscribable_subscribe_def SharedRing_register_tracker_at_head_def ring_ok_def ring_log_def)

lemma add_stage_fresh:
  assumes fresh: "fresh_topo p tp" and h: "handle_ok tp h"
    and add: "SharedState_add_stage uninit h capacity f strategy tp = Inr (h', j, tp')"
  shows "fresh_topo p tp'" "handle_ok tp' h'" "\<And>x. handle_ok tp x \<Longrightarrow> handle_ok tp' x" "fst h' = j" "j = length (tp_rings tp)"
    "length (tp_rings tp') = Suc (length (tp_rings tp))"
    "\<exists>np. tp_stages tp' = tp_stages tp @ [spawn_stage h (j, np) f strategy]"
proof -
  from add obtain np r where ch: "channel uninit capacity = Inr (np, r)"
    by (auto simp: SharedState_add_stage_def split: sum.splits)
  note ro = channel_ring_ok [OF ch]
  let ?s = "\<lparr>sub_index = sr_index r, sub_cursor = 0, sub_tracker = None, sub_total_lagged = 0, sub_total_received = 0\<rparr>"
  let ?n = "length (tp_rings tp)"
  have j: "j = ?n" "h' = (?n, ?s)" and tp': "tp' = tp\<lparr>tp_rings := tp_rings tp @ [r],
      tp_stages := tp_stages tp @ [spawn_stage h (?n, np) f strategy]\<rparr>"
    using add ch ro subscribe_fresh [of r] by (auto simp: SharedState_add_stage_def Let_def)
  show "handle_ok tp' h'" "\<And>x. handle_ok tp x \<Longrightarrow> handle_ok tp' x" "fst h' = j" "j = length (tp_rings tp)"
    "length (tp_rings tp') = Suc (length (tp_rings tp))"
    "\<exists>np. tp_stages tp' = tp_stages tp @ [spawn_stage h (j, np) f strategy]"
    using j tp' by (auto simp: handle_ok_def nth_append)
  obtain i s where h': "h = (i, s)" by (cases h)
  note D = topo_invD [OF fresh [unfolded fresh_topo_def]]
  let ?logs = "map (\<lambda>_. []) (tp_rings tp')" and ?rcvs = "map (\<lambda>_. []) (tp_stages tp')"
  have old: "stage_ok (tp_rings tp') ?logs st []" if "st \<in> set (tp_stages tp)" for st
  proof -
    from that obtain k where k: "k < length (tp_stages tp)" "st = tp_stages tp ! k" by (auto simp: in_set_conv_nth)
    then have "stage_ok (tp_rings tp) (map (\<lambda>_. []) (tp_rings tp)) st []" using D(5) by simp
    then show ?thesis using tp' by (auto simp: stage_ok_def nth_append)
  qed
  have new: "stage_ok (tp_rings tp') ?logs (spawn_stage h (?n, np) f strategy) []"
    using h ro tp' by (auto simp: h' handle_ok_def stage_ok_def spawn_stage_def nth_append subscriber_at_def stage_status)
  have "stage_ok (tp_rings tp') ?logs (tp_stages tp' ! k) (?rcvs ! k)" if "k < length (tp_stages tp')" for k
  proof -
    have "tp_stages tp' ! k \<in> set (tp_stages tp')" using that by simp
    then have "stage_ok (tp_rings tp') ?logs (tp_stages tp' ! k) []" using old new tp' by auto
    then show ?thesis using that by simp
  qed
  moreover have "sg_output st < ?n" if "st \<in> set (tp_stages tp)" for st
    using that D(5) by (auto simp: in_set_conv_nth stage_ok_def)
  then have "distinct (map sg_output (tp_stages tp'))" using D(6) tp' by (force simp: spawn_stage_def)
  moreover have "ring_ok (tp_rings tp' ! l) (?logs ! l)" if "l < length (tp_rings tp')" for l
  proof (cases "l < ?n")
    case True
    then show ?thesis using D(4) [OF True] tp' by (simp add: nth_append)
  next
    case False
    then have "l = ?n" using that tp' by simp
    then show ?thesis using ro tp' by (simp add: nth_append)
  qed
  moreover have "publisher_log p (tp_rings tp' ! 0) (?logs ! 0)" using D(1,7) tp' by (simp add: nth_append)
  ultimately show "fresh_topo p tp'" using D(1) tp' unfolding fresh_topo_def topo_inv_def Let_def by simp
qed

text \<open>Everything the builders can construct, with the publisher of the input channel.\<close>

inductive stage_built :: "'a \<Rightarrow> publisher \<Rightarrow> 'a stage_builder \<Rightarrow> bool" for uninit p where
  built_input: "PipelineBuilder_input uninit (SharedState_new arch c pkg) b = Inr ((i, p), sb) \<Longrightarrow> stage_built uninit p sb"
| built_then: "stage_built uninit p sb \<Longrightarrow> StageBuilder_then_with uninit f strategy sb = Inr sb' \<Longrightarrow> stage_built uninit p sb'"

inductive fan_built :: "'a \<Rightarrow> publisher \<Rightarrow> 'a fan_out_builder \<Rightarrow> bool" for uninit p where
  built_fan: "stage_built uninit p sb \<Longrightarrow> StageBuilder_fan_out uninit fa fb sb = Inr fo \<Longrightarrow> fan_built uninit p fo"
| built_a: "fan_built uninit p fo \<Longrightarrow> FanOutBuilder_then_a_with uninit f strategy fo = Inr fo' \<Longrightarrow> fan_built uninit p fo'"
| built_b: "fan_built uninit p fo \<Longrightarrow> FanOutBuilder_then_b_with uninit f strategy fo = Inr fo' \<Longrightarrow> fan_built uninit p fo'"

definition topology_built :: "'a \<Rightarrow> publisher \<Rightarrow> 'a topo \<Rightarrow> bool" where
  "topology_built uninit p tp \<longleftrightarrow>
     (\<exists>sb. stage_built uninit p sb \<and> tp = snd (StageBuilder_build sb)) \<or>
     (\<exists>fo. fan_built uninit p fo \<and> tp = snd (FanOutBuilder_build fo))"

lemma input_fresh:
  assumes "PipelineBuilder_input uninit (SharedState_new arch c pkg) b = Inr ((i, p), sb)"
  shows "fresh_topo p (sb_state sb)" "handle_ok (sb_state sb) (sb_subscriber sb)" "fst (sb_subscriber sb) = sb_subscribable sb"
    "tp_stages (sb_state sb) = []" "length (tp_rings (sb_state sb)) = 1" "\<not> tp_shutdown (sb_state sb)"
proof -
  from assms obtain r where ch: "channel uninit (plb_capacity b) = Inr (p, r)" and
      sb: "sb = \<lparr>sb_subscriber = (0, fst (Subscribable_subscribe (r, []))), sb_subscribable = 0, sb_capacity = plb_capacity b,
        sb_state = (SharedState_new arch c pkg)\<lparr>tp_rings := [fst (snd (Subscribable_subscribe (r, [])))]\<rparr>\<rparr>"
    by (auto simp: PipelineBuilder_input_def SharedState_new_def Let_def split_beta split: sum.splits)
  note ro = channel_ring_ok [OF ch]
  show "fresh_topo p (sb_state sb)" "handle_ok (sb_state sb) (sb_subscriber sb)" "fst (sb_subscriber sb) = sb_subscribable sb"
    "tp_stages (sb_state sb) = []" "length (tp_rings (sb_state sb)) = 1" "\<not> tp_shutdown (sb_state sb)"
    using ro subscribe_fresh [of r]
    by (auto simp: sb fresh_topo_def topo_inv_def SharedState_new_def handle_ok_def Let_def)
qed

lemma then_with_Inr:
  assumes "StageBuilder_then_with uninit f strategy sb = Inr sb'"
  obtains h' j tp' where "SharedState_add_stage uninit (sb_subscriber sb) (sb_capacity sb) f strategy (sb_state sb) = Inr (h', j, tp')"
    "sb' = \<lparr>sb_subscriber = h', sb_subscribable = j, sb_capacity = sb_capacity sb, sb_state = tp'\<rparr>"
  using assms by (auto simp: StageBuilder_then_with_def split: sum.splits)

lemma stage_built_fresh:
  assumes "stage_built uninit p sb"
  shows "fresh_topo p (sb_state sb) \<and> handle_ok (sb_state sb) (sb_subscriber sb) \<and> fst (sb_subscriber sb) = sb_subscribable sb"
  using assms
proof (induction rule: stage_built.induct)
  case (built_input arch c pkg b i sb)
  then show ?case using input_fresh [OF built_input.hyps] by simp
next
  case (built_then sb f strategy sb')
  from built_then.hyps(2) obtain h' j tp' where
      add: "SharedState_add_stage uninit (sb_subscriber sb) (sb_capacity sb) f strategy (sb_state sb) = Inr (h', j, tp')" and
      sb': "sb' = \<lparr>sb_subscriber = h', sb_subscribable = j, sb_capacity = sb_capacity sb, sb_state = tp'\<rparr>"
    by (rule then_with_Inr)
  have "fresh_topo p (sb_state sb)" "handle_ok (sb_state sb) (sb_subscriber sb)" using built_then.IH by auto
  from add_stage_fresh(1,2,4) [OF this add] show ?case by (simp add: sb')
qed

lemma fan_built_fresh:
  assumes "fan_built uninit p fo"
  shows "fresh_topo p (fo_state fo) \<and> handle_ok (fo_state fo) (fo_sub_a fo) \<and> handle_ok (fo_state fo) (fo_sub_b fo)"
  using assms
proof (induction rule: fan_built.induct)
  case (built_fan sb fa fb fo)
  note f = stage_built_fresh [OF built_fan.hyps(1)]
  let ?i = "sb_subscribable sb" and ?tp = "sb_state sb"
  have i: "?i < length (tp_rings ?tp)" using f by (cases "sb_subscriber sb") (auto simp: handle_ok_def)
  have "ring_ok (tp_rings ?tp ! ?i) []" using f i topo_invD(4) unfolding fresh_topo_def by fastforce
  note sub = subscribe_fresh [OF this]
  let ?sb = "\<lparr>sub_index = sr_index (tp_rings ?tp ! ?i), sub_cursor = 0, sub_tracker = None, sub_total_lagged = 0,
      sub_total_received = 0\<rparr>"
  have same: "?tp\<lparr>tp_rings := (tp_rings ?tp)[?i := tp_rings ?tp ! ?i]\<rparr> = ?tp" by simp
  from built_fan.hyps(2) obtain ha ja ta hb jb tb where
      a: "SharedState_add_stage uninit (sb_subscriber sb) (sb_capacity sb) fa WaitStrategy_default ?tp = Inr (ha, ja, ta)" and
      b: "SharedState_add_stage uninit (?i, ?sb) (sb_capacity sb) fb WaitStrategy_default ta = Inr (hb, jb, tb)" and
      fo: "fo = \<lparr>fo_sub_a = ha, fo_subs_a = ja, fo_sub_b = hb, fo_subs_b = jb, fo_capacity = sb_capacity sb, fo_state = tb\<rparr>"
    unfolding StageBuilder_fan_out_def by (auto simp: sub same Let_def split: sum.splits)
  have hi: "handle_ok ?tp (?i, ?sb)" using i by (simp add: handle_ok_def)
  have fs: "fresh_topo p ?tp" "handle_ok ?tp (sb_subscriber sb)" using f by auto
  note A = add_stage_fresh [OF fs a]
  note B = add_stage_fresh [OF A(1) A(3) [OF hi] b]
  show ?case using B(1,2) B(3) [OF A(2)] by (simp add: fo)
next
  case (built_a fo f strategy fo')
  from built_a.hyps(2) obtain h' j tp' where
      "SharedState_add_stage uninit (fo_sub_a fo) (fo_capacity fo) f strategy (fo_state fo) = Inr (h', j, tp')"
      "fo' = fo\<lparr>fo_sub_a := h', fo_subs_a := j, fo_state := tp'\<rparr>"
    by (auto simp: FanOutBuilder_then_a_with_def split: sum.splits)
  then show ?case using built_a.IH add_stage_fresh(1-3) [of p "fo_state fo" "fo_sub_a fo"] by simp
next
  case (built_b fo f strategy fo')
  from built_b.hyps(2) obtain h' j tp' where
      "SharedState_add_stage uninit (fo_sub_b fo) (fo_capacity fo) f strategy (fo_state fo) = Inr (h', j, tp')"
      "fo' = fo\<lparr>fo_sub_b := h', fo_subs_b := j, fo_state := tp'\<rparr>"
    by (auto simp: FanOutBuilder_then_b_with_def split: sum.splits)
  then show ?case using built_b.IH add_stage_fresh(1-3) [of p "fo_state fo" "fo_sub_b fo"] by simp
qed

text \<open>The wiring of a fan-out: two new stages, the first with the first closure on the builder's own subscriber, the
  second with the second closure on a further subscriber of the same output, and each branch continues from the
  ring its stage writes.\<close>

lemma add_stage_wiring:
  assumes "SharedState_add_stage uninit h capacity f strategy tp = Inr (h', j, tp')"
  shows "\<exists>st. tp_stages tp' = tp_stages tp @ [st] \<and> sg_f st = f \<and> (sg_input st, sg_sub st) = h
    \<and> sg_output st = length (tp_rings tp) \<and> fst h' = sg_output st \<and> j = sg_output st"
  using assms by (auto simp: SharedState_add_stage_def spawn_stage_def Let_def split: sum.splits prod.splits)

lemma fan_out_wiring:
  assumes "StageBuilder_fan_out uninit fa fb sb = Inr fo"
  shows "\<exists>a b. tp_stages (fo_state fo) = tp_stages (sb_state sb) @ [a, b] \<and> sg_f a = fa \<and> sg_f b = fb
    \<and> (sg_input a, sg_sub a) = sb_subscriber sb \<and> sg_input b = sb_subscribable sb
    \<and> fst (fo_sub_a fo) = sg_output a \<and> fst (fo_sub_b fo) = sg_output b"
  using assms unfolding StageBuilder_fan_out_def
  by (auto simp: Let_def split: sum.splits prod.splits dest!: add_stage_wiring)

lemma topology_built_fresh: "topology_built uninit p tp \<Longrightarrow> fresh_topo p tp"
  by (auto simp: topology_built_def StageBuilder_build_def FanOutBuilder_build_def
      dest: stage_built_fresh fan_built_fresh)

lemma topology_run_inv:
  assumes "topology_built uninit p tp" "length (fed as) < 2 ^ 63 - 1"
  obtains logs rcvs where "topo_inv logs rcvs (topo_run as (p, tp))" "logs ! 0 = fed as"
proof -
  have inv: "topo_inv (map (\<lambda>_. []) (tp_rings tp)) (map (\<lambda>_. []) (tp_stages tp)) (p, tp)"
    using topology_built_fresh [OF assms(1)] by (simp add: fresh_topo_def)
  then have "map (\<lambda>_. []) (tp_rings tp) ! 0 = ([] :: 'a list)" using topo_invD(1) by force
  then show thesis using topo_run_inv [OF inv, of as] assms(2) that by auto
qed

section \<open>What a run leaves unchanged\<close>

definition shape :: "'a topo \<Rightarrow> (ring_id \<times> ring_id \<times> ('a \<Rightarrow> 'a may_panic)) list" where
  "shape tp = map (\<lambda>st. (sg_input st, sg_output st, sg_f st)) (tp_stages tp)"

lemma stage_iteration_cases:
  obtains (Same) "stage_iteration k tp = tp"
  | (Put) st' where "tp_stages (stage_iteration k tp) = (tp_stages tp)[k := st']"
      "sg_input st' = sg_input (tp_stages tp ! k)" "sg_output st' = sg_output (tp_stages tp ! k)"
      "sg_f st' = sg_f (tp_stages tp ! k)" "tp_shutdown (stage_iteration k tp) = tp_shutdown tp"
      "sg_status (tp_stages tp ! k) = STAGE_RUNNING"
      "tp_shutdown tp \<Longrightarrow> sg_status st' = STAGE_COMPLETED"
      "\<not> tp_shutdown tp \<Longrightarrow> sg_status st' \<in> {STAGE_RUNNING, STAGE_PANICKED}"
      "length (tp_rings (stage_iteration k tp)) = length (tp_rings tp)"
proof -
  let ?st = "tp_stages tp ! k"
  obtain res s' m' where recv: "Subscriber_try_recv (sg_sub ?st) (tp_rings tp ! sg_input ?st, []) = (res, s', m')"
    by (metis prod_cases3)
  obtain hs pkg where w: "WaitStrategy_wait (tp_arch tp) (tp_cpu tp) (tp_waitpkg tp) (sg_strategy ?st) (sg_iter ?st) = (hs, pkg)"
    by fastforce
  consider (Ended) "sg_status ?st \<noteq> STAGE_RUNNING" | (Stop) "sg_status ?st = STAGE_RUNNING" "tp_shutdown tp"
    | (Loop) "sg_status ?st = STAGE_RUNNING" "\<not> tp_shutdown tp" by blast
  then show thesis
  proof cases
    case Ended
    then show thesis using Same by (simp add: stage_iteration_def)
  next
    case Stop
    then show thesis by (intro Put [of "?st\<lparr>sg_status := STAGE_COMPLETED\<rparr>"])
        (simp_all add: stage_iteration_def Shutdown_is_shutdown_def)
  next
    case Loop
    note it = stage_iteration_def [of k tp] and simps = Let_def Shutdown_is_shutdown_def recv
    consider (Panic) v e where "res = Inr v" "sg_f ?st v = Inl e" | (Out) v out where "res = Inr v" "sg_f ?st v = Inr out"
      | (Empty) "res = Inl Empty" | (Lagged) n where "res = Inl (Lagged n)"
      by (metis sumE try_recv_error.exhaust)
    then show thesis
    proof cases
      case Panic
      then show thesis using Loop by (intro Put [of "?st\<lparr>sg_sub := s', sg_status := STAGE_PANICKED\<rparr>"])
          (simp_all add: it simps)
    next
      case (Out v out)
      show thesis
      proof (cases "Publisher_publish [] (sg_pub ?st) (tp_rings tp ! sg_output ?st, []) out")
        case None
        then show thesis using Loop Out Same by (simp add: it simps)
      next
        case (Some q)
        then obtain p' r' h' es' where "q = (p', (r', h'), es')" by (metis prod.exhaust)
        then show thesis using Loop Out Some by (intro Put [of "?st\<lparr>sg_sub := s', sg_pub := p', sg_iter := 0\<rparr>"])
            (simp_all add: it simps)
      qed
    next
      case Empty
      then show thesis using Loop w
        by (intro Put [of "?st\<lparr>sg_sub := s', sg_iter := u32_saturating_add (sg_iter ?st) 1, sg_hints := sg_hints ?st @ hs\<rparr>"])
          (simp_all add: it simps)
    next
      case Lagged
      then show thesis using Loop by (intro Put [of "?st\<lparr>sg_sub := s', sg_iter := 0\<rparr>"]) (simp_all add: it simps)
    qed
  qed
qed

lemma shape_iteration: "shape (stage_iteration k tp) = shape tp"
proof (cases rule: stage_iteration_cases [of k tp])
  case (Put st')
  then show ?thesis unfolding shape_def by (simp add: map_update_same)
qed simp

lemma shape_run: "shape (snd (topo_run as y)) = shape (snd y)"
proof (induction as arbitrary: y)
  case (Cons a as)
  have "shape (snd (topo_do a y)) = shape (snd y)"
    by (cases a; cases y) (auto simp: topo_do_def shape_iteration [unfolded shape_def] Pipeline_shutdown_def shape_def split: option.splits)
  then show ?case using Cons by simp
qed simp

lemma rings_run: "length (tp_rings (snd (topo_run as y))) = length (tp_rings (snd y))"
proof (induction as arbitrary: y)
  case (Cons a as)
  have "length (tp_rings (stage_iteration k tp)) = length (tp_rings tp)" for k and tp :: "'a topo"
    by (cases rule: stage_iteration_cases [of k tp]) simp_all
  then have "length (tp_rings (snd (topo_do a y))) = length (tp_rings (snd y))"
    by (cases a; cases y) (auto simp: topo_do_def Pipeline_shutdown_def split: option.splits)
  then show ?case using Cons by simp
qed simp

lemma shape_nth:
  assumes "shape tp = shape tp'" "k < length (tp_stages tp')"
  shows "length (tp_stages tp) = length (tp_stages tp')" "sg_input (tp_stages tp ! k) = sg_input (tp_stages tp' ! k)"
    "sg_output (tp_stages tp ! k) = sg_output (tp_stages tp' ! k)" "sg_f (tp_stages tp ! k) = sg_f (tp_stages tp' ! k)"
proof -
  show len: "length (tp_stages tp) = length (tp_stages tp')" using assms(1) unfolding shape_def by (rule map_eq_imp_length_eq)
  have "shape tp ! k = shape tp' ! k" using assms(1) by simp
  then show "sg_input (tp_stages tp ! k) = sg_input (tp_stages tp' ! k)"
    "sg_output (tp_stages tp ! k) = sg_output (tp_stages tp' ! k)" "sg_f (tp_stages tp ! k) = sg_f (tp_stages tp' ! k)"
    using assms(2) len by (simp_all add: shape_def)
qed

end
