(* ===== verification/Topology_Props.thy ===== *)
theory Topology_Props
  imports Topology_Run
begin

text \<open>
  What a topology computes: the output of a linear pipeline in terms of its input, that it delivers
  everything when it is given the time, and how shutdown and panics are reported.
\<close>

section \<open>Linear pipelines\<close>

fun then_all :: "'a \<Rightarrow> (('a \<Rightarrow> 'a may_panic) \<times> wait_strategy) list \<Rightarrow> 'a stage_builder \<Rightarrow> 'a stage_builder may_panic" where
  "then_all uninit [] sb = Inr sb"
| "then_all uninit ((f, strategy) # fs) sb =
     (case StageBuilder_then_with uninit f strategy sb of Inl e \<Rightarrow> Inl e | Inr sb' \<Rightarrow> then_all uninit fs sb')"

text \<open>The closures of a pipeline one after the other.\<close>

fun apply_all :: "('a \<Rightarrow> 'a may_panic) list \<Rightarrow> 'a \<Rightarrow> 'a may_panic" where
  "apply_all [] v = Inr v"
| "apply_all (f # fs) v = (case f v of Inl e \<Rightarrow> Inl e | Inr v' \<Rightarrow> apply_all fs v')"

lemma apply_all_snoc:
  "apply_all (fs @ [f]) v = (case apply_all fs v of Inl e \<Rightarrow> Inl e | Inr v' \<Rightarrow> f v')"
  by (induction fs arbitrary: v) (auto split: sum.splits)

definition linear_shape :: "('a \<Rightarrow> 'a may_panic) list \<Rightarrow> 'a topo \<Rightarrow> bool" where
  "linear_shape fs tp \<longleftrightarrow> shape tp = map (\<lambda>k. (k, Suc k, fs ! k)) [0..<length fs]"

lemma linear_then:
  assumes lin: "linear_shape fs (sb_state sb)" and built: "stage_built uninit p sb"
    and n: "length (tp_rings (sb_state sb)) = Suc (length fs)" "fst (sb_subscriber sb) = length fs"
    and add: "StageBuilder_then_with uninit f strategy sb = Inr sb'"
  shows "linear_shape (fs @ [f]) (sb_state sb')" "length (tp_rings (sb_state sb')) = Suc (Suc (length fs))"
    "fst (sb_subscriber sb') = Suc (length fs)"
proof -
  from add obtain h' j tp' where a: "SharedState_add_stage uninit (sb_subscriber sb) (sb_capacity sb) f strategy (sb_state sb) = Inr (h', j, tp')"
    and sb': "sb' = \<lparr>sb_subscriber = h', sb_subscribable = j, sb_capacity = sb_capacity sb, sb_state = tp'\<rparr>"
    by (rule then_with_Inr)
  have "fresh_topo p (sb_state sb)" "handle_ok (sb_state sb) (sb_subscriber sb)" using stage_built_fresh [OF built] by auto
  note F = add_stage_fresh [OF this a]
  have "shape tp' = shape (sb_state sb) @ [(length fs, Suc (length fs), f)]"
    using F(5,7) n by (auto simp: shape_def spawn_stage_def)
  moreover have "map (\<lambda>k. (k, Suc k, (fs @ [f]) ! k)) [0..<length (fs @ [f])] =
      map (\<lambda>k. (k, Suc k, fs ! k)) [0..<length fs] @ [(length fs, Suc (length fs), f)]"
    by (auto simp: nth_append)
  ultimately show "linear_shape (fs @ [f]) (sb_state sb')" using lin by (simp add: linear_shape_def sb')
  show "length (tp_rings (sb_state sb')) = Suc (Suc (length fs))" "fst (sb_subscriber sb') = Suc (length fs)"
    using F(4,5,6) n by (simp_all add: sb')
qed

lemma linear_then_all:
  assumes "then_all uninit fs sb = Inr sb'" "linear_shape gs (sb_state sb)" "stage_built uninit p sb"
    "length (tp_rings (sb_state sb)) = Suc (length gs)" "fst (sb_subscriber sb) = length gs"
  shows "linear_shape (gs @ map fst fs) (sb_state sb') \<and> stage_built uninit p sb' \<and>
    length (tp_rings (sb_state sb')) = Suc (length gs + length fs) \<and> fst (sb_subscriber sb') = length gs + length fs"
  using assms
proof (induction fs arbitrary: sb gs)
  case (Cons x fs)
  obtain f strategy where x: "x = (f, strategy)" by (cases x)
  from Cons.prems(1) x obtain sb1 where 1: "StageBuilder_then_with uninit f strategy sb = Inr sb1" "then_all uninit fs sb1 = Inr sb'"
    by (auto split: sum.splits)
  note L = linear_then [OF Cons.prems(2,3,4,5) 1(1)]
  have "stage_built uninit p sb1" using Cons.prems(3) 1(1) by (rule built_then)
  from Cons.IH [OF 1(2) L(1) this] L(2,3) show ?case by (simp add: x)
qed simp

lemma subseq_map_inv:
  assumes "subseq ys (map h xs)"
  obtains xs' where "subseq xs' xs" "ys = map h xs'"
proof -
  from assms obtain N where "ys = nths (map h xs) N" by (auto simp: subseq_conv_nths)
  then show thesis using that [of "nths xs N"] by (auto simp: nths_map subseq_conv_nths)
qed

text \<open>A stage has caught up when it is not lagging, has nothing pending and has not panicked.\<close>

definition caught_up :: "'a topo \<Rightarrow> 'a stage \<Rightarrow> bool" where
  "caught_up tp st \<longleftrightarrow> Subscriber_pending (sg_sub st) (tp_rings tp ! sg_input st) = 0 \<and>
     sub_total_lagged (sg_sub st) = 0 \<and> sg_status st \<noteq> STAGE_PANICKED"

lemma caught_up_all:
  assumes "ring_ok (tp_rings tp ! sg_input st) (logs ! sg_input st)" "stage_ok (tp_rings tp) logs st rcv" "caught_up tp st"
  shows "rcv = logs ! sg_input st"
proof -
  let ?log = "logs ! sg_input st" and ?r = "tp_rings tp ! sg_input st"
  have "at_log (cap ?r) ?log (sg_sub st, (?r, []))" using assms(1,2) by (auto simp: at_log_def ring_ok_def stage_ok_def)
  note pend = pending_spec [OF this]
  have le: "unat (sub_cursor (sg_sub st)) \<le> length ?log" using assms(2) by (simp add: stage_ok_def subscriber_at_def)
  have "2 \<le> cap ?r" using assms(1) ring_log_cap by (auto simp: ring_ok_def)
  then have "unat (sub_cursor (sg_sub st)) = length ?log" using pend assms(3) le by (auto simp: caught_up_def sub_pos_def)
  moreover have "subseq rcv (take (unat (sub_cursor (sg_sub st))) ?log)" using assms(2) by (simp add: stage_ok_def)
  moreover have "length rcv = unat (sub_cursor (sg_sub st))" using assms(2,3) by (simp add: stage_ok_def caught_up_def)
  ultimately show ?thesis by (simp add: subseq_same_length)
qed

lemma linear_logs:
  assumes inv: "topo_inv logs rcvs (p, tp)" and lin: "linear_shape fs tp" and k: "k \<le> length fs"
  shows "\<exists>xs. subseq xs (logs ! 0) \<and> map (apply_all (take k fs)) xs = map Inr (logs ! k) \<and>
    ((\<forall>st \<in> set (tp_stages tp). caught_up tp st) \<longrightarrow> xs = logs ! 0)"
  using k
proof (induction k)
  case 0
  show ?case by (intro exI [of _ "logs ! 0"]) simp
next
  case (Suc k)
  then obtain xs where xs: "subseq xs (logs ! 0)" "map (apply_all (take k fs)) xs = map Inr (logs ! k)"
      "(\<forall>st \<in> set (tp_stages tp). caught_up tp st) \<longrightarrow> xs = logs ! 0" by auto
  note D = topo_invD [OF inv]
  let ?h = "projr \<circ> apply_all (take k fs)"
  have len: "length (tp_stages tp) = length fs" 
    using arg_cong [OF lin [unfolded linear_shape_def], of length] by (simp add: shape_def)
  let ?st = "tp_stages tp ! k"
  have "shape tp ! k = (k, Suc k, fs ! k)" using lin Suc.prems by (simp add: linear_shape_def)
  then have st: "sg_input ?st = k" "sg_output ?st = Suc k" "sg_f ?st = fs ! k" using len Suc.prems by (auto simp: shape_def)
  have ok: "stage_ok (tp_rings tp) logs ?st (rcvs ! k)" using D(5) len Suc.prems by simp
  have hk: "logs ! k = map ?h xs" using arg_cong [OF xs(2), of "map projr"] by (simp add: comp_def)
  have hx: "apply_all (take k fs) x = Inr (?h x)" if "x \<in> set xs" for x
  proof -
    have "apply_all (take k fs) x \<in> set (map (apply_all (take k fs)) xs)" using that by simp
    then show ?thesis unfolding xs(2) by auto
  qed
  have "subseq (rcvs ! k) (take (unat (sub_cursor (sg_sub ?st))) (logs ! k))" using ok st by (simp add: stage_ok_def)
  then have sub: "subseq (rcvs ! k) (map ?h xs)" 
    using hk prefix_imp_subseq [OF take_is_prefix] subseq_order.trans by metis
  have img: "map (fs ! k) (rcvs ! k) = map Inr (logs ! Suc k)" using ok st by (simp add: stage_ok_def)
  have ext: "map (apply_all (take (Suc k) fs)) ys = map Inr (logs ! Suc k)" if "subseq ys xs" "rcvs ! k = map ?h ys" for ys
  proof -
    have "take (Suc k) fs = take k fs @ [fs ! k]" using Suc.prems by (simp add: take_Suc_conv_app_nth)
    moreover have "\<exists>z. apply_all (take k fs) y = Inr z" if "y \<in> set ys" for y
      using hx that \<open>subseq ys xs\<close> by (blast dest: list_emb_set)
    ultimately have "apply_all (take (Suc k) fs) y = (fs ! k) (?h y)" if "y \<in> set ys" for y
      using that by (fastforce simp: apply_all_snoc)
    then have "map (apply_all (take (Suc k) fs)) ys = map (fs ! k) (map ?h ys)" by simp
    also have "\<dots> = map Inr (logs ! Suc k)" using that(2) img by metis
    finally show ?thesis .
  qed
  show ?case
  proof (cases "\<forall>st \<in> set (tp_stages tp). caught_up tp st")
    case True
    have "caught_up tp ?st" using True len Suc.prems by simp
    moreover have "k < length (tp_rings tp)" using ok st by (auto simp: stage_ok_def)
    then have "ring_ok (tp_rings tp ! k) (logs ! k)" by (rule D(4))
    ultimately have "rcvs ! k = map ?h xs" using caught_up_all [OF _ ok] st(1) hk by simp
    then show ?thesis using xs(1,3) True ext [of xs] by auto
  next
    case False
    from sub obtain ys where "subseq ys xs" "rcvs ! k = map ?h ys" by (rule subseq_map_inv)
    then show ?thesis using False ext xs(1) subseq_order.trans by blast
  qed
qed

section \<open>Delivery\<close>

text \<open>A stage that is running, without lag, and within a lap of its input consumes one message per iteration.\<close>

definition on_track :: "nat \<Rightarrow> 'a stage \<Rightarrow> bool" where
  "on_track c st \<longleftrightarrow> sg_status st = STAGE_RUNNING \<and> sub_total_lagged (sg_sub st) = 0 \<and> unat (sub_cursor (sg_sub st)) = c"

lemma iterate_on_track:
  assumes inv: "topo_inv logs rcvs (p, tp)" and k: "k < length (tp_stages tp)" and st: "st = tp_stages tp ! k"
    and run: "on_track c st" "\<not> tp_shutdown tp" and total: "\<And>v. \<exists>w. sg_f st v = Inr w"
    and c: "c < length (logs ! sg_input st)" "length (logs ! sg_input st) \<le> cap (tp_rings tp ! sg_input st)"
  shows "\<exists>logs' rcvs' tp' st'. stage_iteration k tp = tp' \<and> topo_inv logs' rcvs' (p, tp') \<and>
    (\<forall>j. j \<noteq> sg_output st \<longrightarrow> logs' ! j = logs ! j) \<and> tp_stages tp' = (tp_stages tp)[k := st'] \<and> on_track (Suc c) st' \<and>
    \<not> tp_shutdown tp' \<and> map sr_index (tp_rings tp') = map sr_index (tp_rings tp)"
proof -
  note D = topo_invD [OF inv]
  have ok: "stage_ok (tp_rings tp) logs st (rcvs ! k)" using D(5) [OF k] by (simp add: st)
  then have ri: "ring_ok (tp_rings tp ! sg_input st) (logs ! sg_input st)" using D(4) by (simp add: stage_ok_def)
  have sub: "subscriber_at (sg_sub st) (tp_rings tp ! sg_input st) (logs ! sg_input st)" "sub_tracker (sg_sub st) = None"
    using ok by (auto simp: stage_ok_def)
  have g: "ring_log (tp_rings tp ! sg_input st) (logs ! sg_input st)" "log_fits (logs ! sg_input st)" using ri by (auto simp: ring_ok_def)
  obtain v s' m' where recv: "Subscriber_try_recv (sg_sub st) (tp_rings tp ! sg_input st, []) = (Inr v, s', m')"
    using try_recv_ok [OF g(1) sub(1) g(2)] c run(1) by (simp add: on_track_def)
  obtain out where out: "sg_f st v = Inr out" using total by blast
  have running: "sg_status st = STAGE_RUNNING" using run(1) by (simp add: on_track_def)
  from inv k st running run(2) recv out obtain p' r' where it: "stage_iteration k tp = tp\<lparr>tp_rings := (tp_rings tp)[sg_output st := r'],
        tp_stages := (tp_stages tp)[k := st\<lparr>sg_sub := s', sg_pub := p', sg_iter := 0\<rparr>]\<rparr>"
    and r': "sr_index r' = sr_index (tp_rings tp ! sg_output st)"
    and inv': "topo_inv (logs[sg_output st := logs ! sg_output st @ [out]]) (rcvs[k := rcvs ! k @ [v]]) (p, stage_iteration k tp)"
    by (rule iterate_value)
  have "on_track (Suc c) (st\<lparr>sg_sub := s', sg_pub := p', sg_iter := 0\<rparr>)"
    using stage_recv(4) [OF ri sub recv refl] run(1) by (simp add: on_track_def)
  moreover have "map sr_index (tp_rings (stage_iteration k tp)) = map sr_index (tp_rings tp)"
    using r' by (simp add: it map_update_same)
  ultimately show ?thesis using inv' it run(2)
    by (intro exI [of _ "logs[sg_output st := logs ! sg_output st @ [out]]"] exI [of _ "rcvs[k := rcvs ! k @ [v]]"]
        exI [of _ "stage_iteration k tp"] exI [of _ "st\<lparr>sg_sub := s', sg_pub := p', sg_iter := 0\<rparr>"]) simp
qed

lemma iterate_idle:
  assumes inv: "topo_inv logs rcvs (p, tp)" and k: "k < length (tp_stages tp)" and st: "st = tp_stages tp ! k"
    and run: "on_track c st" "\<not> tp_shutdown tp" and c: "c = length (logs ! sg_input st)"
  shows "\<exists>st'. topo_inv logs rcvs (p, stage_iteration k tp) \<and> tp_stages (stage_iteration k tp) = (tp_stages tp)[k := st'] \<and>
    on_track c st' \<and> \<not> tp_shutdown (stage_iteration k tp) \<and> tp_rings (stage_iteration k tp) = tp_rings tp"
proof -
  have ok: "stage_ok (tp_rings tp) logs st (rcvs ! k)" using topo_invD(5) [OF inv k] by (simp add: st)
  then have g: "ring_log (tp_rings tp ! sg_input st) (logs ! sg_input st)" "log_fits (logs ! sg_input st)"
      "subscriber_at (sg_sub st) (tp_rings tp ! sg_input st) (logs ! sg_input st)"
    using topo_invD(4) [OF inv] by (auto simp: stage_ok_def ring_ok_def)
  have running: "sg_status st = STAGE_RUNNING" "unat (sub_cursor (sg_sub st)) = c" using run(1) by (auto simp: on_track_def)
  have recv: "Subscriber_try_recv (sg_sub st) (tp_rings tp ! sg_input st, []) = (Inl Empty, sg_sub st, (tp_rings tp ! sg_input st, []))"
    using try_recv_empty [OF g(1,3,2)] running(2) c by simp
  obtain hs pkg where w: "WaitStrategy_wait (tp_arch tp) (tp_cpu tp) (tp_waitpkg tp) (sg_strategy st) (sg_iter st) = (hs, pkg)"
    by fastforce
  let ?st = "st\<lparr>sg_iter := u32_saturating_add (sg_iter st) 1, sg_hints := sg_hints st @ hs\<rparr>"
  have "stage_iteration k tp = tp\<lparr>tp_waitpkg := pkg, tp_stages := (tp_stages tp)[k := ?st]\<rparr>"
    using running(1) run(2) recv w by (simp add: stage_iteration_def Shutdown_is_shutdown_def st [symmetric] Let_def)
  then show ?thesis using iterate_empty [OF inv k st running(1) run(2) recv] run by (intro exI [of _ ?st]) (simp add: on_track_def)
qed

section \<open>A pipeline under way\<close>

text \<open>Feed everything, then let the stages iterate one after the other.\<close>

definition feed_and_sweep :: "'a list \<Rightarrow> nat \<Rightarrow> 'a topo_act list" where
  "feed_and_sweep vs m = map Feed vs @ concat (map (\<lambda>k. replicate (length vs) (Iterate k)) [0..<m])"

lemma same_capacities:
  assumes "map sr_index rs = map sr_index rs'" "\<forall>r \<in> set rs'. cap r = n"
  shows "\<forall>r \<in> set rs. cap r = n"
proof
  fix r assume "r \<in> set rs"
  then have "sr_index r \<in> set (map sr_index rs')" unfolding assms(1) [symmetric] by simp
  then show "cap r = n" using assms(2) by auto
qed

text \<open>A linear pipeline whose stages are all running and have lost nothing.\<close>

definition flowing :: "('a \<Rightarrow> 'a may_panic) list \<Rightarrow> nat \<Rightarrow> 'a topo \<Rightarrow> bool" where
  "flowing fs n tp \<longleftrightarrow> linear_shape fs tp \<and> \<not> tp_shutdown tp \<and>
     (\<forall>st \<in> set (tp_stages tp). on_track (unat (sub_cursor (sg_sub st))) st) \<and> (\<forall>r \<in> set (tp_rings tp). cap r = n)"

lemma flowing_count:
  assumes "flowing fs n tp"
  shows "length (tp_stages tp) = length fs"
proof -
  have "linear_shape fs tp" using assms by (simp add: flowing_def)
  from arg_cong [OF this [unfolded linear_shape_def], of length] show ?thesis by (simp add: shape_def)
qed

lemma flowing_stage:
  assumes "flowing fs n tp" "k < length fs"
  shows "k < length (tp_stages tp)" "sg_input (tp_stages tp ! k) = k" "sg_output (tp_stages tp ! k) = Suc k"
    "sg_f (tp_stages tp ! k) = fs ! k" "on_track (unat (sub_cursor (sg_sub (tp_stages tp ! k)))) (tp_stages tp ! k)"
proof -
  have lin: "linear_shape fs tp" using assms(1) by (simp add: flowing_def)
  show k: "k < length (tp_stages tp)" using flowing_count [OF assms(1)] assms(2) by simp
  have "shape tp ! k = (k, Suc k, fs ! k)" using lin assms(2) by (simp add: linear_shape_def)
  then show "sg_input (tp_stages tp ! k) = k" "sg_output (tp_stages tp ! k) = Suc k" "sg_f (tp_stages tp ! k) = fs ! k"
    using k by (auto simp: shape_def)
  show "on_track (unat (sub_cursor (sg_sub (tp_stages tp ! k)))) (tp_stages tp ! k)" using assms(1) k by (simp add: flowing_def)
qed

text \<open>A stage of such a pipeline has published one message for each it has received.\<close>

lemma flowing_position:
  assumes inv: "topo_inv logs rcvs (p, tp)" and fl: "flowing fs n tp" and k: "k < length fs"
  shows "unat (sub_cursor (sg_sub (tp_stages tp ! k))) = length (logs ! Suc k)" "length (logs ! Suc k) \<le> length (logs ! k)"
proof -
  note st = flowing_stage [OF fl k]
  have ok: "stage_ok (tp_rings tp) logs (tp_stages tp ! k) (rcvs ! k)" using topo_invD(5) [OF inv st(1)] .
  have "length (rcvs ! k) = length (logs ! Suc k)" using ok st(3) by (metis length_map stage_ok_def)
  then show c: "unat (sub_cursor (sg_sub (tp_stages tp ! k))) = length (logs ! Suc k)"
    using ok st(5) by (simp add: stage_ok_def on_track_def stage_status)
  show "length (logs ! Suc k) \<le> length (logs ! k)" using ok st(2) by (simp add: stage_ok_def subscriber_at_def c)
qed

lemma flowing_short:
  assumes "topo_inv logs rcvs (p, tp)" "flowing fs n tp" "j \<le> length fs"
  shows "length (logs ! j) \<le> length (logs ! 0)"
  using assms(3)
proof (induction j)
  case (Suc j)
  then show ?case using flowing_position(2) [OF assms(1,2), of j] by simp
qed simp

lemma flowing_put:
  assumes "flowing fs n tp" "shape tp' = shape tp" "tp_stages tp' = (tp_stages tp)[k := st']" "on_track c st'"
    "\<not> tp_shutdown tp'" "map sr_index (tp_rings tp') = map sr_index (tp_rings tp)"
  shows "flowing fs n tp'"
proof -
  have "\<forall>r \<in> set (tp_rings tp'). cap r = n" using same_capacities [OF assms(6)] assms(1) by (simp add: flowing_def)
  moreover have "\<forall>st \<in> set (tp_stages tp'). on_track (unat (sub_cursor (sg_sub st))) st"
    using assms(1,4) set_update_subset_insert [of "tp_stages tp" k st'] unfolding assms(3) flowing_def
    by (auto simp: on_track_def)
  ultimately show ?thesis using assms(1,2,5) by (simp add: flowing_def linear_shape_def)
qed

lemma flowing_iterate:
  assumes inv: "topo_inv logs rcvs (p, tp)" and fl: "flowing fs n tp" and k: "k < length fs"
    and total: "\<forall>f \<in> set fs. \<forall>v. \<exists>w. f v = Inr w" and fits: "length (logs ! 0) \<le> n"
  shows "\<exists>logs' rcvs'. topo_inv logs' rcvs' (p, stage_iteration k tp) \<and> flowing fs n (stage_iteration k tp) \<and>
    logs' ! 0 = logs ! 0 \<and> (\<forall>j. length (logs ! j) \<le> length (logs' ! j)) \<and>
    min (Suc (length (logs ! Suc k))) (length (logs ! k)) \<le> length (logs' ! Suc k)"
proof -
  note st = flowing_stage [OF fl k] and pos = flowing_position [OF inv fl k]
  let ?st = "tp_stages tp ! k"
  have run: "on_track (length (logs ! Suc k)) ?st" "\<not> tp_shutdown tp" using st(5) pos(1) fl by (auto simp: flowing_def)
  show ?thesis
  proof (cases "length (logs ! Suc k) = length (logs ! k)")
    case True
    then have "length (logs ! Suc k) = length (logs ! sg_input ?st)" using st(2) by simp
    from iterate_idle [OF inv st(1) refl run this] obtain st' where 1: "topo_inv logs rcvs (p, stage_iteration k tp)"
        "tp_stages (stage_iteration k tp) = (tp_stages tp)[k := st']" "on_track (length (logs ! Suc k)) st'"
        "\<not> tp_shutdown (stage_iteration k tp)" "tp_rings (stage_iteration k tp) = tp_rings tp" by blast
    have "flowing fs n (stage_iteration k tp)" using flowing_put [OF fl shape_iteration 1(2-4)] 1(5) by simp
    then show ?thesis using 1(1) True by (intro exI [of _ logs] exI [of _ rcvs]) simp
  next
    case False
    have kr: "k < length (tp_rings tp)" using topo_invD(5) [OF inv st(1)] st(2) by (simp add: stage_ok_def)
    have "length (logs ! k) \<le> n" using flowing_short [OF inv fl, of k] k fits by simp
    then have c: "length (logs ! Suc k) < length (logs ! sg_input ?st)" "length (logs ! sg_input ?st) \<le> cap (tp_rings tp ! sg_input ?st)"
      using False pos(2) fl kr by (auto simp: st(2) flowing_def)
    have f: "\<exists>w. sg_f ?st v = Inr w" for v using total k st(4) by simp
    from iterate_on_track [OF inv st(1) refl run f c] obtain logs' rcvs' st' where 1: "topo_inv logs' rcvs' (p, stage_iteration k tp)"
        "\<forall>j. j \<noteq> Suc k \<longrightarrow> logs' ! j = logs ! j" "tp_stages (stage_iteration k tp) = (tp_stages tp)[k := st']"
        "on_track (Suc (length (logs ! Suc k))) st'" "\<not> tp_shutdown (stage_iteration k tp)"
        "map sr_index (tp_rings (stage_iteration k tp)) = map sr_index (tp_rings tp)"
      unfolding st(3) by blast
    have fl': "flowing fs n (stage_iteration k tp)" by (rule flowing_put [OF fl shape_iteration 1(3-6)])
    have "length (logs' ! Suc k) = Suc (length (logs ! Suc k))"
      using flowing_position(1) [OF 1(1) fl' k] 1(3,4) st(1) by (simp add: on_track_def)
    then have "length (logs ! j) \<le> length (logs' ! j)" for j using 1(2) by (cases "j = Suc k") auto
    then show ?thesis using 1(1,2) fl' \<open>length (logs' ! Suc k) = _\<close> by (intro exI [of _ logs'] exI [of _ rcvs']) simp
  qed
qed

lemma flowing_feed:
  assumes inv: "topo_inv logs rcvs (p, tp)" and fl: "flowing fs n tp" and room: "length (logs ! 0) < 2 ^ 63 - 2"
  shows "\<exists>p' tp'. topo_do (Feed v) (p, tp) = (p', tp') \<and> topo_inv (logs[0 := logs ! 0 @ [v]]) rcvs (p', tp') \<and> flowing fs n tp'"
proof -
  note D = topo_invD [OF inv]
  have r0: "ring_ok (tp_rings tp ! 0) (logs ! 0)" using D(1,4) by simp
  from r0 D(7) room obtain p' r' where pub: "Publisher_publish [] p (tp_rings tp ! 0, []) v = Some (p', (r', []), [])"
      "sr_index r' = sr_index (tp_rings tp ! 0)"
    by (rule lossy_publish)
  let ?tp = "tp\<lparr>tp_rings := (tp_rings tp)[0 := r']\<rparr>"
  have y: "topo_do (Feed v) (p, tp) = (p', ?tp)" using pub(1) by (simp add: topo_do_def)
  have "\<forall>r \<in> set (tp_rings ?tp). cap r = n"
    using same_capacities [of "tp_rings ?tp" "tp_rings tp"] pub(2) fl by (simp add: flowing_def map_update_same)
  then have "flowing fs n ?tp" using fl by (simp add: flowing_def linear_shape_def shape_def)
  then show ?thesis using topo_inv_feed [OF inv room, of v] y by simp
qed

text \<open>One action other than the shutdown: the logs grow, and a stage that is scheduled while it has input publishes.\<close>

lemma flowing_do:
  assumes inv: "topo_inv logs rcvs (p, tp)" and fl: "flowing fs n tp" and total: "\<forall>f \<in> set fs. \<forall>v. \<exists>w. f v = Inr w"
    and fits: "length (logs ! 0) + length (fed [a]) \<le> n" "length (logs ! 0) + length (fed [a]) < 2 ^ 63 - 1" and a: "a \<noteq> Trigger"
  shows "\<exists>p' tp' logs' rcvs'. topo_do a (p, tp) = (p', tp') \<and> topo_inv logs' rcvs' (p', tp') \<and> flowing fs n tp' \<and>
    logs' ! 0 = logs ! 0 @ fed [a] \<and> (\<forall>j. length (logs ! j) \<le> length (logs' ! j)) \<and>
    (\<forall>k < length fs. min (length (logs ! Suc k) + count_list [a] (Iterate k)) (length (logs ! k)) \<le> length (logs' ! Suc k))"
proof (cases a)
  case (Feed v)
  have "0 < length logs" using topo_invD(1,2) [OF inv] by simp
  moreover have "length (logs ! j) \<le> length (logs[0 := logs ! 0 @ [v]] ! j)" for j
    using \<open>0 < length logs\<close> by (cases "j = 0") simp_all
  moreover have "length (logs ! 0) < 2 ^ 63 - 2" using fits(2) Feed by simp
  from flowing_feed [OF inv fl this, of v] obtain p' tp' where "topo_do (Feed v) (p, tp) = (p', tp')"
      "topo_inv (logs[0 := logs ! 0 @ [v]]) rcvs (p', tp')" "flowing fs n tp'" by blast
  ultimately show ?thesis using Feed
    by (intro exI [of _ p'] exI [of _ tp'] exI [of _ "logs[0 := logs ! 0 @ [v]]"] exI [of _ rcvs]) (simp add: min_def)
next
  case (Iterate i)
  show ?thesis
  proof (cases "i < length fs")
    case True
    then have y: "topo_do a (p, tp) = (p, stage_iteration i tp)" using flowing_stage(1) [OF fl True] Iterate by (simp add: topo_do_def)
    from flowing_iterate [OF inv fl True total] fits(1) Iterate obtain logs' rcvs' where
        1: "topo_inv logs' rcvs' (p, stage_iteration i tp)" "flowing fs n (stage_iteration i tp)" "logs' ! 0 = logs ! 0"
          "\<forall>j. length (logs ! j) \<le> length (logs' ! j)"
          "min (Suc (length (logs ! Suc i))) (length (logs ! i)) \<le> length (logs' ! Suc i)"
      by auto
    have "min (length (logs ! Suc k) + count_list [a] (Iterate k)) (length (logs ! k)) \<le> length (logs' ! Suc k)" for k
      using 1(4) [rule_format, of "Suc k"] 1(5) Iterate by (cases "k = i") auto
    then show ?thesis using y 1(1-4) Iterate
      by (intro exI [of _ p] exI [of _ "stage_iteration i tp"] exI [of _ logs'] exI [of _ rcvs']) simp
  next
    case False
    have "topo_do a (p, tp) = (p, tp)" using flowing_count [OF fl] False Iterate by (simp add: topo_do_def)
    then show ?thesis using inv fl Iterate False flowing_position(2) [OF inv fl]
      by (intro exI [of _ p] exI [of _ tp] exI [of _ logs] exI [of _ rcvs]) auto
  qed
qed (use a in simp)

lemma flowing_run:
  assumes "topo_inv logs rcvs (p, tp)" "flowing fs n tp" and total: "\<forall>f \<in> set fs. \<forall>v. \<exists>w. f v = Inr w"
    and "length (logs ! 0) + length (fed as) \<le> n" "length (logs ! 0) + length (fed as) < 2 ^ 63 - 1" "Trigger \<notin> set as"
  shows "\<exists>p' tp' logs' rcvs'. topo_run as (p, tp) = (p', tp') \<and> topo_inv logs' rcvs' (p', tp') \<and> flowing fs n tp' \<and>
    logs' ! 0 = logs ! 0 @ fed as \<and> (\<forall>j. length (logs ! j) \<le> length (logs' ! j)) \<and>
    (\<forall>k < length fs. min (length (logs ! Suc k) + count_list as (Iterate k)) (length (logs ! k)) \<le> length (logs' ! Suc k))"
  using assms(1,2,4,5,6)
proof (induction as arbitrary: logs rcvs p tp)
  case Nil
  then show ?case by auto
next
  case (Cons a as)
  have fd: "fed (a # as) = fed [a] @ fed as" using fed_simps(5) [of "[a]" as] by simp
  have "length (logs ! 0) + length (fed [a]) \<le> n" "length (logs ! 0) + length (fed [a]) < 2 ^ 63 - 1" "a \<noteq> Trigger"
    using Cons.prems(3-5) fd by auto
  from flowing_do [OF Cons.prems(1,2) total this] obtain p1 tp1 logs1 rcvs1 where
      1: "topo_do a (p, tp) = (p1, tp1)" "topo_inv logs1 rcvs1 (p1, tp1)" "flowing fs n tp1" "logs1 ! 0 = logs ! 0 @ fed [a]"
        "\<forall>j. length (logs ! j) \<le> length (logs1 ! j)"
        "\<forall>k < length fs. min (length (logs ! Suc k) + count_list [a] (Iterate k)) (length (logs ! k)) \<le> length (logs1 ! Suc k)"
    by blast
  have "length (logs1 ! 0) + length (fed as) \<le> n" "length (logs1 ! 0) + length (fed as) < 2 ^ 63 - 1" "Trigger \<notin> set as"
    using Cons.prems(3-5) fd 1(4) by auto
  from Cons.IH [OF 1(2,3) this] obtain p2 tp2 logs2 rcvs2 where
      2: "topo_run as (p1, tp1) = (p2, tp2)" "topo_inv logs2 rcvs2 (p2, tp2)" "flowing fs n tp2" "logs2 ! 0 = logs1 ! 0 @ fed as"
        "\<forall>j. length (logs1 ! j) \<le> length (logs2 ! j)"
        "\<forall>k < length fs. min (length (logs1 ! Suc k) + count_list as (Iterate k)) (length (logs1 ! k)) \<le> length (logs2 ! Suc k)"
    by blast
  have "min (length (logs ! Suc k) + count_list (a # as) (Iterate k)) (length (logs ! k)) \<le> length (logs2 ! Suc k)"
    if "k < length fs" for k
    using 1(5) [rule_format, of k] 1(6) [rule_format, OF that] 2(6) [rule_format, OF that] by auto
  moreover have "length (logs ! j) \<le> length (logs2 ! j)" for j using order.trans [OF 1(5) [rule_format] 2(5) [rule_format]] .
  ultimately show ?case using 1(1,4) 2(1-4) fd
    by (intro exI [of _ p2] exI [of _ tp2] exI [of _ logs2] exI [of _ rcvs2]) simp
qed

text \<open>Segment \<open>k\<close> of a schedule lets stage \<open>k\<close> iterate at least once per message.\<close>

lemma flowing_segments:
  assumes "topo_inv logs rcvs (p, tp)" "flowing fs n tp" and total: "\<forall>f \<in> set fs. \<forall>v. \<exists>w. f v = Inr w"
    and fits: "length (logs ! 0) \<le> n" "length (logs ! 0) < 2 ^ 63 - 1"
    and bss: "length bss = length fs" "fed (concat bss) = []" "Trigger \<notin> set (concat bss)"
      "\<forall>k < length fs. length (logs ! 0) \<le> count_list (bss ! k) (Iterate k)"
    and k: "k \<le> length fs"
  shows "\<exists>p' tp' logs' rcvs'. topo_run (concat (take k bss)) (p, tp) = (p', tp') \<and> topo_inv logs' rcvs' (p', tp') \<and>
    flowing fs n tp' \<and> logs' ! 0 = logs ! 0 \<and> (\<forall>j \<le> k. length (logs' ! j) = length (logs ! 0))"
  using k
proof (induction k)
  case 0
  then show ?case using assms(1,2) by auto
next
  case (Suc k)
  then obtain p1 tp1 logs1 rcvs1 where 1: "topo_run (concat (take k bss)) (p, tp) = (p1, tp1)" "topo_inv logs1 rcvs1 (p1, tp1)"
      "flowing fs n tp1" "logs1 ! 0 = logs ! 0" "\<forall>j \<le> k. length (logs1 ! j) = length (logs ! 0)" by auto
  have kb: "k < length bss" "k < length fs" using Suc.prems bss(1) by simp_all
  then have seg: "concat (take (Suc k) bss) = concat (take k bss) @ bss ! k" "bss ! k \<in> set bss"
    by (simp_all add: take_Suc_conv_app_nth)
  have "fed (bss ! k) = []" "Trigger \<notin> set (bss ! k)" using bss(2,3) seg(2) by (auto simp: fed_def)
  with flowing_run [OF 1(2,3) total, of "bss ! k"] 1(4) fits obtain p2 tp2 logs2 rcvs2 where
      2: "topo_run (bss ! k) (p1, tp1) = (p2, tp2)" "topo_inv logs2 rcvs2 (p2, tp2)" "flowing fs n tp2" "logs2 ! 0 = logs ! 0"
        "\<forall>j. length (logs1 ! j) \<le> length (logs2 ! j)"
        "\<forall>k' < length fs. min (length (logs1 ! Suc k') + count_list (bss ! k) (Iterate k')) (length (logs1 ! k')) \<le> length (logs2 ! Suc k')"
    by auto
  have "length (logs ! 0) \<le> length (logs2 ! Suc k)" using 2(6) [rule_format, OF kb(2)] 1(5) [rule_format, of k] bss(4) kb(2) by fastforce
  then have "length (logs ! 0) \<le> length (logs2 ! j)" if "j \<le> Suc k" for j
    using that 1(5) 2(5) by (cases "j = Suc k") (auto simp: le_Suc_eq, metis)
  moreover have "length (logs2 ! j) \<le> length (logs ! 0)" if "j \<le> Suc k" for j
    using flowing_short [OF 2(2,3), of j] that Suc.prems 2(4) by simp
  ultimately show ?case using 1(1) 2(1-4) by (auto simp: seg(1) topo_run_append intro: order.antisym)
qed

lemma flowing_caught_up:
  assumes inv: "topo_inv logs rcvs (p, tp)" and fl: "flowing fs n tp" and len: "\<forall>j \<le> length fs. length (logs ! j) = length (logs ! 0)"
    and st: "st \<in> set (tp_stages tp)"
  shows "caught_up tp st"
proof -
  obtain k where k: "k < length fs" "st = tp_stages tp ! k" using st flowing_count [OF fl] by (auto simp: in_set_conv_nth)
  note fs = flowing_stage [OF fl k(1), folded k(2)]
  have ok: "stage_ok (tp_rings tp) logs st (rcvs ! k)" using topo_invD(5) [OF inv fs(1)] k(2) by simp
  then have ring: "ring_ok (tp_rings tp ! k) (logs ! k)" using topo_invD(4) [OF inv] fs(2) by (simp add: stage_ok_def)
  have "unat (sub_cursor (sg_sub st)) = length (logs ! k)" using flowing_position(1) [OF inv fl k(1)] len [rule_format, of k] len [rule_format, of "Suc k"] k by simp
  moreover have "at_log (cap (tp_rings tp ! k)) (logs ! k) (sg_sub st, (tp_rings tp ! k, []))"
    using ring ok fs(2) by (auto simp: at_log_def ring_ok_def stage_ok_def)
  ultimately have "unat (Subscriber_pending (sg_sub st) (tp_rings tp ! k)) = 0"
    using pending_spec by (fastforce simp: sub_pos_def)
  then show ?thesis using fs(2,5) by (simp add: caught_up_def on_track_def stage_status unat_eq_zero)
qed

text \<open>All rings of a pipeline have the builder's capacity.\<close>

lemma then_all_capacity:
  assumes "then_all uninit fs sb = Inr sb'" "\<forall>r \<in> set (tp_rings (sb_state sb)). ri_capacity (sr_index r) = sb_capacity sb"
    "\<forall>st \<in> set (tp_stages (sb_state sb)). on_track 0 st" "\<not> tp_shutdown (sb_state sb)" "stage_built uninit p sb"
  shows "(\<forall>r \<in> set (tp_rings (sb_state sb')). ri_capacity (sr_index r) = sb_capacity sb) \<and>
    (\<forall>st \<in> set (tp_stages (sb_state sb')). on_track 0 st) \<and> \<not> tp_shutdown (sb_state sb')"
  using assms
proof (induction fs arbitrary: sb)
  case (Cons x fs)
  obtain f strategy where x: "x = (f, strategy)" by (cases x)
  from Cons.prems(1) x obtain sb1 where 1: "StageBuilder_then_with uninit f strategy sb = Inr sb1" "then_all uninit fs sb1 = Inr sb'"
    by (auto split: sum.splits)
  from 1(1) obtain h' j tp' where add: "SharedState_add_stage uninit (sb_subscriber sb) (sb_capacity sb) f strategy (sb_state sb) = Inr (h', j, tp')"
    and sb1: "sb1 = \<lparr>sb_subscriber = h', sb_subscribable = j, sb_capacity = sb_capacity sb, sb_state = tp'\<rparr>"
    by (rule then_with_Inr)
  from add obtain np r where ch: "channel uninit (sb_capacity sb) = Inr (np, r)"
    by (auto simp: SharedState_add_stage_def split: sum.splits)
  have r: "ring_ok r []" "ri_capacity (sr_index r) = sb_capacity sb"
    using channel_ring_ok [OF ch] ch RingIndex_new_Inr(1) by (auto simp: channel_def SharedRing_new_def split: sum.splits)
  have tp': "tp' = (sb_state sb)\<lparr>tp_rings := tp_rings (sb_state sb) @ [r],
      tp_stages := tp_stages (sb_state sb) @ [spawn_stage (sb_subscriber sb) (length (tp_rings (sb_state sb)), np) f strategy]\<rparr>"
    using add ch subscribe_fresh [OF r(1)] by (auto simp: SharedState_add_stage_def Let_def)
  obtain i s where h: "sb_subscriber sb = (i, s)" by (cases "sb_subscriber sb")
  have "handle_ok (sb_state sb) (i, s)" using stage_built_fresh [OF Cons.prems(5)] unfolding h by blast
  then have "on_track 0 (spawn_stage (sb_subscriber sb) (length (tp_rings (sb_state sb)), np) f strategy)"
    by (simp add: on_track_def spawn_stage_def handle_ok_def h)
  then have "\<forall>st \<in> set (tp_stages (sb_state sb1)). on_track 0 st" using Cons.prems(3) by (simp add: sb1 tp')
  moreover have "\<forall>r \<in> set (tp_rings (sb_state sb1)). ri_capacity (sr_index r) = sb_capacity sb1"
    using Cons.prems(2) r(2) by (simp add: sb1 tp')
  moreover have "stage_built uninit p sb1" using Cons.prems(5) 1(1) by (rule built_then)
  moreover have "\<not> tp_shutdown (sb_state sb1)" "sb_capacity sb1 = sb_capacity sb" using Cons.prems(4) by (simp_all add: sb1 tp')
  ultimately show ?case using Cons.IH [OF 1(2)] by metis
qed simp

section \<open>Shutting down\<close>

lemma status_iteration:
  assumes "tp_shutdown tp"
  shows "map sg_status (tp_stages (stage_iteration k tp)) =
      (map sg_status (tp_stages tp))[k := if sg_status (tp_stages tp ! k) = STAGE_RUNNING then STAGE_COMPLETED
                                         else sg_status (tp_stages tp ! k)]"
    and "tp_shutdown (stage_iteration k tp)"
proof -
  let ?st = "tp_stages tp ! k"
  have "stage_iteration k tp = (if sg_status ?st = STAGE_RUNNING
      then tp\<lparr>tp_stages := (tp_stages tp)[k := ?st\<lparr>sg_status := STAGE_COMPLETED\<rparr>]\<rparr> else tp)"
    using assms by (simp add: stage_iteration_def Shutdown_is_shutdown_def)
  then show "map sg_status (tp_stages (stage_iteration k tp)) =
      (map sg_status (tp_stages tp))[k := if sg_status ?st = STAGE_RUNNING then STAGE_COMPLETED else sg_status ?st]"
      "tp_shutdown (stage_iteration k tp)"
    using assms by (auto simp: map_update list_update_same_conv) (metis list_update_beyond list_update_id map_update not_less)
qed

lemma status_after_shutdown:
  assumes "tp_shutdown (snd y)"
  shows "length (tp_stages (snd (topo_run bs y))) = length (tp_stages (snd y)) \<and>
    (\<forall>k < length (tp_stages (snd y)). sg_status (tp_stages (snd (topo_run bs y)) ! k) =
       (if sg_status (tp_stages (snd y) ! k) = STAGE_RUNNING \<and> Iterate k \<in> set bs then STAGE_COMPLETED
        else sg_status (tp_stages (snd y) ! k)))"
  using assms
proof (induction bs arbitrary: y)
  case (Cons b bs)
  obtain p tp where y: "y = (p, tp)" by (cases y)
  have sd: "tp_shutdown tp" using Cons.prems y by simp
  let ?y = "topo_do b y"
  have step: "tp_shutdown (snd ?y) \<and> length (tp_stages (snd ?y)) = length (tp_stages tp) \<and>
      (\<forall>k < length (tp_stages tp). sg_status (tp_stages (snd ?y) ! k) =
         (if sg_status (tp_stages tp ! k) = STAGE_RUNNING \<and> b = Iterate k then STAGE_COMPLETED
          else sg_status (tp_stages tp ! k)))"
  proof (cases b)
    case (Iterate j)
    show ?thesis
    proof (cases "j < length (tp_stages tp)")
      case True
      then have y1: "snd ?y = stage_iteration j tp" using y Iterate by (simp add: topo_do_def)
      note st = status_iteration [OF sd, of j]
      have len: "length (tp_stages (snd ?y)) = length (tp_stages tp)" using arg_cong [OF st(1), of length] y1 by simp
      have "sg_status (tp_stages (snd ?y) ! k) = map sg_status (tp_stages (snd ?y)) ! k" if "k < length (tp_stages tp)" for k
        using that len by simp
      then show ?thesis using st len True Iterate unfolding y1 by (auto simp: nth_list_update)
    next
      case False
      then show ?thesis using y sd Iterate by (auto simp: topo_do_def)
    qed
  next
    case (Feed v)
    then show ?thesis using y sd by (auto simp: topo_do_def split: option.splits)
  next
    case Trigger
    then show ?thesis using y by (auto simp: topo_do_def Pipeline_shutdown_def)
  qed
  from Cons.IH [of ?y] step show ?case using y by (auto simp: stage_status)
qed simp

lemma panicked_stages_conv:
  "Pipeline_panicked_stages tp = filter (\<lambda>i. sg_status (tp_stages tp ! i) = STAGE_PANICKED) [0..<length (tp_stages tp)]"
proof -
  have "enumerate 0 (tp_stages tp) = map (\<lambda>i. (i, tp_stages tp ! i)) [0..<length (tp_stages tp)]"
    by (rule nth_equalityI) (simp_all add: nth_enumerate_eq)
  then show ?thesis by (simp add: Pipeline_panicked_stages_def filter_map comp_def)
qed

section \<open>Building a linear pipeline\<close>

lemma linear_built:
  assumes "PipelineBuilder_input uninit (SharedState_new arch c pkg) b = Inr ((i, p), sb0)"
    and "then_all uninit fs sb0 = Inr sb" and "StageBuilder_build sb = ((out, osub), tp)"
  shows "linear_shape (map fst fs) tp" "topology_built uninit p tp" "length (tp_rings tp) = Suc (length fs)" "out = length fs"
    "\<forall>r \<in> set (tp_rings tp). cap r = unat (plb_capacity b)" "\<forall>st \<in> set (tp_stages tp). on_track 0 st" "\<not> tp_shutdown tp"
proof -
  note I = input_fresh [OF assms(1)]
  have tp: "tp = sb_state sb" "out = fst (sb_subscriber sb)" using assms(3) by (auto simp: StageBuilder_build_def)
  have "linear_shape [] (sb_state sb0)" using I(4) by (simp add: linear_shape_def shape_def)
  moreover have b0: "stage_built uninit p sb0" using assms(1) by (rule built_input)
  moreover have "fst (sb_subscriber sb0) = 0" using I(2,5) by (cases "sb_subscriber sb0") (simp add: handle_ok_def)
  ultimately have L: "linear_shape (map fst fs) (sb_state sb)" "stage_built uninit p sb"
      "length (tp_rings (sb_state sb)) = Suc (length fs)" "fst (sb_subscriber sb) = length fs"
    using linear_then_all [OF assms(2), of "[]" p] I(5) by auto
  then show "linear_shape (map fst fs) tp" "length (tp_rings tp) = Suc (length fs)" "out = length fs" by (simp_all add: tp)
  show "topology_built uninit p tp" using L(2) by (auto simp: topology_built_def StageBuilder_build_def tp)
  have cap0: "\<forall>r \<in> set (tp_rings (sb_state sb0)). ri_capacity (sr_index r) = sb_capacity sb0" "sb_capacity sb0 = plb_capacity b"
  proof -
    obtain q r where ch: "channel uninit (plb_capacity b) = Inr (q, r)"
      using assms(1) by (auto simp: PipelineBuilder_input_def split: sum.splits)
    have "ring_ok r []" "ri_capacity (sr_index r) = plb_capacity b"
      using channel_ring_ok [OF ch] ch RingIndex_new_Inr(1) by (auto simp: channel_def SharedRing_new_def split: sum.splits)
    then show "\<forall>r \<in> set (tp_rings (sb_state sb0)). ri_capacity (sr_index r) = sb_capacity sb0" "sb_capacity sb0 = plb_capacity b"
      using assms(1) ch subscribe_fresh [of r] by (auto simp: PipelineBuilder_input_def SharedState_new_def Let_def)
  qed
  from then_all_capacity [OF assms(2) cap0(1) _ I(6) b0] I(4) cap0(2)
  show "\<forall>r \<in> set (tp_rings tp). cap r = unat (plb_capacity b)" "\<forall>st \<in> set (tp_stages tp). on_track 0 st" "\<not> tp_shutdown tp"
    by (auto simp: tp)
qed

section \<open>A concrete pipeline\<close>

definition pipe_cpu :: cpu where
  "pipe_cpu = \<lparr>cpuid_ecx = 0, rdtsc = 0\<rparr>"

definition pipe_fs :: "((u64 \<Rightarrow> u64 may_panic) \<times> wait_strategy) list" where
  "pipe_fs = [(\<lambda>x. Inr (x * 2), BusySpin), (\<lambda>x. Inr (x + 1), BackoffSpin)]"

text \<open>The same with a closure that panics on one value.\<close>

definition pipe_bad :: "((u64 \<Rightarrow> u64 may_panic) \<times> wait_strategy) list" where
  "pipe_bad = [(\<lambda>x. Inr (x * 2), BusySpin), (\<lambda>x. if x = 6 then Inl ClosurePanic else Inr (x + 1), BusySpin)]"

definition pipe_builder :: pipeline_builder where
  "pipe_builder = PipelineBuilder_capacity PipelineBuilder_new 4"

definition pipe_input :: "((ring_id \<times> publisher) \<times> u64 stage_builder) may_panic" where
  "pipe_input = PipelineBuilder_input 0 (SharedState_new X86_64 pipe_cpu 0) pipe_builder"

definition pipe_pub :: publisher where
  "pipe_pub = snd (fst (projr pipe_input))"

definition pipe_sb :: "((u64 \<Rightarrow> u64 may_panic) \<times> wait_strategy) list \<Rightarrow> u64 stage_builder" where
  "pipe_sb fs = projr (then_all 0 fs (snd (projr pipe_input)))"

definition pipe_topo :: "((u64 \<Rightarrow> u64 may_panic) \<times> wait_strategy) list \<Rightarrow> u64 topo" where
  "pipe_topo fs = snd (StageBuilder_build (pipe_sb fs))"

lemma case_Inr_ex: "(case x of Inl e \<Rightarrow> False | Inr y \<Rightarrow> P y) \<Longrightarrow> \<exists>y. x = Inr y \<and> P y"
  by (cases x) auto

lemma pipe_built:
  assumes "fs = pipe_fs \<or> fs = pipe_bad"
  shows "\<exists>i sb0 osub. PipelineBuilder_input 0 (SharedState_new X86_64 pipe_cpu 0) pipe_builder = Inr ((i, pipe_pub), sb0) \<and>
    then_all 0 fs sb0 = Inr (pipe_sb fs) \<and> StageBuilder_build (pipe_sb fs) = ((2, osub), pipe_topo fs)"
proof -
  have "case pipe_input of Inl e \<Rightarrow> False | Inr x \<Rightarrow> True" by code_simp
  from case_Inr_ex [OF this] obtain i p sb0 where i: "pipe_input = Inr ((i, p), sb0)" by (metis prod.exhaust)
  have "case then_all 0 pipe_fs (snd (projr pipe_input)) of Inl e \<Rightarrow> False | Inr x \<Rightarrow> fst (sb_subscriber x) = 2"
    "case then_all 0 pipe_bad (snd (projr pipe_input)) of Inl e \<Rightarrow> False | Inr x \<Rightarrow> fst (sb_subscriber x) = 2" by code_simp+
  then have "case then_all 0 fs sb0 of Inl e \<Rightarrow> False | Inr x \<Rightarrow> fst (sb_subscriber x) = 2" using assms unfolding i by auto
  from case_Inr_ex [OF this] have "then_all 0 fs sb0 = Inr (pipe_sb fs) \<and> fst (sb_subscriber (pipe_sb fs)) = 2"
    unfolding pipe_sb_def i by auto
  moreover have "pipe_pub = p" unfolding pipe_pub_def i by simp
  ultimately show ?thesis using i unfolding pipe_input_def by (cases "sb_subscriber (pipe_sb fs)")
      (auto simp: pipe_topo_def StageBuilder_build_def)
qed

lemma pipe_topology:
  assumes "fs = pipe_fs \<or> fs = pipe_bad"
  shows "topology_built 0 pipe_pub (pipe_topo fs)"
  using pipe_built [OF assms] by (elim exE conjE) (rule linear_built(2))

section \<open>Properties\<close>

text \<open>
  C18: \<^bold>\<open>Every stage transforms a subsequence of its input, in order.\<close>  In every run of every topology that
  the builders can construct (linear or fan-out), the messages published on a stage's output ring are its
  closure's results on messages of its input ring, in their order and each at most once; what is missing
  is exactly what the stage's subscriber counted as lagged, and the message a panic consumed.
\<close>

theorem topology_stage_outputs:
  assumes "topology_built uninit p tp" "length (fed as) < 2 ^ 63 - 1"
  shows "\<exists>logs rcvs. logs ! 0 = fed as \<and>
    (\<forall>i < length (tp_rings (snd (topo_run as (p, tp)))). ring_log (tp_rings (snd (topo_run as (p, tp))) ! i) (logs ! i)) \<and>
    (\<forall>k < length (tp_stages (snd (topo_run as (p, tp)))).
       let st = tp_stages (snd (topo_run as (p, tp))) ! k
       in map (sg_f st) (rcvs ! k) = map Inr (logs ! sg_output st) \<and>
          subseq (rcvs ! k) (take (unat (sub_cursor (sg_sub st))) (logs ! sg_input st)) \<and>
          unat (sub_total_lagged (sg_sub st)) + length (rcvs ! k) +
            (if sg_status st = STAGE_PANICKED then 1 else 0) = unat (sub_cursor (sg_sub st)))"
proof -
  obtain logs rcvs where inv: "topo_inv logs rcvs (topo_run as (p, tp))" and log: "logs ! 0 = fed as"
    using topology_run_inv [OF assms] by blast
  obtain p' tp' where y: "topo_run as (p, tp) = (p', tp')" by (cases "topo_run as (p, tp)")
  note D = topo_invD [OF inv [unfolded y]]
  show ?thesis unfolding y using log D(4,5)
    by (intro exI [of _ logs] exI [of _ rcvs]) (auto simp: ring_ok_def stage_ok_def Let_def)
qed

definition pipe_after :: "u64 topo" where
  "pipe_after = snd (topo_run [Feed 1, Feed 2, Iterate 0, Iterate 1] (pipe_pub, pipe_topo pipe_fs))"

theorem topology_stage_outputs_witness:
  "\<exists>logs rcvs. logs ! 0 = [1, 2] \<and> ring_log (tp_rings pipe_after ! 2) (logs ! 2) \<and>
     map (sg_f (tp_stages pipe_after ! 1)) (rcvs ! 1) = map Inr (logs ! 2) \<and>
     subseq (rcvs ! 1) (take (unat (sub_cursor (sg_sub (tp_stages pipe_after ! 1)))) (logs ! 1))"
proof -
  have b: "topology_built 0 pipe_pub (pipe_topo pipe_fs)" using pipe_topology by blast
  have "length (fed [Feed 1, Feed 2, Iterate 0, Iterate 1 :: u64 topo_act]) < 2 ^ 63 - 1" by simp
  from topology_stage_outputs [OF b this] obtain logs rcvs where 1: "logs ! 0 = [1, 2]"
      "\<forall>i < length (tp_rings pipe_after). ring_log (tp_rings pipe_after ! i) (logs ! i)"
      "\<forall>k < length (tp_stages pipe_after).
         let st = tp_stages pipe_after ! k
         in map (sg_f st) (rcvs ! k) = map Inr (logs ! sg_output st) \<and>
            subseq (rcvs ! k) (take (unat (sub_cursor (sg_sub st))) (logs ! sg_input st))"
    unfolding pipe_after_def by (auto simp: Let_def)
  have "length (tp_rings pipe_after) = 3" "length (tp_stages pipe_after) = 2"
    "sg_output (tp_stages pipe_after ! 1) = 2" "sg_input (tp_stages pipe_after ! 1) = 1" by code_simp+
  then show ?thesis using 1(1) 1(2) [rule_format, of 2] 1(3) [rule_format, of 1] by (auto simp: Let_def)
qed

text \<open>
  C19: \<^bold>\<open>A linear pipeline computes the composition of its closures.\<close>  Whatever the interleaving of the
  stages, the messages on the output ring are the images under the composed closures of a subsequence
  of what was fed; and when every stage has caught up without lag or panic, of everything that was fed.
\<close>

theorem pipeline_end_to_end:
  assumes "PipelineBuilder_input uninit (SharedState_new arch c pkg) b = Inr ((i, p), sb0)"
    and "then_all uninit fs sb0 = Inr sb" and "StageBuilder_build sb = ((out, osub), tp)"
    and "topo_run as (p, tp) = (p', tp')" and "length (fed as) < 2 ^ 63 - 1"
  shows "\<exists>xs olog. ring_log (tp_rings tp' ! out) olog \<and> subseq xs (fed as) \<and>
    map (apply_all (map fst fs)) xs = map Inr olog \<and>
    ((\<forall>st \<in> set (tp_stages tp'). caught_up tp' st) \<longrightarrow> xs = fed as)"
proof -
  note L = linear_built [OF assms(1-3)]
  obtain logs rcvs where inv: "topo_inv logs rcvs (p', tp')" and log: "logs ! 0 = fed as"
    using topology_run_inv [OF L(2) assms(5)] assms(4) by metis
  have "linear_shape (map fst fs) tp'" using shape_run [of as "(p, tp)"] L(1) assms(4) by (simp add: linear_shape_def)
  from linear_logs [OF inv this, of "length fs"] obtain xs where xs: "subseq xs (fed as)"
      "map (apply_all (map fst fs)) xs = map Inr (logs ! length fs)"
      "(\<forall>st \<in> set (tp_stages tp'). caught_up tp' st) \<longrightarrow> xs = fed as"
    using log by auto
  have "length fs < length (tp_rings tp')"
  proof -
    have "length (tp_rings tp') = length (tp_rings tp)" using rings_run [of as "(p, tp)"] assms(4) by simp
    then show ?thesis using L(3) by simp
  qed
  then have "ring_log (tp_rings tp' ! out) (logs ! length fs)" using topo_invD(4) [OF inv] L(4) by (simp add: ring_ok_def)
  then show ?thesis using xs by blast
qed

theorem pipeline_end_to_end_witness:
  "sg_status (tp_stages (snd (topo_run (feed_and_sweep [1, 3, 5] 2) (pipe_pub, pipe_topo pipe_bad))) ! 1) = STAGE_PANICKED \<and>
   (\<exists>xs olog. ring_log (tp_rings (snd (topo_run (feed_and_sweep [1, 3, 5] 2) (pipe_pub, pipe_topo pipe_bad))) ! 2) olog \<and>
      subseq xs [1, 3, 5] \<and> map (apply_all (map fst pipe_bad)) xs = map Inr olog)"
proof -
  obtain i sb0 osub where b: "PipelineBuilder_input 0 (SharedState_new X86_64 pipe_cpu 0) pipe_builder = Inr ((i, pipe_pub), sb0)"
      "then_all 0 pipe_bad sb0 = Inr (pipe_sb pipe_bad)" "StageBuilder_build (pipe_sb pipe_bad) = ((2, osub), pipe_topo pipe_bad)"
    using pipe_built by blast
  have f: "fed (feed_and_sweep [1, 3, 5 :: u64] 2) = [1, 3, 5]" by code_simp
  have "sg_status (tp_stages (snd (topo_run (feed_and_sweep [1, 3, 5] 2) (pipe_pub, pipe_topo pipe_bad))) ! 1) = STAGE_PANICKED"
    by code_simp
  then show ?thesis using pipeline_end_to_end [OF b prod.collapse [symmetric], of "feed_and_sweep [1, 3, 5] 2"] f by auto
qed

text \<open>
  C35: \<^bold>\<open>Shutdown ends every stage, and joining reports the panics.\<close>  After the shutdown flag is set, one more
  iteration of each stage, in any order and mixed with anything else, ends all of them: joining returns,
  with exactly the indices of the stages whose closure had panicked before, in ascending order.
\<close>

theorem pipeline_shutdown_joins:
  assumes "\<forall>k < Pipeline_stage_count (snd y). Iterate k \<in> set bs"
  shows "Pipeline_try_join (snd (topo_run (Trigger # bs) y)) =
    Some (if Pipeline_panicked_stages (snd y) = [] then Inr () else Inl (Pipeline_panicked_stages (snd y)))"
proof -
  obtain p tp where y: "y = (p, tp)" by (cases y)
  let ?y = "topo_do Trigger y"
  have y1: "tp_shutdown (snd ?y)" "tp_stages (snd ?y) = tp_stages (snd y)" by (simp_all add: y topo_do_def Pipeline_shutdown_def)
  note st = status_after_shutdown [OF y1(1), of bs, unfolded y1(2)]
  have all: "Iterate k \<in> set bs" if "k < length (tp_stages (snd y))" for k using assms that by (simp add: Pipeline_stage_count_def)
  let ?tp = "snd (topo_run bs ?y)"
  have "list_all (\<lambda>st. sg_status st \<noteq> STAGE_RUNNING) (tp_stages ?tp)"
    using st all by (auto simp: list_all_length stage_status)
  moreover have "Pipeline_panicked_stages ?tp = Pipeline_panicked_stages (snd y)"
    unfolding panicked_stages_conv using st all by (intro filter_cong) (auto simp: stage_status)
  ultimately show ?thesis by (simp add: Pipeline_try_join_def Pipeline_join_def)
qed

theorem pipeline_shutdown_joins_witness:
  "Pipeline_try_join (snd (topo_run (Trigger # [Iterate 1, Iterate 0])
     (topo_run (feed_and_sweep [1, 3, 5] 2) (pipe_pub, pipe_topo pipe_bad)))) = Some (Inl [1])"
proof -
  let ?y = "topo_run (feed_and_sweep [1, 3, 5] 2) (pipe_pub, pipe_topo pipe_bad)"
  have "Pipeline_stage_count (snd ?y) = 2" "Pipeline_panicked_stages (snd ?y) = [1]" by code_simp+
  moreover have "\<forall>k < 2. Iterate k \<in> set [Iterate 1, Iterate 0 :: u64 topo_act]" by (auto simp: less_2_cases_iff)
  ultimately show ?thesis using pipeline_shutdown_joins [of ?y "[Iterate 1, Iterate 0]"] by simp
qed

text \<open>
  C20: \<^bold>\<open>A pipeline delivers under every schedule that keeps its stages running.\<close>  Let a linear pipeline be fed at
  most a ring's capacity of messages, in any interleaving with its stages, and let no closure panic and nobody
  trigger the shutdown.  Once each stage, in pipeline order, has since been scheduled at least as often as messages
  were fed, however these iterations are mixed with those of the other stages, every stage has caught up and the output
  ring holds the image of every message under the composed closures, in order.
\<close>

theorem pipeline_delivers:
  assumes "PipelineBuilder_input uninit (SharedState_new arch c pkg) b = Inr ((i, p), sb0)"
    and "then_all uninit fs sb0 = Inr sb" and "StageBuilder_build sb = ((out, osub), tp)"
    and "topo_run (as @ concat bss) (p, tp) = (p', tp')" and "Trigger \<notin> set (as @ concat bss)"
    and "length (fed as) \<le> unat (plb_capacity b)" "length (fed as) < 2 ^ 63 - 1"
    and "\<forall>f \<in> set (map fst fs). \<forall>v. \<exists>w. f v = Inr w"
    and "length bss = length fs" "fed (concat bss) = []" "\<forall>k < length fs. length (fed as) \<le> count_list (bss ! k) (Iterate k)"
  shows "\<exists>olog. ring_log (tp_rings tp' ! out) olog \<and> map Inr olog = map (apply_all (map fst fs)) (fed as) \<and>
    list_all (caught_up tp') (tp_stages tp')"
proof -
  note L = linear_built [OF assms(1-3)]
  let ?fs = "map fst fs" and ?n = "unat (plb_capacity b)"
  let ?logs = "map (\<lambda>_. []) (tp_rings tp) :: 'a list list"
  have inv0: "topo_inv ?logs (map (\<lambda>_. []) (tp_stages tp)) (p, tp)"
    using topology_built_fresh [OF L(2)] by (simp add: fresh_topo_def)
  have log0: "?logs ! 0 = []" using topo_invD(1) [OF inv0] by simp
  have "flowing ?fs ?n tp" using L(1,5,6,7) by (auto simp: flowing_def on_track_def)
  from flowing_run [OF inv0 this assms(8), of as] log0 assms(5-7) obtain p1 tp1 logs1 rcvs1 where
      1: "topo_run as (p, tp) = (p1, tp1)" "topo_inv logs1 rcvs1 (p1, tp1)" "flowing ?fs ?n tp1" "logs1 ! 0 = fed as"
    by auto
  have "\<exists>p' tp' logs' rcvs'. topo_run (concat (take (length ?fs) bss)) (p1, tp1) = (p', tp') \<and> topo_inv logs' rcvs' (p', tp') \<and>
    flowing ?fs ?n tp' \<and> logs' ! 0 = logs1 ! 0 \<and> (\<forall>j \<le> length ?fs. length (logs' ! j) = length (logs1 ! 0))"
    using assms(5-11) 1(4) by (intro flowing_segments [OF 1(2,3)]) auto
  then obtain logs2 rcvs2 where 2: "topo_inv logs2 rcvs2 (p', tp')" "flowing ?fs ?n tp'" "logs2 ! 0 = fed as"
      "\<forall>j \<le> length ?fs. length (logs2 ! j) = length (logs2 ! 0)"
    using 1(1,4) assms(4,9) by (auto simp: topo_run_append)
  have up: "\<forall>st \<in> set (tp_stages tp'). caught_up tp' st" using flowing_caught_up [OF 2(1,2,4)] by blast
  have "linear_shape ?fs tp'" using 2(2) by (simp add: flowing_def)
  with linear_logs [OF 2(1) this, of "length fs"] 2(3) up
  have img: "map (apply_all ?fs) (fed as) = map Inr (logs2 ! length fs)" by auto
  have "length fs < length (tp_rings tp')" using rings_run [of "as @ concat bss" "(p, tp)"] assms(4) L(3) by simp
  then have "ring_log (tp_rings tp' ! length fs) (logs2 ! length fs)" using topo_invD(4) [OF 2(1)] by (simp add: ring_ok_def)
  then show ?thesis using img up L(4) by (intro exI [of _ "logs2 ! length fs"]) (simp add: list_all_iff)
qed

text \<open>The last stage is scheduled too early at first, and the stages are mixed.\<close>

definition demo_feeds :: "u64 topo_act list" where
  "demo_feeds = [Feed 10, Iterate 1, Feed 20, Iterate 0, Feed 30, Iterate 1]"

definition demo_mixed :: "u64 topo_act list list" where
  "demo_mixed = [[Iterate 0, Iterate 1, Iterate 0, Iterate 0], [Iterate 1, Iterate 0, Iterate 1, Iterate 1]]"

theorem pipeline_delivers_witness:
  "\<exists>olog. ring_log (tp_rings (snd (topo_run (demo_feeds @ concat demo_mixed) (pipe_pub, pipe_topo pipe_fs))) ! 2) olog \<and>
     map Inr olog = (map Inr [21, 41, 61] :: u64 may_panic list)"
proof -
  obtain i sb0 osub where b: "PipelineBuilder_input 0 (SharedState_new X86_64 pipe_cpu 0) pipe_builder = Inr ((i, pipe_pub), sb0)"
      "then_all 0 pipe_fs sb0 = Inr (pipe_sb pipe_fs)" "StageBuilder_build (pipe_sb pipe_fs) = ((2, osub), pipe_topo pipe_fs)"
    using pipe_built by blast
  have "map (apply_all (map fst pipe_fs)) [10, 20, 30] = map Inr [21, 41, 61]" by (simp add: pipe_fs_def)
  moreover have "unat (plb_capacity pipe_builder) = 4" by (simp add: pipe_builder_def PipelineBuilder_capacity_def)
  moreover have "length pipe_fs = 2" "\<forall>f \<in> set (map fst pipe_fs). \<forall>v. \<exists>w. f v = Inr w" by (auto simp: pipe_fs_def)
  moreover have "fed demo_feeds = [10, 20, 30]" "Trigger \<notin> set (demo_feeds @ concat demo_mixed)" "fed (concat demo_mixed) = []"
    "length demo_mixed = 2" "\<forall>k < 2. Suc (Suc (Suc 0)) \<le> count_list (demo_mixed ! k) (Iterate k)"
    by (simp_all add: demo_feeds_def demo_mixed_def less_2_cases_iff all_conj_distrib)
  ultimately show ?thesis using pipeline_delivers [OF b prod.collapse [symmetric], of demo_feeds demo_mixed] by auto
qed

end
