(* ===== verification/Consumer.thy ===== *)
theory Consumer
  imports Topology
begin

text \<open>
  The managed terminal consumer, \<^verbatim>\<open>src/src/topology/consumer.rs\<close>: a thread that runs a handler over the
  messages of one subscriber.

  The handler is a function of its own state and of one call \<open>(message, sequence, end_of_batch)\<close> and may
  panic.  Inside a batch other threads act between two receives: each receive takes one interference
  step from a list, and none when the list has run out.
\<close>

section \<open>State\<close>

datatype drain_policy = DrainAll | Immediate

type_synonym ('a, 'h) handler = "'h \<Rightarrow> 'a \<times> u64 \<times> bool \<Rightarrow> 'h may_panic"

record 'h consumer =
  cn_sub :: subscriber
  cn_strategy :: wait_strategy
  cn_drain :: drain_policy
  cn_handler :: 'h
  cn_idle :: u32
  cn_hints :: "hint list"
  cn_shutdown :: bool
  cn_status :: u8

section \<open>One batch\<close>

type_synonym ('a, 'h) batch_result = "u64 may_panic \<times> subscriber \<times> 'a mem \<times> 'h \<times> 'a interference"

text \<open>\<open>n\<close> iterations of the loop are left, so that the loop variable \<^verbatim>\<open>i\<close> is \<open>batch - n\<close>.\<close>

fun drain_loop ::
    "('a, 'h) handler \<Rightarrow> nat \<Rightarrow> u64 \<Rightarrow> 'a interference \<Rightarrow> u64 \<Rightarrow> subscriber \<Rightarrow> 'a mem \<Rightarrow> 'h \<Rightarrow> ('a, 'h) batch_result" where
  "drain_loop f 0 batch es count s m hs = (Inr count, s, m, hs, es)"
| "drain_loop f (Suc n) batch es count s m hs =
     (let i = batch - of_nat (Suc n);
          seq = sub_cursor s;
          (m1, es1) = interfere es m
      in case Subscriber_try_recv s m1 of
           (Inr value, s', m') \<Rightarrow>
             (case f hs (value, seq, i + 1 = batch) of
                Inl e \<Rightarrow> (Inl e, s', m', hs, es1)
              | Inr hs' \<Rightarrow> drain_loop f n batch es1 (count + 1) s' m' hs')
         | (Inl (Lagged _), s', m') \<Rightarrow> drain_loop f n batch es1 count s' m' hs
         | (Inl Empty, s', m') \<Rightarrow> (Inr count, s', m', hs, es1))"

definition drain_batch ::
    "('a, 'h) handler \<Rightarrow> 'a interference \<Rightarrow> subscriber \<Rightarrow> 'a mem \<Rightarrow> 'h \<Rightarrow> ('a, 'h) batch_result" where
  "drain_batch f es s m hs =
     (let batch = Subscriber_pending s (fst m)
      in if batch = 0 then (Inr 0, s, m, hs, es)
         else drain_loop f (unat batch) batch es 0 s m hs)"

section \<open>The consumer thread\<close>

definition Consumer_spawn :: "subscriber \<Rightarrow> wait_strategy \<Rightarrow> drain_policy \<Rightarrow> 'h \<Rightarrow> 'h consumer" where
  "Consumer_spawn sub strategy drain hs =
     \<lparr>cn_sub = sub, cn_strategy = strategy, cn_drain = drain, cn_handler = hs, cn_idle = 0, cn_hints = [],
      cn_shutdown = False, cn_status = STAGE_RUNNING\<rparr>"

text \<open>When the thread ends, its status is stored and its closure is dropped, and with it the subscriber.\<close>

definition consumer_end ::
    "u8 \<Rightarrow> subscriber \<Rightarrow> 'h \<Rightarrow> 'h consumer \<Rightarrow> 'a mem \<Rightarrow> 'h consumer \<times> 'a mem" where
  "consumer_end status s hs cn m =
     (cn\<lparr>cn_sub := s, cn_handler := hs, cn_status := status\<rparr>, Subscriber_drop s m)"

definition consumer_iteration ::
    "target_arch \<Rightarrow> cpu \<Rightarrow> ('a, 'h) handler \<Rightarrow> 'a interference \<Rightarrow> u8 \<Rightarrow> 'h consumer \<Rightarrow> 'a mem \<Rightarrow>
     ('h consumer \<times> 'a mem) \<times> u8 \<times> 'a interference" where
  "consumer_iteration arch c f es pkg cn m =
     (if cn_status cn \<noteq> STAGE_RUNNING then ((cn, m), pkg, es)
      else if cn_shutdown cn then
        (if cn_drain cn = DrainAll then
           (case drain_batch f es (cn_sub cn) m (cn_handler cn) of
              (Inr _, s', m', hs', es') \<Rightarrow> (consumer_end STAGE_COMPLETED s' hs' cn m', pkg, es')
            | (Inl _, s', m', hs', es') \<Rightarrow> (consumer_end STAGE_PANICKED s' hs' cn m', pkg, es'))
         else (consumer_end STAGE_COMPLETED (cn_sub cn) (cn_handler cn) cn m, pkg, es))
      else
        (case drain_batch f es (cn_sub cn) m (cn_handler cn) of
           (Inl _, s', m', hs', es') \<Rightarrow> (consumer_end STAGE_PANICKED s' hs' cn m', pkg, es')
         | (Inr count, s', m', hs', es') \<Rightarrow>
             if count = 0 then
               let (hints, pkg') = WaitStrategy_wait arch c pkg (cn_strategy cn) (cn_idle cn)
               in ((cn\<lparr>cn_sub := s', cn_handler := hs', cn_idle := u32_saturating_add (cn_idle cn) 1,
                       cn_hints := cn_hints cn @ hints\<rparr>, m'), pkg', es')
             else ((cn\<lparr>cn_sub := s', cn_handler := hs', cn_idle := 0\<rparr>, m'), pkg, es')))"

definition Consumer_shutdown :: "'h consumer \<Rightarrow> 'h consumer" where
  "Consumer_shutdown cn = cn\<lparr>cn_shutdown := True\<rparr>"

definition Consumer_join :: "'h consumer \<Rightarrow> unit option" where
  "Consumer_join cn = (if cn_status cn \<noteq> STAGE_RUNNING then Some () else None)"

definition Consumer_panicked :: "'h consumer \<Rightarrow> bool" where
  "Consumer_panicked cn = (cn_status cn = STAGE_PANICKED)"

definition Consumer_is_healthy :: "'h consumer \<Rightarrow> bool" where
  "Consumer_is_healthy cn = (cn_status cn = STAGE_RUNNING)"

definition Consumer_drop :: "'h consumer \<Rightarrow> 'h consumer" where
  "Consumer_drop cn = cn\<lparr>cn_shutdown := True\<rparr>"

section \<open>A quiet batch\<close>

text \<open>The calls for \<open>n\<close> messages from position \<open>c\<close> of the log, the last one marked.\<close>

definition batch_calls :: "'a list \<Rightarrow> nat \<Rightarrow> nat \<Rightarrow> ('a \<times> u64 \<times> bool) list" where
  "batch_calls log c n = map (\<lambda>j. (log ! (c + j), of_nat (c + j), Suc j = n)) [0..<n]"

lemma batch_calls_Suc:
  "batch_calls log c (Suc n) = (log ! c, of_nat c, n = 0) # batch_calls log (Suc c) n"
  unfolding batch_calls_def upt_conv_Cons [OF zero_less_Suc] map_Suc_upt [symmetric] by auto

lemma length_batch_calls [simp]: "length (batch_calls log c n) = n"
  by (simp add: batch_calls_def)

lemma last_iteration:
  fixes batch :: u64
  assumes "n < 2 ^ 64"
  shows "batch - of_nat (Suc n) + 1 = batch \<longleftrightarrow> n = 0"
proof -
  have "batch - of_nat (Suc n) + 1 = batch \<longleftrightarrow> (of_nat n :: u64) = 0" by (simp add: algebra_simps)
  also have "\<dots> \<longleftrightarrow> n = 0" using assms unat_of_nat_u64 [of n] by (auto simp: word_unat_eq_iff)
  finally show ?thesis .
qed

lemma at_log_small: "at_log k log st \<Longrightarrow> length log < 2 ^ 63 - 1"
  by (cases st) (auto simp: at_log_def log_fits_def)

lemma drain_loop_quiet:
  assumes "at_log k log (s, m)" "sub_pos (s, m) + n \<le> length log" "length log \<le> sub_pos (s, m) + k"
    and "f = (\<lambda>h c. Inr (g h c))"
  shows "\<exists>s' m'. drain_loop f n batch [] d s m hs =
      (Inr (d + of_nat n), s', m', foldl g hs (batch_calls log (sub_pos (s, m)) n), []) \<and>
    at_log k log (s', m') \<and> sub_pos (s', m') = sub_pos (s, m) + n"
  using assms(1-3)
proof (induction n arbitrary: d s m hs)
  case 0
  then show ?case by (simp add: batch_calls_def)
next
  case (Suc n)
  let ?c = "sub_pos (s, m)"
  obtain res s1 m1 where recv: "Subscriber_try_recv s m = (res, s1, m1)" by (metis prod_cases3)
  have "(res, sub_pos (s1, m1)) = spec_recv k log ?c" using sub_recv.recv_spec [OF Suc.prems(1)] recv by simp
  then have res: "res = Inr (log ! ?c)" "sub_pos (s1, m1) = Suc ?c"
    using Suc.prems(2,3) by (auto simp: spec_recv_def)
  have g1: "at_log k log (s1, m1)" using sub_recv.recv_good [OF Suc.prems(1)] recv by simp
  have seq: "sub_cursor s = of_nat ?c" by (simp add: sub_pos_def)
  have "n < 2 ^ 64" using Suc.prems(2) at_log_small [OF Suc.prems(1)] by simp
  then have step: "drain_loop f (Suc n) batch [] d s m hs =
      drain_loop f n batch [] (d + 1) s1 m1 (g hs (log ! ?c, of_nat ?c, n = 0))"
    using recv res(1) assms(4) last_iteration [of n batch] seq by (simp add: Let_def)
  have "d + 1 + of_nat n = d + of_nat (Suc n)" by simp
  moreover have "\<exists>s' m'. drain_loop f n batch [] (d + 1) s1 m1 (g hs (log ! ?c, of_nat ?c, n = 0)) =
      (Inr (d + 1 + of_nat n), s', m', foldl g (g hs (log ! ?c, of_nat ?c, n = 0)) (batch_calls log (sub_pos (s1, m1)) n), []) \<and>
    at_log k log (s', m') \<and> sub_pos (s', m') = sub_pos (s1, m1) + n"
    using Suc.IH [OF g1] Suc.prems(2,3) res(2) by simp
  ultimately show ?case unfolding step res(2) batch_calls_Suc by auto
qed

lemma drain_batch_quiet:
  assumes at: "at_log k log (s, m)" and f: "f = (\<lambda>h c. Inr (g h c))"
  defines "n \<equiv> length log - sub_pos (s, m)"
  defines "calls \<equiv> if k < n then batch_calls log (length log - k) (k - 1) else batch_calls log (sub_pos (s, m)) n"
  shows "\<exists>s' m'. drain_batch f [] s m hs = (Inr (of_nat (length calls)), s', m', foldl g hs calls, []) \<and>
    at_log k log (s', m') \<and> sub_pos (s', m') = (if k < n then length log - 1 else length log)"
proof -
  obtain r h where m: "m = (r, h)" by (cases m)
  have pend: "unat (Subscriber_pending s r) = min n k" using pending_spec at unfolding m n_def by fast
  have c: "sub_pos (s, m) \<le> length log" using sub_recv.good_pos [OF at] .
  have k: "0 < k" using sub_recv.good_cap [OF at] .
  show ?thesis
  proof (cases "k < n")
    case False
    then have "unat (Subscriber_pending s r) = n" using pend by simp
    then have "drain_batch f [] s m hs = drain_loop f n (Subscriber_pending s r) [] 0 s m hs"
      unfolding drain_batch_def Let_def m by (cases n) (auto simp: unat_eq_zero)
    moreover have "\<exists>s' m'. drain_loop f n (Subscriber_pending s r) [] 0 s m hs =
        (Inr (0 + of_nat n), s', m', foldl g hs (batch_calls log (sub_pos (s, m)) n), []) \<and>
        at_log k log (s', m') \<and> sub_pos (s', m') = sub_pos (s, m) + n"
      using c False f by (intro drain_loop_quiet [OF at]) (auto simp: n_def)
    ultimately show ?thesis using False c by (auto simp: calls_def n_def)
  next
    case True
    then obtain j where j: "k = Suc j" "unat (Subscriber_pending s r) = Suc j" using pend k by (cases k) auto
    obtain res s1 m1 where recv: "Subscriber_try_recv s m = (res, s1, m1)" by (metis prod_cases3)
    have "(res, sub_pos (s1, m1)) = spec_recv k log (sub_pos (s, m))" using sub_recv.recv_spec [OF at] recv by simp
    then obtain l where res: "res = Inl (Lagged l)" "sub_pos (s1, m1) = length log - k"
      using True by (auto simp: spec_recv_def n_def split: if_splits)
    have g1: "at_log k log (s1, m1)" using sub_recv.recv_good [OF at] recv by simp
    have "Subscriber_pending s r \<noteq> 0" using j(2) by auto
    then have "drain_batch f [] s m hs = drain_loop f (Suc j) (Subscriber_pending s r) [] 0 s m hs"
      unfolding drain_batch_def Let_def m by (simp add: j(2))
    then have "drain_batch f [] s m hs = drain_loop f j (Subscriber_pending s r) [] 0 s1 m1 hs"
      using recv res(1) by (simp add: Let_def)
    moreover have "\<exists>s' m'. drain_loop f j (Subscriber_pending s r) [] 0 s1 m1 hs =
        (Inr (0 + of_nat j), s', m', foldl g hs (batch_calls log (sub_pos (s1, m1)) j), []) \<and>
        at_log k log (s', m') \<and> sub_pos (s', m') = sub_pos (s1, m1) + j"
      using True j(1) res(2) f by (intro drain_loop_quiet [OF g1]) (auto simp: n_def)
    ultimately show ?thesis using True j(1) res(2) by (auto simp: calls_def n_def)
  qed
qed

section \<open>Properties\<close>

text \<open>
  C36: \<^bold>\<open>A batch hands the handler the pending messages in order.\<close>  While nothing is published, a batch calls
  the handler once for each pending message with its sequence number, marks exactly the last call as the
  end of the batch and returns their number.  A subscriber that had been lapped, however, spends one
  iteration of the batch on the jump: the newest message is then left for the next batch.
\<close>

theorem drain_batch_calls:
  assumes "at_log k log (s, m)" "f = (\<lambda>h c. Inr (g h c))"
    and "calls = (if k < length log - sub_pos (s, m) then batch_calls log (length log - k) (k - 1)
                  else batch_calls log (sub_pos (s, m)) (length log - sub_pos (s, m)))"
  shows "\<exists>s' m'. drain_batch f [] s m hs = (Inr (of_nat (length calls)), s', m', foldl g hs calls, []) \<and>
    sub_pos (s', m') = (if k < length log - sub_pos (s, m) then length log - 1 else length log)"
  using drain_batch_quiet [OF assms(1,2), where hs = hs] unfolding assms(3) by blast

theorem drain_batch_calls_witness:
  "\<exists>s' m'. drain_batch (\<lambda>h c. Inr (h @ [c])) [] (demo_sub 0) (demo_ring [1, 2, 3, 4, 5, 6], []) [] =
     (Inr 3, s', m', [(3, 2, False), (4, 3, False), (5, 4, True)], []) \<and> sub_pos (s', m') = 5"
proof -
  have at: "at_log 4 [1, 2, 3, 4, 5, 6] (demo_sub 0, (demo_ring [1, 2, 3, 4, 5, 6], []))"
    by (rule demo_at_log) (simp_all add: log_fits_def)
  have pos: "sub_pos (demo_sub 0, (demo_ring [1, 2, 3, 4, 5, 6], [])) = 0" by (simp add: sub_pos_def demo_sub_def)
  have calls: "batch_calls [1, 2, 3, 4, 5, 6 :: u64] 2 3 = [(3, 2, False), (4, 3, False), (5, 4, True)]" by code_simp
  from drain_batch_calls [OF at, of "\<lambda>h c. Inr (h @ [c])" "\<lambda>h c. h @ [c]", OF refl refl, of "[]"]
  show ?thesis using calls by (simp add: pos numeral_eq_Suc)
qed

text \<open>The calls of a batch while nothing is published: a lapped subscriber spends one iteration on the jump.\<close>

definition quiet_calls :: "nat \<Rightarrow> 'a list \<Rightarrow> nat \<Rightarrow> ('a \<times> u64 \<times> bool) list" where
  "quiet_calls k log pos =
     (if k < length log - pos then batch_calls log (length log - k) (k - 1) else batch_calls log pos (length log - pos))"

text \<open>
  C37: \<^bold>\<open>Shutdown ends a consumer.\<close>  A running consumer that finds the shutdown flag set ends in that iteration,
  whatever other threads publish meanwhile and whatever its handler does; it is reported as panicked exactly when it
  drains and the handler panics in the drain.  If nothing is published meanwhile and the handler does not panic, then
  with the drain policy the handler has been called for every message already published, unless the subscriber had been
  lapped: then it has been called for the retained messages except the newest, which is lost.  With the immediate
  policy there is no call.  The subscriber is dropped.
\<close>

theorem consumer_shutdown_ends:
  assumes "cn_status cn = STAGE_RUNNING" "cn_shutdown cn"
  shows "Consumer_join (fst (fst (consumer_iteration arch c f es pkg cn m))) = Some () \<and>
    (Consumer_panicked (fst (fst (consumer_iteration arch c f es pkg cn m))) \<longleftrightarrow>
       cn_drain cn = DrainAll \<and> (\<exists>e. fst (drain_batch f es (cn_sub cn) m (cn_handler cn)) = Inl e)) \<and>
    (\<forall>k log g. at_log k log (cn_sub cn, m) \<and> f = (\<lambda>h c. Inr (g h c)) \<and> es = [] \<longrightarrow>
       (\<exists>s' m'. consumer_iteration arch c f es pkg cn m =
          ((cn\<lparr>cn_sub := s', cn_status := STAGE_COMPLETED,
               cn_handler := (if cn_drain cn = DrainAll
                              then foldl g (cn_handler cn) (quiet_calls k log (sub_pos (cn_sub cn, m)))
                              else cn_handler cn)\<rparr>, Subscriber_drop s' m'), pkg, []) \<and>
          sub_pos (s', m') = (if cn_drain cn \<noteq> DrainAll then sub_pos (cn_sub cn, m)
                              else if k < length log - sub_pos (cn_sub cn, m) then length log - 1 else length log)))"
proof (cases "cn_drain cn = DrainAll")
  case True
  obtain res s1 m1 hs1 es1 where d: "drain_batch f es (cn_sub cn) m (cn_handler cn) = (res, s1, m1, hs1, es1)" by (metis prod_cases5)
  have "\<exists>s' m'. consumer_iteration arch c f es pkg cn m =
      ((cn\<lparr>cn_sub := s', cn_status := STAGE_COMPLETED,
           cn_handler := foldl g (cn_handler cn) (quiet_calls k log (sub_pos (cn_sub cn, m)))\<rparr>, Subscriber_drop s' m'), pkg, []) \<and>
      sub_pos (s', m') = (if k < length log - sub_pos (cn_sub cn, m) then length log - 1 else length log)"
    if quiet: "at_log k log (cn_sub cn, m)" "f = (\<lambda>h c. Inr (g h c))" "es = []" for k log g
  proof -
    obtain s' m' where "drain_batch f [] (cn_sub cn) m (cn_handler cn) =
        (Inr (of_nat (length (quiet_calls k log (sub_pos (cn_sub cn, m))))), s', m',
         foldl g (cn_handler cn) (quiet_calls k log (sub_pos (cn_sub cn, m))), [])"
        "sub_pos (s', m') = (if k < length log - sub_pos (cn_sub cn, m) then length log - 1 else length log)"
      using drain_batch_quiet [OF quiet(1,2), where hs = "cn_handler cn"] unfolding quiet_calls_def by blast
    then show ?thesis using assms True quiet(3)
      by (intro exI [of _ s'] exI [of _ m']) (simp add: consumer_iteration_def consumer_end_def)
  qed
  then show ?thesis using assms True d
    by (cases res) (auto simp: consumer_iteration_def consumer_end_def Consumer_join_def Consumer_panicked_def stage_status)
next
  case False
  then have "consumer_iteration arch c f es pkg cn m =
      ((cn\<lparr>cn_sub := cn_sub cn, cn_handler := cn_handler cn, cn_status := STAGE_COMPLETED\<rparr>, Subscriber_drop (cn_sub cn) m), pkg, es)"
    using assms by (simp add: consumer_iteration_def consumer_end_def)
  moreover obtain r h where "m = (r, h)" by (cases m)
  ultimately show ?thesis using False
    by (auto simp: Consumer_join_def Consumer_panicked_def stage_status intro!: exI [of _ "cn_sub cn"] exI [of _ r] exI [of _ h])
qed

theorem consumer_shutdown_ends_witness:
  "\<exists>s' m'. consumer_iteration X86_64 \<lparr>cpuid_ecx = 0, rdtsc = 0\<rparr> (\<lambda>h c. Inr (h @ [c])) [] 0
      (Consumer_shutdown (Consumer_spawn (demo_sub 3) BusySpin DrainAll [])) (demo_ring [1, 2, 3, 4, 5], []) =
    ((\<lparr>cn_sub = s', cn_strategy = BusySpin, cn_drain = DrainAll, cn_handler = [(4, 3, False), (5, 4, True)], cn_idle = 0,
       cn_hints = [], cn_shutdown = True, cn_status = STAGE_COMPLETED\<rparr>, Subscriber_drop s' m'), 0, []) \<and>
   sub_pos (s', m') = 5"
proof -
  let ?cn = "Consumer_shutdown (Consumer_spawn (demo_sub 3) BusySpin DrainAll [])"
  let ?log = "[1, 2, 3, 4, 5 :: u64]"
  have sub: "cn_sub ?cn = demo_sub 3" "cn_status ?cn = STAGE_RUNNING" "cn_shutdown ?cn" "cn_drain ?cn = DrainAll" "cn_handler ?cn = []"
    by (simp_all add: Consumer_shutdown_def Consumer_spawn_def)
  have at: "at_log 4 ?log (cn_sub ?cn, (demo_ring ?log, []))" unfolding sub by (rule demo_at_log) (simp_all add: log_fits_def)
  have pos: "sub_pos (cn_sub ?cn, (demo_ring ?log, [])) = 3" unfolding sub by (simp add: sub_pos_def demo_sub_def)
  have calls: "quiet_calls 4 ?log 3 = [(4, 3, False), (5, 4, True)]" by code_simp
  note ends = consumer_shutdown_ends [OF sub(2,3), THEN conjunct2, THEN conjunct2, rule_format, OF conjI [OF at conjI [OF refl refl]]]
  from ends [where g = "\<lambda>h c. h @ [c]" and arch = X86_64 and c = "\<lparr>cpuid_ecx = 0, rdtsc = 0\<rparr>" and pkg = 0] show ?thesis
    using calls unfolding pos by (simp add: Consumer_shutdown_def Consumer_spawn_def numeral_eq_Suc)
qed

end
