(* ===== verification/Derive.thy ===== *)
theory Derive
  imports Photon_Prelude
begin

text \<open>
  The derive macros of \<^verbatim>\<open>src/photon-ring-derive/src/lib.rs\<close>: how \<^verbatim>\<open>Message\<close> classifies the fields of a
  struct, the wire struct and the conversions it generates, and the compile-time assertions of both
  macros.

  The macro's input is the parsed struct; a Rust type is its syntax tree, of which the macro looks only at
  the last path segment, its generic arguments and arrays.  The generated code is given meaning on
  values: integers are mathematical integers in the range of their type and an \<^verbatim>\<open>as\<close> cast is reduction
  modulo the target width; floats are their bit patterns; an array or another type that passes through is
  a list of bytes.  Sizes and alignments of primitive types are those of a 64-bit target; those of a
  user's type are an argument, as the compiler knows them and the macro does not.  The implementations of
  \<^verbatim>\<open>Pod\<close> are those of \<^verbatim>\<open>src/src/pod.rs\<close>.
\<close>

section \<open>Types as the macro sees them\<close>

datatype rust_ty = TPath "(string \<times> generic_arg list) option" | TArray rust_ty nat | TTuple "rust_ty list" | TOther
  and generic_arg = GType rust_ty | GOther

definition prim :: "string \<Rightarrow> rust_ty" where
  "prim n = TPath (Some (n, []))"

text \<open>A field with its attributes: the attribute's path and, when it parses as one, its identifier argument.\<close>

record field =
  fd_name :: string
  fd_ty :: rust_ty
  fd_attrs :: "(string \<times> string option) list"

definition type_name :: "rust_ty \<Rightarrow> string option" where
  "type_name ty = (case ty of TPath (Some (seg, _)) \<Rightarrow> Some seg | _ \<Rightarrow> None)"

fun align_rank :: "rust_ty \<Rightarrow> nat" where
  "align_rank (TArray elem n) = align_rank elem"
| "align_rank ty =
     (case type_name ty of
        Some n \<Rightarrow>
          if n \<in> {''u128'', ''i128''} then 0
          else if n \<in> {''u64'', ''i64'', ''f64'', ''usize'', ''isize''} then 1
          else if n \<in> {''u32'', ''f32''} then 2
          else if n = ''u16'' then 3
          else if n = ''u8'' then 4
          else 0
      | None \<Rightarrow> 0)"

section \<open>Classification\<close>

text \<open>The pairs of conversion snippets of an \<^verbatim>\<open>Option\<close> field: \<^verbatim>\<open>to_value\<close> and \<^verbatim>\<open>from_value\<close>.\<close>

datatype opt_conv =
    ConvBool
  | ConvBits
  | ConvSame
  | ConvCast string string

datatype field_kind =
    Passthrough
  | KBool
  | KUsize
  | KIsize
  | KOption string opt_conv bool
  | KEnum
  | Unsupported
  | UnsupportedOption string

definition numeric_names :: "string list" where
  "numeric_names = [''u8'', ''u16'', ''u32'', ''u64'', ''u128'', ''i8'', ''i16'', ''i32'', ''i64'', ''i128'', ''f32'', ''f64'']"

definition classify_option :: "string \<Rightarrow> field_kind" where
  "classify_option n =
     (if n = ''bool'' then KOption ''u8'' ConvBool False
      else if n = ''f32'' then KOption ''u32'' ConvBits False
      else if n = ''f64'' then KOption ''u64'' ConvBits False
      else if n = ''u128'' then KOption ''u128'' ConvSame False
      else if n = ''i128'' then KOption ''u128'' (ConvCast ''u128'' ''i128'') False
      else if n = ''usize'' then KOption ''u64'' (ConvCast ''u64'' ''usize'') True
      else if n = ''isize'' then KOption ''i64'' (ConvCast ''i64'' ''isize'') True
      else if n \<in> {''u8'', ''u16'', ''u32'', ''u64''} then KOption ''u64'' (ConvCast ''u64'' n) False
      else if n \<in> {''i8'', ''i16'', ''i32'', ''i64''} then KOption ''i64'' (ConvCast ''i64'' n) False
      else UnsupportedOption n)"

definition classify :: "rust_ty \<Rightarrow> field_kind" where
  "classify ty =
     (case ty of
        TArray _ _ \<Rightarrow> Passthrough
      | TPath None \<Rightarrow> Unsupported
      | TPath (Some (n, args)) \<Rightarrow>
          if n \<in> set numeric_names then Passthrough
          else if n = ''bool'' then KBool
          else if n = ''usize'' then KUsize
          else if n = ''isize'' then KIsize
          else if n = ''Option'' then
            (case args of
               GType inner # _ \<Rightarrow> classify_option (case type_name inner of Some m \<Rightarrow> m | None \<Rightarrow> [])
             | _ \<Rightarrow> UnsupportedOption [])
          else Unsupported
      | TTuple _ \<Rightarrow> Unsupported
      | TOther \<Rightarrow> Unsupported)"

definition is_explicit_enum :: "field \<Rightarrow> bool" where
  "is_explicit_enum fd = list_ex (\<lambda>(path, arg). path = ''photon'' \<and> arg = Some ''as_enum'') (fd_attrs fd)"

definition kind_of :: "field \<Rightarrow> field_kind" where
  "kind_of fd = (if is_explicit_enum fd then KEnum else classify (fd_ty fd))"

section \<open>The generated wire struct\<close>

record wire_field =
  wf_name :: string
  wf_ty :: rust_ty
  wf_rank :: nat

datatype compile_error =
    UnsupportedField rust_ty
  | UnsupportedOptionField string string
  | NotAStruct
  | NotNamedFields
  | NotReprC

text \<open>The arm of the loop for one field: the wire fields it contributes.\<close>

definition wire_fields_of :: "field \<Rightarrow> compile_error + wire_field list" where
  "wire_fields_of fd =
     (let n = fd_name fd in
      case kind_of fd of
        Passthrough \<Rightarrow> Inr [\<lparr>wf_name = n, wf_ty = fd_ty fd, wf_rank = align_rank (fd_ty fd)\<rparr>]
      | KBool \<Rightarrow> Inr [\<lparr>wf_name = n, wf_ty = prim ''u8'', wf_rank = 4\<rparr>]
      | KUsize \<Rightarrow> Inr [\<lparr>wf_name = n, wf_ty = prim ''u64'', wf_rank = 1\<rparr>]
      | KIsize \<Rightarrow> Inr [\<lparr>wf_name = n, wf_ty = prim ''i64'', wf_rank = 1\<rparr>]
      | KOption wire_ty conv is_usize_isize \<Rightarrow>
          Inr [\<lparr>wf_name = n @ ''_value'', wf_ty = prim wire_ty,
                wf_rank = (if wire_ty = ''u128'' then 0 else if wire_ty = ''u32'' then 2 else if wire_ty = ''u16'' then 3
                           else if wire_ty = ''u8'' then 4 else 1)\<rparr>,
               \<lparr>wf_name = n @ ''_has'', wf_ty = prim ''u8'', wf_rank = 4\<rparr>]
      | KEnum \<Rightarrow> Inr [\<lparr>wf_name = n, wf_ty = prim ''u8'', wf_rank = 4\<rparr>]
      | Unsupported \<Rightarrow> Inl (UnsupportedField (fd_ty fd))
      | UnsupportedOption inner \<Rightarrow> Inl (UnsupportedOptionField n inner))"

fun collect_wire_fields :: "field list \<Rightarrow> compile_error + wire_field list" where
  "collect_wire_fields [] = Inr []"
| "collect_wire_fields (fd # fds) =
     (case wire_fields_of fd of
        Inl e \<Rightarrow> Inl e
      | Inr ws \<Rightarrow> (case collect_wire_fields fds of Inl e \<Rightarrow> Inl e | Inr ws' \<Rightarrow> Inr (ws @ ws')))"

definition has_enum_fields :: "field list \<Rightarrow> bool" where
  "has_enum_fields fds = list_ex (\<lambda>fd. kind_of fd = KEnum) fds"

definition has_usize_isize :: "field list \<Rightarrow> bool" where
  "has_usize_isize fds =
     list_ex (\<lambda>fd. case kind_of fd of KUsize \<Rightarrow> True | KIsize \<Rightarrow> True | KOption _ _ b \<Rightarrow> b | _ \<Rightarrow> False) fds"

text \<open>The assertions pushed for the fields, and the one about \<^verbatim>\<open>usize\<close>.\<close>

datatype assertion = AssertPod rust_ty | AssertOneByte string rust_ty | AssertUsizeFits

definition field_assertions :: "field \<Rightarrow> assertion list" where
  "field_assertions fd =
     (case kind_of fd of
        Passthrough \<Rightarrow> [AssertPod (fd_ty fd)]
      | KEnum \<Rightarrow> [AssertOneByte (fd_name fd) (fd_ty fd)]
      | _ \<Rightarrow> [])"

section \<open>Layout\<close>

text \<open>Sizes and alignments; \<open>user\<close> gives them for the types the macro cannot see through.\<close>

type_synonym type_layout = "nat \<times> nat"

definition prim_layout :: "string \<Rightarrow> type_layout option" where
  "prim_layout n =
     (if n \<in> {''u8'', ''i8'', ''bool''} then Some (1, 1)
      else if n \<in> {''u16'', ''i16''} then Some (2, 2)
      else if n \<in> {''u32'', ''i32'', ''f32''} then Some (4, 4)
      else if n \<in> {''u64'', ''i64'', ''f64'', ''usize'', ''isize''} then Some (8, 8)
      else if n \<in> {''u128'', ''i128''} then Some (16, 16)
      else None)"

fun layout_of :: "(rust_ty \<Rightarrow> type_layout) \<Rightarrow> rust_ty \<Rightarrow> type_layout" where
  "layout_of user (TArray elem n) = (let (s, a) = layout_of user elem in (n * s, a))"
| "layout_of user (TPath p) =
     (case type_name (TPath p) of
        Some n \<Rightarrow> (case prim_layout n of Some l \<Rightarrow> l | None \<Rightarrow> user (TPath p))
      | None \<Rightarrow> user (TPath p))"
| "layout_of user (TTuple ts) = user (TTuple ts)"
| "layout_of user TOther = user TOther"

definition round_up :: "nat \<Rightarrow> nat \<Rightarrow> nat" where
  "round_up n a = n + (a - n mod a) mod a"

text \<open>The \<^verbatim>\<open>repr(C)\<close> layout: every field at the next multiple of its alignment, the size a multiple of the
  largest alignment.\<close>

fun repr_c_offsets :: "nat \<Rightarrow> type_layout list \<Rightarrow> nat list" where
  "repr_c_offsets off [] = []"
| "repr_c_offsets off ((s, a) # ls) = round_up off a # repr_c_offsets (round_up off a + s) ls"

fun packed_offsets :: "nat \<Rightarrow> type_layout list \<Rightarrow> nat list" where
  "packed_offsets off [] = []"
| "packed_offsets off ((s, a) # ls) = off # packed_offsets (off + s) ls"

fun repr_c_end :: "nat \<Rightarrow> type_layout list \<Rightarrow> nat" where
  "repr_c_end off [] = off"
| "repr_c_end off ((s, a) # ls) = repr_c_end (round_up off a + s) ls"

definition max_align :: "type_layout list \<Rightarrow> nat" where
  "max_align ls = foldl (\<lambda>a l. if snd l > a then snd l else a) 1 ls"

definition repr_c_size :: "type_layout list \<Rightarrow> nat" where
  "repr_c_size ls = round_up (repr_c_end 0 ls) (max_align ls)"

definition size_sum :: "type_layout list \<Rightarrow> nat" where
  "size_sum ls = sum_list (map fst ls)"

definition tail_pad :: "type_layout list \<Rightarrow> nat" where
  "tail_pad ls = (let sum = size_sum ls; align = max_align ls in (align - sum mod align) mod align)"

section \<open>\<^verbatim>\<open>derive_message\<close> and \<^verbatim>\<open>derive_pod\<close>\<close>

datatype data_kind = StructNamed "field list" | StructUnnamed "rust_ty list" | StructUnit | NotStruct

text \<open>The emitted items: the wire struct's name and fields, the types of the expressions that are cast with
  \<^verbatim>\<open>as u8\<close>, whether the way back is the safe \<^verbatim>\<open>From\<close>, and the assertions.\<close>

record message_code =
  mc_wire_name :: string
  mc_wire_fields :: "wire_field list"
  mc_casts :: "rust_ty list"
  mc_safe_from :: bool
  mc_assertions :: "assertion list"

text \<open>The emission order: a stable sort of the wire fields by rank.\<close>

definition emit_order :: "wire_field list \<Rightarrow> wire_field list" where
  "emit_order ws = sort_key wf_rank ws"

definition derive_message :: "string \<Rightarrow> data_kind \<Rightarrow> compile_error + message_code" where
  "derive_message name data =
     (case data of
        StructNamed fds \<Rightarrow>
          (case collect_wire_fields fds of
             Inl e \<Rightarrow> Inl e
           | Inr ws \<Rightarrow>
               Inr \<lparr>mc_wire_name = name @ ''Wire'', mc_wire_fields = emit_order ws,
                    mc_casts = map fd_ty (filter (\<lambda>fd. kind_of fd = KEnum) fds),
                    mc_safe_from = (\<not> has_enum_fields fds),
                    mc_assertions = concat (map field_assertions fds) @ (if has_usize_isize fds then [AssertUsizeFits] else [])\<rparr>)
      | StructUnnamed _ \<Rightarrow> Inl NotNamedFields
      | StructUnit \<Rightarrow> Inl NotNamedFields
      | NotStruct \<Rightarrow> Inl NotAStruct)"

text \<open>The field names of the generated struct, the explicit tail padding last.\<close>

definition wire_names :: "message_code \<Rightarrow> string list" where
  "wire_names mc = map wf_name (mc_wire_fields mc) @ [''_pad'']"

text \<open>The no-padding assertion that the generated code makes about its wire struct, tail padding included.\<close>

definition wire_layouts :: "(rust_ty \<Rightarrow> type_layout) \<Rightarrow> message_code \<Rightarrow> type_layout list" where
  "wire_layouts user mc = map (layout_of user \<circ> wf_ty) (mc_wire_fields mc)"

definition message_assertion :: "(rust_ty \<Rightarrow> type_layout) \<Rightarrow> message_code \<Rightarrow> bool" where
  "message_assertion user mc =
     (let ls = wire_layouts user mc; pad = tail_pad ls
      in repr_c_size (ls @ [(pad, 1)]) = size_sum ls + pad)"

text \<open>The implementations of \<^verbatim>\<open>Pod\<close> in \<^verbatim>\<open>src/src/pod.rs\<close>; \<open>user_pod\<close> says which other types the user implements it for.\<close>

fun Pod_impl :: "(rust_ty \<Rightarrow> bool) \<Rightarrow> rust_ty \<Rightarrow> bool" where
  "Pod_impl user_pod (TPath p) =
     (case p of
        Some (n, _) \<Rightarrow> n \<in> set [''u8'', ''u16'', ''u32'', ''u64'', ''u128'', ''i8'', ''i16'', ''i32'', ''i64'', ''i128'',
                              ''f32'', ''f64'', ''usize'', ''isize''] \<or> user_pod (TPath p)
      | None \<Rightarrow> user_pod (TPath p))"
| "Pod_impl user_pod (TArray elem n) = Pod_impl user_pod elem"
| "Pod_impl user_pod (TTuple []) = True"
| "Pod_impl user_pod (TTuple [a]) = Pod_impl user_pod a"
| "Pod_impl user_pod (TTuple (a # b # ts)) = False"
| "Pod_impl user_pod TOther = user_pod TOther"

text \<open>What the compiler decides about the emitted assertions.\<close>

fun assertion_holds :: "(rust_ty \<Rightarrow> type_layout) \<Rightarrow> (rust_ty \<Rightarrow> bool) \<Rightarrow> assertion \<Rightarrow> bool" where
  "assertion_holds user user_pod (AssertPod ty) = Pod_impl user_pod ty"
| "assertion_holds user user_pod (AssertOneByte n ty) = (fst (layout_of user ty) = 1)"
| "assertion_holds user user_pod AssertUsizeFits =
     (fst (layout_of user (prim ''usize'')) \<le> fst (layout_of user (prim ''u64'')))"

text \<open>The types whose values can be cast with \<^verbatim>\<open>as u8\<close>: the primitives, and those the compiler knows as a
  fieldless enum (or an alias of a castable type), which \<open>user_cast\<close> says.\<close>

fun castable_u8 :: "(rust_ty \<Rightarrow> bool) \<Rightarrow> rust_ty \<Rightarrow> bool" where
  "castable_u8 user_cast (TPath p) =
     (case type_name (TPath p) of
        Some n \<Rightarrow> prim_layout n \<noteq> None \<or> user_cast (TPath p)
      | None \<Rightarrow> user_cast (TPath p))"
| "castable_u8 user_cast (TArray elem n) = False"
| "castable_u8 user_cast (TTuple ts) = False"
| "castable_u8 user_cast TOther = user_cast TOther"

text \<open>The generated items compile when the assertions hold, the wire struct declares no field twice and every
  \<^verbatim>\<open>as u8\<close> is a cast the language has.\<close>

definition message_compiles ::
  "(rust_ty \<Rightarrow> type_layout) \<Rightarrow> (rust_ty \<Rightarrow> bool) \<Rightarrow> (rust_ty \<Rightarrow> bool) \<Rightarrow> message_code \<Rightarrow> bool" where
  "message_compiles user user_pod user_cast mc =
     (list_all (assertion_holds user user_pod) (mc_assertions mc) \<and> distinct (wire_names mc)
      \<and> list_all (castable_u8 user_cast) (mc_casts mc) \<and> message_assertion user mc)"

text \<open>An attribute of the struct: its path and, for a list, the nested items, as in \<^verbatim>\<open>repr(C, align(8))\<close>.  Which of
  their paths \<^verbatim>\<open>parse_nested_meta\<close> of the \<^verbatim>\<open>syn\<close> crate hands to the closure is the argument \<open>visited\<close>.\<close>

datatype repr_hint = Hint string | HintArg string nat

primrec hint_path :: "repr_hint \<Rightarrow> string" where
  "hint_path (Hint p) = p"
| "hint_path (HintArg p n) = p"

type_synonym struct_attr = "string \<times> repr_hint list option"

definition has_repr_c :: "(repr_hint list \<Rightarrow> string list) \<Rightarrow> struct_attr list \<Rightarrow> bool" where
  "has_repr_c visited attrs =
     list_ex (\<lambda>(path, list). path = ''repr'' \<and>
       (case list of Some nested \<Rightarrow> list_ex (\<lambda>p. p = ''C'') (visited nested) | None \<Rightarrow> False)) attrs"

record pod_code =
  pc_assertions :: "assertion list"
  pc_field_types :: "rust_ty list"

definition pod_code_of :: "rust_ty list \<Rightarrow> pod_code" where
  "pod_code_of tys = \<lparr>pc_assertions = map AssertPod tys, pc_field_types = tys\<rparr>"

definition derive_pod ::
  "(repr_hint list \<Rightarrow> string list) \<Rightarrow> struct_attr list \<Rightarrow> data_kind \<Rightarrow> compile_error + pod_code" where
  "derive_pod visited attrs data =
     (if \<not> has_repr_c visited attrs then Inl NotReprC
      else case data of
        StructNamed fds \<Rightarrow> Inr (pod_code_of (map fd_ty fds))
      | StructUnnamed tys \<Rightarrow> Inr (pod_code_of tys)
      | StructUnit \<Rightarrow> Inr (pod_code_of [])
      | NotStruct \<Rightarrow> Inl NotAStruct)"

text \<open>The layout of the user's own struct: the hints of all its \<^verbatim>\<open>repr\<close> attributes together, \<^verbatim>\<open>packed\<close> lowering the
  alignment of every field and \<^verbatim>\<open>align\<close> raising that of the struct.  A declaration that the compiler refuses
  whatever the macro emits (both at once, two different packings, a number that is no power of two) is outside
  the model.\<close>

fun repr_hints :: "struct_attr list \<Rightarrow> repr_hint list" where
  "repr_hints [] = []"
| "repr_hints ((path, Some hs) # attrs) = (if path = ''repr'' then hs @ repr_hints attrs else repr_hints attrs)"
| "repr_hints ((path, None) # attrs) = repr_hints attrs"

fun pack_align :: "repr_hint list \<Rightarrow> nat \<Rightarrow> nat" where
  "pack_align [] a = a"
| "pack_align (Hint p # hs) a = pack_align hs (if p = ''packed'' then min a 1 else a)"
| "pack_align (HintArg p n # hs) a = pack_align hs (if p = ''packed'' then min a n else a)"

fun struct_align :: "repr_hint list \<Rightarrow> nat \<Rightarrow> nat" where
  "struct_align [] a = a"
| "struct_align (Hint p # hs) a = struct_align hs a"
| "struct_align (HintArg p n # hs) a = struct_align hs (if p = ''align'' then max a n else a)"

definition struct_layouts :: "struct_attr list \<Rightarrow> type_layout list \<Rightarrow> type_layout list" where
  "struct_layouts attrs ls = map (\<lambda>(s, a). (s, pack_align (repr_hints attrs) a)) ls"

definition struct_size :: "struct_attr list \<Rightarrow> type_layout list \<Rightarrow> nat" where
  "struct_size attrs ls =
     (let ls' = struct_layouts attrs ls
      in round_up (repr_c_end 0 ls') (struct_align (repr_hints attrs) (max_align ls')))"

definition pod_assertion :: "(rust_ty \<Rightarrow> type_layout) \<Rightarrow> struct_attr list \<Rightarrow> pod_code \<Rightarrow> bool" where
  "pod_assertion user attrs pc =
     (let ls = map (layout_of user) (pc_field_types pc) in struct_size attrs ls = size_sum ls)"

text \<open>The supertraits of \<^verbatim>\<open>Pod\<close>, which the emitted \<^verbatim>\<open>unsafe impl\<close> requires of the struct itself; the macro adds none of
  them, and \<open>impls\<close> says which ones the struct has.\<close>

datatype pod_bound = BCopy | BSend | BStatic

definition pod_bounds :: "pod_bound list" where
  "pod_bounds = [BCopy, BSend, BStatic]"

definition pod_compiles ::
  "(rust_ty \<Rightarrow> type_layout) \<Rightarrow> (rust_ty \<Rightarrow> bool) \<Rightarrow> (pod_bound \<Rightarrow> bool) \<Rightarrow> struct_attr list \<Rightarrow> pod_code \<Rightarrow> bool" where
  "pod_compiles user user_pod impls attrs pc =
     (list_all (assertion_holds user user_pod) (pc_assertions pc) \<and> pod_assertion user attrs pc
      \<and> list_all impls pod_bounds)"

section \<open>The generated conversions\<close>

datatype dval = DNum int | DBool bool | DOptNum "int option" | DOptBool "bool option" | DBytes "u8 list" | DEnum u8
datatype wval = WNum int | WBytes "u8 list"

definition int_type :: "string \<Rightarrow> (bool \<times> nat) option" where
  "int_type n =
     (if n = ''u8'' then Some (False, 8) else if n = ''u16'' then Some (False, 16)
      else if n = ''u32'' then Some (False, 32) else if n = ''u64'' then Some (False, 64)
      else if n = ''u128'' then Some (False, 128) else if n = ''usize'' then Some (False, 64)
      else if n = ''i8'' then Some (True, 8) else if n = ''i16'' then Some (True, 16)
      else if n = ''i32'' then Some (True, 32) else if n = ''i64'' then Some (True, 64)
      else if n = ''i128'' then Some (True, 128) else if n = ''isize'' then Some (True, 64)
      else None)"

text \<open>An \<^verbatim>\<open>as\<close> cast to an integer type.\<close>

definition cast_to :: "string \<Rightarrow> int \<Rightarrow> int" where
  "cast_to n v =
     (case int_type n of
        Some (False, b) \<Rightarrow> v mod 2 ^ b
      | Some (True, b) \<Rightarrow> (v + 2 ^ (b - 1)) mod 2 ^ b - 2 ^ (b - 1)
      | None \<Rightarrow> v)"

definition in_type :: "string \<Rightarrow> int \<Rightarrow> bool" where
  "in_type n v =
     (case int_type n of
        Some (False, b) \<Rightarrow> 0 \<le> v \<and> v < 2 ^ b
      | Some (True, b) \<Rightarrow> - (2 ^ (b - 1)) \<le> v \<and> v < 2 ^ (b - 1)
      | None \<Rightarrow> (n = ''f32'' \<and> 0 \<le> v \<and> v < 2 ^ 32) \<or> (n = ''f64'' \<and> 0 \<le> v \<and> v < 2 ^ 64))"

definition conv_to :: "opt_conv \<Rightarrow> int \<Rightarrow> int" where
  "conv_to c v = (case c of ConvCast wire inner \<Rightarrow> cast_to wire v | _ \<Rightarrow> v)"

definition conv_from :: "opt_conv \<Rightarrow> int \<Rightarrow> int" where
  "conv_from c raw = (case c of ConvCast wire inner \<Rightarrow> cast_to inner raw | _ \<Rightarrow> raw)"

text \<open>\<^verbatim>\<open>to_wire\<close>: the wire fields that one field of the source gives.\<close>

definition to_wire :: "field \<Rightarrow> dval \<Rightarrow> (string \<times> wval) list" where
  "to_wire fd v =
     (let n = fd_name fd in
      case (kind_of fd, v) of
        (Passthrough, DNum x) \<Rightarrow> [(n, WNum x)]
      | (Passthrough, DBytes bs) \<Rightarrow> [(n, WBytes bs)]
      | (KBool, DBool b) \<Rightarrow> [(n, WNum (if b then 1 else 0))]
      | (KUsize, DNum x) \<Rightarrow> [(n, WNum (cast_to ''u64'' x))]
      | (KIsize, DNum x) \<Rightarrow> [(n, WNum (cast_to ''i64'' x))]
      | (KOption _ ConvBool _, DOptBool ob) \<Rightarrow>
          [(n @ ''_value'', WNum (case ob of Some b \<Rightarrow> if b then 1 else 0 | None \<Rightarrow> 0)),
           (n @ ''_has'', WNum (if ob \<noteq> None then 1 else 0))]
      | (KOption _ c _, DOptNum ox) \<Rightarrow>
          [(n @ ''_value'', WNum (case ox of Some x \<Rightarrow> conv_to c x | None \<Rightarrow> 0)),
           (n @ ''_has'', WNum (if ox \<noteq> None then 1 else 0))]
      | (KEnum, DEnum e) \<Rightarrow> [(n, WNum (uint e))]
      | _ \<Rightarrow> [])"

definition from_wire :: "field \<Rightarrow> (string \<rightharpoonup> wval) \<Rightarrow> dval option" where
  "from_wire fd src =
     (let n = fd_name fd in
      case kind_of fd of
        Passthrough \<Rightarrow>
          (case src n of Some (WNum x) \<Rightarrow> Some (DNum x) | Some (WBytes bs) \<Rightarrow> Some (DBytes bs) | None \<Rightarrow> None)
      | KBool \<Rightarrow> (case src n of Some (WNum x) \<Rightarrow> Some (DBool (x \<noteq> 0)) | _ \<Rightarrow> None)
      | KUsize \<Rightarrow> (case src n of Some (WNum x) \<Rightarrow> Some (DNum (cast_to ''usize'' x)) | _ \<Rightarrow> None)
      | KIsize \<Rightarrow> (case src n of Some (WNum x) \<Rightarrow> Some (DNum (cast_to ''isize'' x)) | _ \<Rightarrow> None)
      | KOption _ c _ \<Rightarrow>
          (case (src (n @ ''_value''), src (n @ ''_has'')) of
             (Some (WNum raw), Some (WNum h)) \<Rightarrow>
               (if c = ConvBool then Some (DOptBool (if h \<noteq> 0 then Some (raw \<noteq> 0) else None))
                else Some (DOptNum (if h \<noteq> 0 then Some (conv_from c raw) else None)))
           | _ \<Rightarrow> None)
      | KEnum \<Rightarrow> (case src n of Some (WNum x) \<Rightarrow> Some (DEnum (word_of_int x)) | _ \<Rightarrow> None)
      | _ \<Rightarrow> None)"

text \<open>\<^verbatim>\<open>From<Name> for Wire\<close> and the way back, field by field.\<close>

definition to_wire_fields :: "field list \<Rightarrow> dval list \<Rightarrow> (string \<times> wval) list" where
  "to_wire_fields fds vs = concat (map (\<lambda>(fd, v). to_wire fd v) (zip fds vs))"

definition wire_from :: "nat \<Rightarrow> field list \<Rightarrow> dval list \<Rightarrow> (string \<times> wval) list" where
  "wire_from pad fds vs = to_wire_fields fds vs @ [(''_pad'', WBytes (replicate pad 0))]"

definition domain_from :: "field list \<Rightarrow> (string \<rightharpoonup> wval) \<Rightarrow> dval option list" where
  "domain_from fds src = map (\<lambda>fd. from_wire fd src) fds"

section \<open>Casts\<close>

lemma int_type_simps [simp]:
  "int_type ''u8'' = Some (False, 8)"
  "int_type ''u16'' = Some (False, 16)"
  "int_type ''u32'' = Some (False, 32)"
  "int_type ''u64'' = Some (False, 64)"
  "int_type ''u128'' = Some (False, 128)"
  "int_type ''i8'' = Some (True, 8)"
  "int_type ''i16'' = Some (True, 16)"
  "int_type ''i32'' = Some (True, 32)"
  "int_type ''i64'' = Some (True, 64)"
  "int_type ''i128'' = Some (True, 128)"
  "int_type ''usize'' = Some (False, 64)"
  "int_type ''isize'' = Some (True, 64)"
  by (simp_all add: int_type_def)

lemma cast_in_type:
  assumes "in_type n v" "int_type n \<noteq> None"
  shows "cast_to n v = v"
proof -
  obtain sg b where t: "int_type n = Some (sg, b)" using assms(2) by auto
  show ?thesis
  proof (cases sg)
    case False
    then show ?thesis using assms(1) t by (simp add: in_type_def cast_to_def)
  next
    case True
    have "0 < b" using t by (auto simp: int_type_def split: if_splits)
    then have "(2 :: int) ^ b = 2 * 2 ^ (b - 1)" by (simp add: power_eq_if)
    then have "(v + 2 ^ (b - 1)) mod 2 ^ b = v + 2 ^ (b - 1)" using assms(1) t True
      by (intro mod_pos_pos_trivial) (auto simp: in_type_def)
    then show ?thesis using t True by (simp add: cast_to_def)
  qed
qed

lemma in_type_mono:
  assumes "in_type n v" "int_type n = Some (sg, b)" "int_type n' = Some (sg, b')" "b \<le> b'" "0 < b"
  shows "in_type n' v"
proof -
  have "(2 :: int) ^ b \<le> 2 ^ b'" "(2 :: int) ^ (b - 1) \<le> 2 ^ (b' - 1)" using assms(4,5) by (auto intro: power_increasing)
  note pow = this
  show ?thesis
  proof (cases sg)
    case True
    then have "- (2 ^ (b - 1)) \<le> v" "v < 2 ^ (b - 1)" using assms(1,2) by (simp_all add: in_type_def)
    then have "- (2 ^ (b' - 1)) \<le> v" "v < 2 ^ (b' - 1)" using pow by linarith+
    then show ?thesis using assms(3) True by (simp add: in_type_def)
  next
    case False
    then have "0 \<le> v" "v < 2 ^ b" using assms(1,2) by (simp_all add: in_type_def)
    then have "0 \<le> v" "v < 2 ^ b'" using pow by linarith+
    then show ?thesis using assms(3) False by (simp add: in_type_def)
  qed
qed

lemma cast_widen:
  assumes "in_type n v" "int_type n = Some (sg, b)" "int_type n' = Some (sg, b')" "b \<le> b'" "0 < b"
  shows "cast_to n (cast_to n' v) = v"
  using cast_in_type [OF in_type_mono [OF assms]] cast_in_type [OF assms(1)] assms(2,3) by simp

lemma cast_i128:
  assumes "in_type ''i128'' v"
  shows "cast_to ''i128'' (cast_to ''u128'' v) = v"
proof -
  have "(v mod 2 ^ 128 + 2 ^ 127) mod 2 ^ 128 = (v + 2 ^ 127) mod 2 ^ 128" by (rule mod_add_left_eq)
  also have "\<dots> = v + 2 ^ 127" using assms by (intro mod_pos_pos_trivial) (auto simp: in_type_def int_type_def)
  finally show ?thesis by (simp add: cast_to_def int_type_def)
qed

text \<open>The conversion snippets of every supported \<^verbatim>\<open>Option\<close> type undo each other.\<close>

lemma conv_roundtrip:
  assumes k: "classify_option n = KOption w c b" and v: "in_type n v"
  shows "conv_from c (conv_to c v) = v"
proof (cases "\<exists>w'. c = ConvCast w' n \<and> n \<noteq> ''i128''")
  case True
  then obtain w' where c: "c = ConvCast w' n" and n: "n \<noteq> ''i128''" by blast
  have "(n = ''u8'' \<or> n = ''u16'' \<or> n = ''u32'' \<or> n = ''u64'' \<or> n = ''usize'') \<and> w' = ''u64'' \<or>
        (n = ''i8'' \<or> n = ''i16'' \<or> n = ''i32'' \<or> n = ''i64'' \<or> n = ''isize'') \<and> w' = ''i64''"
    using k n unfolding c classify_option_def by (auto split: if_splits)
  then have "\<exists>m sg. int_type n = Some (sg, m) \<and> int_type w' = Some (sg, 64) \<and> m \<le> 64 \<and> 0 < m"
    by (elim disjE conjE) (simp_all add: ex_bool_eq)
  then obtain sg m where "int_type n = Some (sg, m)" "int_type w' = Some (sg, 64)" "m \<le> 64" "0 < m"
    by blast
  then have "cast_to n (cast_to w' v) = v" using cast_widen [OF v] by blast
  then show ?thesis by (simp add: c conv_from_def conv_to_def)
next
  case False
  have "i = n" if "c = ConvCast w' i" for w' i
    using k unfolding that classify_option_def by (simp split: if_splits)
  then have "(\<exists>w'. c = ConvCast w' n) \<or> c = ConvBool \<or> c = ConvBits \<or> c = ConvSame"
    by (cases c) simp_all
  moreover have "c = ConvCast ''u128'' ''i128''" if "n = ''i128''" using k that by (auto simp: classify_option_def)
  ultimately consider "n = ''i128''" "c = ConvCast ''u128'' ''i128''" | "c = ConvBool \<or> c = ConvBits \<or> c = ConvSame"
    using False by blast
  then show ?thesis using cast_i128 v by cases (auto simp: conv_from_def conv_to_def)
qed

section \<open>Round trip\<close>

definition inner_name :: "rust_ty \<Rightarrow> string" where
  "inner_name ty =
     (case ty of
        TPath (Some (_, GType inner # _)) \<Rightarrow> (case type_name inner of Some m \<Rightarrow> m | None \<Rightarrow> [])
      | _ \<Rightarrow> [])"

text \<open>The values a field of a given type can hold.\<close>

definition has_type :: "field \<Rightarrow> dval \<Rightarrow> bool" where
  "has_type fd v =
     (case kind_of fd of
        Passthrough \<Rightarrow>
          (case fd_ty fd of
             TArray _ _ \<Rightarrow> (\<exists>bs. v = DBytes bs)
           | _ \<Rightarrow> (\<exists>x. v = DNum x \<and> in_type (the (type_name (fd_ty fd))) x))
      | KBool \<Rightarrow> (\<exists>b. v = DBool b)
      | KUsize \<Rightarrow> (\<exists>x. v = DNum x \<and> in_type ''usize'' x)
      | KIsize \<Rightarrow> (\<exists>x. v = DNum x \<and> in_type ''isize'' x)
      | KOption _ c _ \<Rightarrow>
          (if c = ConvBool then (\<exists>ob. v = DOptBool ob)
           else (\<exists>ox. v = DOptNum ox \<and> (\<forall>x. ox = Some x \<longrightarrow> in_type (inner_name (fd_ty fd)) x)))
      | KEnum \<Rightarrow> (\<exists>e. v = DEnum e)
      | _ \<Rightarrow> False)"

lemma kind_option:
  assumes "kind_of fd = KOption w c b"
  shows "classify_option (inner_name (fd_ty fd)) = KOption w c b"
  using assms
  by (auto simp: kind_of_def classify_def inner_name_def split: if_splits rust_ty.splits option.splits list.splits
      generic_arg.splits)

lemma from_to_wire:
  assumes v: "has_type fd v" and src: "\<And>k w. (k, w) \<in> set (to_wire fd v) \<Longrightarrow> src k = Some w"
  shows "from_wire fd src = Some v"
proof (cases "kind_of fd")
  case Passthrough
  then show ?thesis using v src by (auto simp: has_type_def to_wire_def from_wire_def Let_def split: rust_ty.splits)
next
  case KBool
  then show ?thesis using v src by (auto simp: has_type_def to_wire_def from_wire_def Let_def)
next
  case KUsize
  then obtain x where x: "v = DNum x" "in_type ''usize'' x" using v by (auto simp: has_type_def)
  then have "cast_to ''usize'' (cast_to ''u64'' x) = x"
    using conv_roundtrip [of "''usize''" _ "ConvCast ''u64'' ''usize''" True x]
    by (simp add: classify_option_def conv_from_def conv_to_def)
  then show ?thesis using KUsize x src by (auto simp: to_wire_def from_wire_def Let_def)
next
  case KIsize
  then obtain x where x: "v = DNum x" "in_type ''isize'' x" using v by (auto simp: has_type_def)
  then have "cast_to ''isize'' (cast_to ''i64'' x) = x"
    using conv_roundtrip [of "''isize''" _ "ConvCast ''i64'' ''isize''" True x]
    by (simp add: classify_option_def conv_from_def conv_to_def)
  then show ?thesis using KIsize x src by (auto simp: to_wire_def from_wire_def Let_def)
next
  case (KOption w c b)
  show ?thesis
  proof (cases "c = ConvBool")
    case True
    then obtain ob where "v = DOptBool ob" using v KOption by (auto simp: has_type_def)
    then show ?thesis using KOption True src by (cases ob) (auto simp: to_wire_def from_wire_def Let_def)
  next
    case False
    then obtain ox where ox: "v = DOptNum ox" "\<forall>x. ox = Some x \<longrightarrow> in_type (inner_name (fd_ty fd)) x"
      using v KOption by (auto simp: has_type_def)
    have wire: "to_wire fd v = [(fd_name fd @ ''_value'', WNum (case ox of Some x \<Rightarrow> conv_to c x | None \<Rightarrow> 0)),
        (fd_name fd @ ''_has'', WNum (if ox \<noteq> None then 1 else 0))]"
      using KOption False ox(1) by (cases c) (auto simp: to_wire_def Let_def)
    have "conv_from c (conv_to c x) = x" if "ox = Some x" for x
      using conv_roundtrip [OF kind_option [OF KOption]] ox(2) that by simp
    then show ?thesis using KOption False ox(1) src wire
      by (cases ox) (auto simp: from_wire_def Let_def)
  qed
next
  case KEnum
  then show ?thesis using v src by (auto simp: has_type_def to_wire_def from_wire_def Let_def)
qed (use v in \<open>auto simp: has_type_def\<close>)

lemma to_wire_names:
  assumes "has_type fd v" "wire_fields_of fd = Inr ws"
  shows "map fst (to_wire fd v) = map wf_name ws"
proof (cases "kind_of fd")
  case (KOption w c b)
  then show ?thesis using assms
    by (cases c) (auto simp: has_type_def to_wire_def wire_fields_of_def Let_def split: if_splits)
qed (use assms in \<open>auto simp: has_type_def to_wire_def wire_fields_of_def Let_def split: rust_ty.splits\<close>)

lemma to_wire_fields_names:
  assumes "collect_wire_fields fds = Inr ws" "list_all2 has_type fds vs"
  shows "map fst (to_wire_fields fds vs) = map wf_name ws"
  using assms(2,1)
proof (induction fds vs arbitrary: ws rule: list_all2_induct)
  case (Cons fd fds v vs)
  from Cons.prems obtain w1 w2 where w: "wire_fields_of fd = Inr w1" "collect_wire_fields fds = Inr w2" "ws = w1 @ w2"
    by (auto split: sum.splits)
  then show ?case using Cons.IH [OF w(2)] to_wire_names [OF Cons.hyps(1) w(1)] by (simp add: to_wire_fields_def)
qed (simp add: to_wire_fields_def)

lemma domain_from_lookup:
  assumes "list_all2 has_type fds vs" "\<And>k w. (k, w) \<in> set (to_wire_fields fds vs) \<Longrightarrow> src k = Some w"
  shows "domain_from fds src = map Some vs"
  using assms
proof (induction fds vs rule: list_all2_induct)
  case (Cons fd fds v vs)
  have "from_wire fd src = Some v" using Cons.prems by (intro from_to_wire [OF Cons.hyps(1)]) (auto simp: to_wire_fields_def)
  moreover have "domain_from fds src = map Some vs" using Cons.prems by (intro Cons.IH) (auto simp: to_wire_fields_def)
  ultimately show ?case by (simp add: domain_from_def)
qed (simp add: domain_from_def)

section \<open>Padding\<close>

lemma round_up_ge: "n \<le> round_up n a"
  by (simp add: round_up_def)

lemma round_up_dvd:
  assumes "0 < a"
  shows "a dvd round_up n a"
proof (cases "n mod a = 0")
  case True
  then show ?thesis by (simp add: round_up_def mod_eq_0_iff_dvd)
next
  case False
  then have "(a - n mod a) mod a = a - n mod a" using assms by simp
  then have "round_up n a = n div a * a + a"
    using mod_le_divisor [OF assms, of n] div_mult_mod_eq [of n a] unfolding round_up_def by linarith
  then show ?thesis by simp
qed

lemma round_up_eq: "round_up n a = n \<longleftrightarrow> a dvd n" if "0 < a"
proof
  assume "round_up n a = n"
  then show "a dvd n" using round_up_dvd [OF that, of n] by simp
next
  assume "a dvd n"
  then show "round_up n a = n" by (simp add: round_up_def)
qed

lemma max_align_ge: "1 \<le> foldl (\<lambda>a l. if snd l > a then snd l else a) m ls" if "1 \<le> (m :: nat)"
  using that by (induction ls arbitrary: m) auto

lemma max_align_pos [simp]: "0 < max_align ls"
  using max_align_ge [of 1 ls] by (simp add: max_align_def)

lemma max_align_bytes [simp]: "max_align (ls @ [(pad, Suc 0)]) = max_align ls"
  using max_align_ge [of 1 ls] by (simp add: max_align_def)

lemma size_sum_simps [simp]: "size_sum [] = 0" "size_sum (l # ls) = fst l + size_sum ls"
  "size_sum (ls @ ls') = size_sum ls + size_sum ls'"
  by (simp_all add: size_sum_def)

lemma repr_c_end_ge: "off + size_sum ls \<le> repr_c_end off ls"
proof (induction off ls rule: repr_c_end.induct)
  case (2 off s a ls)
  then show ?case using round_up_ge [of off a] by simp
qed simp

lemma repr_c_packed: "repr_c_end off ls = off + size_sum ls \<longleftrightarrow> repr_c_offsets off ls = packed_offsets off ls"
proof (induction off ls rule: repr_c_end.induct)
  case (2 off s a ls)
  show ?case
  proof (cases "round_up off a = off")
    case True
    then show ?thesis using 2 by (simp add: add.assoc)
  next
    case False
    then show ?thesis using round_up_ge [of off a] repr_c_end_ge [of "round_up off a + s" ls] by simp
  qed
qed simp

text \<open>The size of a struct is the sum of its fields' sizes exactly when it has no gap, at its end included.\<close>

lemma padding_free:
  assumes "0 < al"
  shows "round_up (repr_c_end 0 ls) al = size_sum ls \<longleftrightarrow>
    repr_c_offsets 0 ls = packed_offsets 0 ls \<and> al dvd size_sum ls"
proof
  assume eq: "round_up (repr_c_end 0 ls) al = size_sum ls"
  then have "repr_c_end 0 ls = size_sum ls"
    using repr_c_end_ge [of 0 ls] round_up_ge [of "repr_c_end 0 ls" al] by simp
  then show "repr_c_offsets 0 ls = packed_offsets 0 ls \<and> al dvd size_sum ls"
    using eq repr_c_packed [of 0 ls] round_up_eq [OF assms, of "size_sum ls"] by simp
next
  assume "repr_c_offsets 0 ls = packed_offsets 0 ls \<and> al dvd size_sum ls"
  then show "round_up (repr_c_end 0 ls) al = size_sum ls"
    using repr_c_packed [of 0 ls] round_up_eq [OF assms, of "size_sum ls"] by simp
qed

lemma struct_align_ge: "a \<le> struct_align hs a"
  by (induction hs a rule: struct_align.induct) (auto intro: order_trans [OF max.cobounded1])

lemma struct_size_sum:
  "struct_size attrs ls = size_sum ls \<longleftrightarrow>
     (let ls' = struct_layouts attrs ls
      in repr_c_offsets 0 ls' = packed_offsets 0 ls' \<and> struct_align (repr_hints attrs) (max_align ls') dvd size_sum ls')"
proof -
  have "size_sum (struct_layouts attrs ls) = size_sum ls"
    by (simp add: struct_layouts_def size_sum_def comp_def case_prod_beta)
  moreover have "0 < struct_align (repr_hints attrs) (max_align (struct_layouts attrs ls))"
    using struct_align_ge [of "max_align (struct_layouts attrs ls)" "repr_hints attrs"]
      max_align_pos [of "struct_layouts attrs ls"] by linarith
  ultimately show ?thesis
    using padding_free [of "struct_align (repr_hints attrs) (max_align (struct_layouts attrs ls))" "struct_layouts attrs ls"]
    by (simp add: struct_size_def Let_def)
qed

text \<open>Fields whose alignments only ever get smaller, each dividing the one before, leave no gap.\<close>

lemma descending_packed:
  assumes "sorted_wrt (\<lambda>l l'. snd l' dvd snd l) ls" "\<forall>l\<in>set ls. 0 < snd l \<and> snd l dvd fst l \<and> snd l dvd off"
  shows "repr_c_end off ls = off + size_sum ls"
  using assms
proof (induction off ls rule: repr_c_end.induct)
  case (2 off s a ls)
  have "round_up off a = off" using 2(3) round_up_eq by simp
  moreover have "\<forall>l\<in>set ls. 0 < snd l \<and> snd l dvd fst l \<and> snd l dvd off + s"
    using 2(2,3) by (auto intro: dvd_trans)
  ultimately show ?case using 2(1,2) by simp
qed simp

lemma sorted_wrt_append_bytes:
  "sorted_wrt (\<lambda>l l'. snd l' dvd snd l) ls \<Longrightarrow> sorted_wrt (\<lambda>l l'. snd l' dvd snd l) (ls @ [(pad, 1 :: nat)])"
  by (simp add: sorted_wrt_append)

lemma tail_pad_dvd: "max_align ls dvd size_sum ls + tail_pad ls"
  using round_up_dvd [of "max_align ls" "size_sum ls"] by (simp add: tail_pad_def round_up_def Let_def)

lemma padded_tail:
  assumes "sorted_wrt (\<lambda>l l'. snd l' dvd snd l) ls" "\<forall>l\<in>set ls. 0 < snd l \<and> snd l dvd fst l"
  shows "repr_c_size (ls @ [(tail_pad ls, 1)]) = size_sum ls + tail_pad ls"
proof -
  have "repr_c_end 0 (ls @ [(tail_pad ls, 1)]) = size_sum ls + tail_pad ls"
    using descending_packed [OF sorted_wrt_append_bytes [OF assms(1), of "tail_pad ls"], of 0] assms(2) by auto
  then show ?thesis using tail_pad_dvd [of ls] round_up_eq by (simp add: repr_c_size_def)
qed

section \<open>Ranks\<close>

definition rank_align :: "nat \<Rightarrow> nat" where
  "rank_align r = (if r = 0 then 16 else if r = 1 then 8 else if r = 2 then 4 else if r = 3 then 2 else 1)"

lemma rank_align_dvd: "r \<le> r' \<Longrightarrow> rank_align r' dvd rank_align r"
  by (auto simp: rank_align_def)

text \<open>The types that \<^verbatim>\<open>align_rank\<close> ranks by their real alignment: the primitives it lists, and arrays of them.\<close>

fun well_ranked :: "rust_ty \<Rightarrow> bool" where
  "well_ranked (TArray elem n) = well_ranked elem"
| "well_ranked (TPath p) =
     (case p of
        Some (n, _) \<Rightarrow> n \<in> set [''u8'', ''u16'', ''u32'', ''u64'', ''u128'', ''i64'', ''i128'', ''f32'', ''f64'', ''usize'', ''isize'']
      | None \<Rightarrow> False)"
| "well_ranked (TTuple ts) = False"
| "well_ranked TOther = False"

definition fits_rank :: "type_layout \<Rightarrow> nat \<Rightarrow> bool" where
  "fits_rank l r = (snd l = rank_align r \<and> snd l dvd fst l)"

lemma well_ranked_fits: "well_ranked ty \<Longrightarrow> fits_rank (layout_of user ty) (align_rank ty)"
proof (induction ty rule: well_ranked.induct)
  case (1 elem n)
  then show ?case by (auto simp: fits_rank_def split: prod.splits)
next
  case (2 p)
  then show ?case
    by (auto simp: fits_rank_def type_name_def prim_layout_def rank_align_def split: option.splits prod.splits)
qed simp_all

lemma well_ranked_Pod: "well_ranked ty \<Longrightarrow> Pod_impl user_pod ty"
  by (induction ty rule: well_ranked.induct) (auto split: option.splits prod.splits)

lemma wire_field_fits:
  assumes "wire_fields_of fd = Inr ws" "kind_of fd = Passthrough \<Longrightarrow> well_ranked (fd_ty fd)" "w \<in> set ws"
  shows "fits_rank (layout_of user (wf_ty w)) (wf_rank w)"
proof (cases "kind_of fd")
  case Passthrough
  then show ?thesis using assms well_ranked_fits [of "fd_ty fd" user] by (auto simp: wire_fields_of_def Let_def)
next
  case (KOption wt c b)
  then have "wt \<in> set [''u8'', ''u32'', ''u64'', ''u128'', ''i64'']"
    using kind_option [OF KOption] by (auto simp: classify_option_def split: if_splits)
  then show ?thesis using assms KOption
    by (auto simp: wire_fields_of_def Let_def fits_rank_def prim_def type_name_def prim_layout_def rank_align_def)
qed (use assms in \<open>auto simp: wire_fields_of_def Let_def fits_rank_def prim_def type_name_def prim_layout_def rank_align_def\<close>)

lemma collect_fits:
  assumes "collect_wire_fields fds = Inr ws" "\<forall>fd\<in>set fds. kind_of fd = Passthrough \<longrightarrow> well_ranked (fd_ty fd)"
  shows "\<forall>w\<in>set ws. fits_rank (layout_of user (wf_ty w)) (wf_rank w)"
  using assms
proof (induction fds arbitrary: ws)
  case (Cons fd fds)
  from Cons.prems(1) obtain w1 w2 where "wire_fields_of fd = Inr w1" "collect_wire_fields fds = Inr w2" "ws = w1 @ w2"
    by (auto split: sum.splits)
  then show ?case using Cons.IH Cons.prems(2) wire_field_fits [of fd w1] by auto
qed simp

lemma emit_order_layouts:
  assumes "\<forall>w\<in>set ws. fits_rank (layout_of user (wf_ty w)) (wf_rank w)"
  shows "sorted_wrt (\<lambda>l l'. snd l' dvd snd l) (map (layout_of user \<circ> wf_ty) (emit_order ws))"
proof -
  have "sorted_wrt (\<lambda>w w'. wf_rank w \<le> wf_rank w') (emit_order ws)"
    using sorted_sort_key [of wf_rank ws] by (simp add: emit_order_def sorted_map)
  then have "sorted_wrt (\<lambda>w w'. snd (layout_of user (wf_ty w')) dvd snd (layout_of user (wf_ty w))) (emit_order ws)"
    by (rule sorted_wrt_mono_rel [rotated]) (use assms in \<open>auto simp: emit_order_def fits_rank_def rank_align_dvd\<close>)
  then show ?thesis by (simp add: sorted_wrt_map)
qed

lemma derive_message_named:
  assumes "derive_message name (StructNamed fds) = Inr mc"
  obtains ws where "collect_wire_fields fds = Inr ws" "mc_wire_fields mc = emit_order ws"
    "mc_assertions mc = concat (map field_assertions fds) @ (if has_usize_isize fds then [AssertUsizeFits] else [])"
  using assms by (auto simp: derive_message_def split: sum.splits)

lemma repr_hints_member: "(''repr'', Some hs) \<in> set attrs \<Longrightarrow> set hs \<subseteq> set (repr_hints attrs)"
  by (induction attrs rule: repr_hints.induct) auto

lemma has_repr_c_hint:
  assumes "\<And>hs. set (visited hs) \<subseteq> set (map hint_path hs)" "has_repr_c visited attrs"
  shows "''C'' \<in> set (map hint_path (repr_hints attrs))"
proof -
  obtain hs where "(''repr'', Some hs) \<in> set attrs" "''C'' \<in> set (visited hs)"
    using assms(2) by (auto simp: has_repr_c_def list_ex_iff split: option.splits)
  note hs = this
  have "set hs \<subseteq> set (repr_hints attrs)" using hs(1) by (rule repr_hints_member)
  moreover have "''C'' \<in> set (map hint_path hs)" using assms(1) hs(2) by (rule subsetD)
  ultimately show ?thesis unfolding set_map by (meson image_mono subsetD)
qed

section \<open>Properties\<close>

text \<open>C21: The generated conversions lose nothing: when the macro accepts a struct and the names of the generated
  wire struct are distinct (which the compiler requires), converting a value of the struct to the wire struct and
  back gives the same value in every field, for every supported field type, casts through a wider type, absent
  options and any amount of tail padding included.\<close>

lemma message_roundtrip:
  assumes "derive_message name (StructNamed fds) = Inr mc" "distinct (wire_names mc)" "list_all2 has_type fds vs"
  shows "domain_from fds (map_of (wire_from pad fds vs)) = map Some vs"
proof (rule domain_from_lookup [OF assms(3)])
  obtain ws where ws: "collect_wire_fields fds = Inr ws" "mc_wire_fields mc = emit_order ws"
    using derive_message_named [OF assms(1)] by blast
  have "distinct (map wf_name ws @ [''_pad''])"
    using assms(2) by (simp add: wire_names_def ws(2) emit_order_def distinct_map)
  then have "distinct (map fst (wire_from pad fds vs))"
    using to_wire_fields_names [OF ws(1) assms(3)] by (simp add: wire_from_def flip: set_map)
  then show "map_of (wire_from pad fds vs) k = Some w" if "(k, w) \<in> set (to_wire_fields fds vs)" for k w
    using that by (simp add: map_of_is_SomeI wire_from_def)
qed

theorem message_roundtrip_witness:
  "let fds = [\<lparr>fd_name = ''qty'', fd_ty = TPath (Some (''Option'', [GType (prim ''i128'')])), fd_attrs = []\<rparr>,
              \<lparr>fd_name = ''side'', fd_ty = prim ''Side'', fd_attrs = [(''photon'', Some ''as_enum'')]\<rparr>,
              \<lparr>fd_name = ''slot'', fd_ty = prim ''isize'', fd_attrs = []\<rparr>];
       vs = [DOptNum (Some (- 5)), DEnum 3, DNum (- 7)]
   in domain_from fds (map_of (wire_from 6 fds vs)) = map Some vs"
proof -
  let ?fds = "[\<lparr>fd_name = ''qty'', fd_ty = TPath (Some (''Option'', [GType (prim ''i128'')])), fd_attrs = []\<rparr>,
              \<lparr>fd_name = ''side'', fd_ty = prim ''Side'', fd_attrs = [(''photon'', Some ''as_enum'')]\<rparr>,
              \<lparr>fd_name = ''slot'', fd_ty = prim ''isize'', fd_attrs = []\<rparr>]"
  have k: "map kind_of ?fds = [KOption ''u128'' (ConvCast ''u128'' ''i128'') False, KEnum, KIsize]"
    by (simp add: kind_of_def is_explicit_enum_def classify_def prim_def numeric_names_def type_name_def classify_option_def)
  obtain mc where mc: "derive_message ''Order'' (StructNamed ?fds) = Inr mc"
      "map wf_name (mc_wire_fields mc) = [''qty_value'', ''slot'', ''qty_has'', ''side'']"
    using k by (simp add: derive_message_def wire_fields_of_def emit_order_def)
  have "list_all2 has_type ?fds [DOptNum (Some (- 5)), DEnum 3, DNum (- 7)]"
    using k by (simp add: has_type_def inner_name_def prim_def type_name_def in_type_def)
  then show ?thesis using message_roundtrip [OF mc(1), of _ 6] mc(2) by (simp add: wire_names_def)
qed

text \<open>C22: The layout the macro chooses has no padding: for a struct whose passed-through fields are primitives that
  \<^verbatim>\<open>align_rank\<close> lists, or arrays of them, in any order, the no-padding assertion of the generated code holds, so the
  generated items compile exactly when the wire struct declares no field twice (a field \<^verbatim>\<open>_pad\<close>, or \<^verbatim>\<open>tag_has\<close> next to
  an optional \<^verbatim>\<open>tag\<close>, is such a clash) and the type of every field marked \<^verbatim>\<open>as_enum\<close> is one byte wide and can be
  cast to \<^verbatim>\<open>u8\<close>.\<close>

lemma message_no_padding:
  assumes "derive_message name (StructNamed fds) = Inr mc"
    and "\<forall>fd\<in>set fds. kind_of fd = Passthrough \<longrightarrow> well_ranked (fd_ty fd)"
  shows "message_assertion user mc \<and>
    (message_compiles user user_pod user_cast mc \<longleftrightarrow> distinct (wire_names mc) \<and>
       (\<forall>fd\<in>set fds. kind_of fd = KEnum \<longrightarrow> fst (layout_of user (fd_ty fd)) = 1 \<and> castable_u8 user_cast (fd_ty fd)))"
proof -
  obtain ws where ws: "collect_wire_fields fds = Inr ws" "mc_wire_fields mc = emit_order ws"
    and asserts: "mc_assertions mc = concat (map field_assertions fds) @ (if has_usize_isize fds then [AssertUsizeFits] else [])"
    using derive_message_named [OF assms(1)] by blast
  note fits = collect_fits [OF ws(1) assms(2), of user]
  have "\<forall>l\<in>set (wire_layouts user mc). 0 < snd l \<and> snd l dvd fst l"
    using fits by (auto simp: wire_layouts_def ws(2) emit_order_def fits_rank_def rank_align_def)
  then have "message_assertion user mc" using padded_tail [OF emit_order_layouts [OF fits]] ws(2)
    by (simp add: message_assertion_def wire_layouts_def Let_def)
  moreover have "assertion_holds user user_pod AssertUsizeFits" by (simp add: prim_def type_name_def prim_layout_def)
  moreover have "list_all (assertion_holds user user_pod) (field_assertions fd) \<longleftrightarrow>
      (kind_of fd = KEnum \<longrightarrow> fst (layout_of user (fd_ty fd)) = 1)" if "fd \<in> set fds" for fd
    using assms(2) that well_ranked_Pod by (cases "kind_of fd") (auto simp: field_assertions_def)
  moreover have "mc_casts mc = map fd_ty (filter (\<lambda>fd. kind_of fd = KEnum) fds)"
    using assms(1) by (auto simp: derive_message_def split: sum.splits)
  ultimately show ?thesis by (auto simp: message_compiles_def asserts list_all_iff)
qed

theorem message_no_padding_witness:
  "\<exists>mc mc'. derive_message ''Tick''
     (StructNamed [\<lparr>fd_name = ''side'', fd_ty = prim ''Side'', fd_attrs = [(''photon'', Some ''as_enum'')]\<rparr>,
                   \<lparr>fd_name = ''legs'', fd_ty = TArray (prim ''u16'') 3, fd_attrs = []\<rparr>,
                   \<lparr>fd_name = ''price'', fd_ty = prim ''f64'', fd_attrs = []\<rparr>]) = Inr mc
   \<and> message_compiles (\<lambda>_. (1, 1)) (\<lambda>_. False) (\<lambda>ty. ty = prim ''Side'') mc
   \<and> \<not> message_compiles (\<lambda>_. (1, 1)) (\<lambda>_. False) (\<lambda>_. False) mc
   \<and> derive_message ''Tick'' (StructNamed [\<lparr>fd_name = ''_pad'', fd_ty = prim ''u32'', fd_attrs = []\<rparr>]) = Inr mc'
   \<and> message_assertion (\<lambda>_. (1, 1)) mc' \<and> \<not> message_compiles (\<lambda>_. (1, 1)) (\<lambda>_. False) (\<lambda>_. True) mc'"
proof -
  let ?fds = "[\<lparr>fd_name = ''side'', fd_ty = prim ''Side'', fd_attrs = [(''photon'', Some ''as_enum'')]\<rparr>,
                   \<lparr>fd_name = ''legs'', fd_ty = TArray (prim ''u16'') 3, fd_attrs = []\<rparr>,
                   \<lparr>fd_name = ''price'', fd_ty = prim ''f64'', fd_attrs = []\<rparr>]"
  let ?pad = "[\<lparr>fd_name = ''_pad'', fd_ty = prim ''u32'', fd_attrs = []\<rparr>]"
  have k: "map kind_of ?fds = [KEnum, Passthrough, Passthrough]" "map kind_of ?pad = [Passthrough]"
    by (simp_all add: kind_of_def is_explicit_enum_def classify_def prim_def numeric_names_def)
  obtain mc where mc: "derive_message ''Tick'' (StructNamed ?fds) = Inr mc" "distinct (wire_names mc)"
    using k(1) by (simp add: derive_message_def wire_fields_of_def wire_names_def emit_order_def prim_def)
  obtain mc' where mc': "derive_message ''Tick'' (StructNamed ?pad) = Inr mc'" "\<not> distinct (wire_names mc')"
    using k(2) by (simp add: derive_message_def wire_fields_of_def wire_names_def emit_order_def)
  show ?thesis
    using message_no_padding [OF mc(1), of "\<lambda>_. (1, 1)" "\<lambda>_. False" "\<lambda>ty. ty = prim ''Side''"]
      message_no_padding [OF mc(1), of "\<lambda>_. (1, 1)" "\<lambda>_. False" "\<lambda>_. False"]
      message_no_padding [OF mc'(1), of "\<lambda>_. (1, 1)" "\<lambda>_. False" "\<lambda>_. True"] mc mc' k
    by (simp add: prim_def type_name_def prim_layout_def)
qed

text \<open>C38: The signed types narrower than 64 bits are ranked widest although the macro lists them as supported: next
  to any 8-byte primitive, in either order, the macro accepts the struct and the code it generates does not compile,
  because its own no-padding assertion fails.\<close>

lemma message_signed_padding:
  assumes "small \<in> set [''i8'', ''i16'', ''i32'']" "wide \<in> set [''u64'', ''i64'', ''f64'']"
    and "fds = [\<lparr>fd_name = x, fd_ty = prim wide, fd_attrs = []\<rparr>, \<lparr>fd_name = y, fd_ty = prim small, fd_attrs = []\<rparr>]
      \<or> fds = [\<lparr>fd_name = y, fd_ty = prim small, fd_attrs = []\<rparr>, \<lparr>fd_name = x, fd_ty = prim wide, fd_attrs = []\<rparr>]"
  shows "\<exists>mc. derive_message name (StructNamed fds) = Inr mc \<and> \<not> message_assertion user mc
     \<and> \<not> message_compiles user user_pod user_cast mc"
proof -
  have small: "classify (prim small) = Passthrough" "align_rank (prim small) = 0"
      "layout_of user (prim small) \<in> {(1, 1), (2, 2), (4, 4)}"
    using assms(1) by (auto simp: classify_def prim_def numeric_names_def type_name_def prim_layout_def)
  have wide: "classify (prim wide) = Passthrough" "align_rank (prim wide) = 1" "layout_of user (prim wide) = (8, 8)"
    using assms(2) by (auto simp: classify_def prim_def numeric_names_def type_name_def prim_layout_def)
  let ?ws = "[\<lparr>wf_name = y, wf_ty = prim small, wf_rank = 0\<rparr>, \<lparr>wf_name = x, wf_ty = prim wide, wf_rank = 1\<rparr>]"
  obtain ws where ws: "collect_wire_fields fds = Inr ws" "emit_order ws = ?ws"
    using assms(3) small(1,2) wide(1,2)
    by (auto simp: wire_fields_of_def kind_of_def is_explicit_enum_def emit_order_def)
  obtain n where n: "layout_of user (prim small) = (n, n)" "n = 1 \<or> n = 2 \<or> n = 4" using small(3) by blast
  have "repr_c_size ([(n, n), (8, 8)] @ [(tail_pad [(n, n), (8, 8)], 1)]) \<noteq>
      size_sum [(n, n), (8, 8)] + tail_pad [(n, n), (8, 8)]"
    using n(2) by (elim disjE) (simp_all add: repr_c_size_def max_align_def round_up_def tail_pad_def)
  then show ?thesis using ws n(1) wide(3)
    by (simp add: derive_message_def message_assertion_def message_compiles_def wire_layouts_def Let_def)
qed

theorem message_signed_padding_witness:
  "\<exists>mc. derive_message ''Fill'' (StructNamed
       [\<lparr>fd_name = ''seq'', fd_ty = prim ''u64'', fd_attrs = []\<rparr>, \<lparr>fd_name = ''delta'', fd_ty = prim ''i32'', fd_attrs = []\<rparr>])
       = Inr mc
     \<and> \<not> message_assertion (\<lambda>_. (0, 1)) mc \<and> \<not> message_compiles (\<lambda>_. (0, 1)) (\<lambda>_. True) (\<lambda>_. True) mc"
  using message_signed_padding [of "''i32''" "''u64''"
      "[\<lparr>fd_name = ''seq'', fd_ty = prim ''u64'', fd_attrs = []\<rparr>, \<lparr>fd_name = ''delta'', fd_ty = prim ''i32'', fd_attrs = []\<rparr>]"
      "''seq''" "''delta''" "''Fill''" "\<lambda>_. (0, 1)" "\<lambda>_. True" "\<lambda>_. True"]
  by simp



end
