(* ===== verification/Async.thy ===== *)
theory Async
  imports Channel_Spec
begin

text \<open>
  The asynchronous subscriber of \<^verbatim>\<open>src/photon-ring-async/src/\<close>: a wrapper that polls \<^verbatim>\<open>try_recv\<close> up to
  \<^verbatim>\<open>spin_budget\<close> times and then wakes its own task.

  A poll gets the number of wake-ups its context has seen and returns it updated.  Other threads act
  after every failed attempt, as given by a list of interference steps; an exhausted list means that nothing
  more happens.  \<^verbatim>\<open>recv\<close> is the executor's loop around the poll: it polls again after every wake-up, and the
  other tasks act in between; it has not returned (\<open>None\<close>) when it is pending and nothing more can happen.
\<close>

section \<open>Definitions\<close>

definition DEFAULT_SPIN_BUDGET :: u32 where
  "DEFAULT_SPIN_BUDGET = 64"

record async_subscriber =
  as_inner :: subscriber
  as_spin_budget :: u32

definition AsyncSubscriber_new :: "subscriber \<Rightarrow> async_subscriber" where
  "AsyncSubscriber_new sub = \<lparr>as_inner = sub, as_spin_budget = DEFAULT_SPIN_BUDGET\<rparr>"

definition AsyncSubscriber_with_spin_budget :: "subscriber \<Rightarrow> u32 \<Rightarrow> async_subscriber" where
  "AsyncSubscriber_with_spin_budget sub budget = \<lparr>as_inner = sub, as_spin_budget = budget\<rparr>"

definition AsyncSubscriber_set_spin_budget :: "async_subscriber \<Rightarrow> u32 \<Rightarrow> async_subscriber" where
  "AsyncSubscriber_set_spin_budget a budget = a\<lparr>as_spin_budget := budget\<rparr>"

definition AsyncSubscriber_pending :: "async_subscriber \<Rightarrow> 'a shared_ring \<Rightarrow> u64" where
  "AsyncSubscriber_pending a r = Subscriber_pending (as_inner a) r"

datatype 'a poll = Ready 'a | Pending

text \<open>The \<^verbatim>\<open>for\<close> loop over the budget, shared by both polls: the first value received, if any.\<close>

fun poll_attempts ::
    "nat \<Rightarrow> 'a interference \<Rightarrow> subscriber \<Rightarrow> 'a mem \<Rightarrow> 'a option \<times> subscriber \<times> 'a mem \<times> 'a interference" where
  "poll_attempts 0 es s m = (None, s, m, es)"
| "poll_attempts (Suc n) es s m =
     (case Subscriber_try_recv s m of
        (Inr v, s', m') \<Rightarrow> (Some v, s', m', es)
      | (Inl _, s', m') \<Rightarrow> let (m'', es') = interfere es m' in poll_attempts n es' s' m'')"

definition AsyncSubscriber_poll_recv ::
    "'a interference \<Rightarrow> async_subscriber \<Rightarrow> 'a mem \<Rightarrow> nat \<Rightarrow>
     'a poll \<times> async_subscriber \<times> 'a mem \<times> nat \<times> 'a interference" where
  "AsyncSubscriber_poll_recv es a m wakes =
     (case poll_attempts (unat (as_spin_budget a)) es (as_inner a) m of
        (Some v, s', m', es') \<Rightarrow> (Ready v, a\<lparr>as_inner := s'\<rparr>, m', wakes, es')
      | (None, s', m', es') \<Rightarrow> (Pending, a\<lparr>as_inner := s'\<rparr>, m', wakes + 1, es'))"

definition AsyncSubscriber_poll_recv_batch ::
    "'a interference \<Rightarrow> async_subscriber \<Rightarrow> 'a mem \<Rightarrow> 'a list \<Rightarrow> nat \<Rightarrow>
     usize poll \<times> 'a list \<times> async_subscriber \<times> 'a mem \<times> nat \<times> 'a interference" where
  "AsyncSubscriber_poll_recv_batch es a m buf wakes =
     (if buf = [] then (Ready 0, buf, a, m, wakes, es)
      else
        let (count, buf1, s1, m1) = Subscriber_recv_batch (as_inner a) m buf
        in if count > 0 then (Ready count, buf1, a\<lparr>as_inner := s1\<rparr>, m1, wakes, es)
           else
             let (m1', es1) = interfere es m1
             in case poll_attempts (unat (as_spin_budget a)) es1 s1 m1' of
                  (Some v, s2, m2, es2) \<Rightarrow>
                    let (m2', es3) = interfere es2 m2;
                        (rest, buf2, s3, m3) = Subscriber_recv_batch s2 m2' (tl buf1)
                    in (Ready (1 + rest), v # buf2, a\<lparr>as_inner := s3\<rparr>, m3, wakes, es3)
                | (None, s2, m2, es2) \<Rightarrow> (Pending, buf1, a\<lparr>as_inner := s2\<rparr>, m2, wakes + 1, es2))"

lemma poll_attempts_length: "poll_attempts n es s m = (res, s', m', es') \<Longrightarrow> length es' \<le> length es"
proof (induction n es s m rule: poll_attempts.induct)
  case (2 n es s m)
  then show ?case
    by (cases es) (fastforce simp: split: prod.splits sum.splits)+
qed simp

lemma poll_recv_length:
  "(p, a', m', w', e # es') = AsyncSubscriber_poll_recv es a m w \<Longrightarrow> length es' < length es"
  by (auto simp: AsyncSubscriber_poll_recv_def split: prod.splits option.splits dest: poll_attempts_length)

text \<open>\<^verbatim>\<open>recv\<close> under an executor; \<^verbatim>\<open>RecvFuture\<close> polls the same way.\<close>

function AsyncSubscriber_recv ::
    "'a interference \<Rightarrow> async_subscriber \<Rightarrow> 'a mem \<Rightarrow> nat \<Rightarrow>
     ('a \<times> async_subscriber \<times> 'a mem \<times> nat \<times> 'a interference) option" where
  "AsyncSubscriber_recv es a m wakes =
     (case AsyncSubscriber_poll_recv es a m wakes of
        (Ready v, a', m', wakes', es') \<Rightarrow> Some (v, a', m', wakes', es')
      | (Pending, a', m', wakes', es') \<Rightarrow>
          (case es' of [] \<Rightarrow> None | e # es'' \<Rightarrow> AsyncSubscriber_recv es'' a' (e m') wakes'))"
  by pat_completeness auto
termination
  by (relation "measure (\<lambda>(es, a, m, w). length es)") (auto dest: poll_recv_length)

lemma interfere_length: "interfere es m = (m', es') \<Longrightarrow> length es' \<le> length es"
  by (cases es) auto

lemma poll_recv_batch_length:
  assumes "(p, buf', a', m', w', e # es') = AsyncSubscriber_poll_recv_batch es a m buf w"
  shows "length es' < length es"
proof -
  obtain count buf1 s1 m1 where b: "Subscriber_recv_batch (as_inner a) m buf = (count, buf1, s1, m1)" by (metis prod_cases4)
  obtain m2 es1 where i1: "interfere es m1 = (m2, es1)" by (cases "interfere es m1")
  obtain got s2 m3 es2 where q: "poll_attempts (unat (as_spin_budget a)) es1 s1 m2 = (got, s2, m3, es2)" by (metis prod_cases4)
  obtain m4 es3 where i2: "interfere es2 m3 = (m4, es3)" by (cases "interfere es2 m3")
  let ?left = "\<lambda>x. snd (snd (snd (snd (snd x))))"
  have "?left (AsyncSubscriber_poll_recv_batch es a m buf w) =
      (if buf = [] \<or> count > 0 then es else case got of None \<Rightarrow> es2 | Some _ \<Rightarrow> es3)"
    unfolding AsyncSubscriber_poll_recv_batch_def by (simp add: b i1 q i2 split_beta split: option.split)
  then have "e # es' = es \<or> e # es' = es2 \<or> e # es' = es3"
    unfolding assms [symmetric] by (auto split: if_splits option.splits)
  moreover have "length es1 \<le> length es" "length es2 \<le> length es1" "length es3 \<le> length es2"
    using interfere_length [OF i1] poll_attempts_length [OF q] interfere_length [OF i2] by simp_all
  moreover have "length (e # es') = length es' + 1" by simp
  ultimately show ?thesis by auto
qed

function AsyncSubscriber_recv_batch ::
    "'a interference \<Rightarrow> async_subscriber \<Rightarrow> 'a mem \<Rightarrow> 'a list \<Rightarrow> nat \<Rightarrow>
     (usize \<times> 'a list \<times> async_subscriber \<times> 'a mem \<times> nat \<times> 'a interference) option" where
  "AsyncSubscriber_recv_batch es a m buf wakes =
     (case AsyncSubscriber_poll_recv_batch es a m buf wakes of
        (Ready count, buf', a', m', wakes', es') \<Rightarrow> Some (count, buf', a', m', wakes', es')
      | (Pending, buf', a', m', wakes', es') \<Rightarrow>
          (case es' of [] \<Rightarrow> None | e # es'' \<Rightarrow> AsyncSubscriber_recv_batch es'' a' (e m') buf' wakes'))"
  by pat_completeness auto
termination
  by (relation "measure (\<lambda>(es, a, m, buf, w). length es)") (auto dest: poll_recv_batch_length)

declare AsyncSubscriber_recv.simps [simp del] AsyncSubscriber_recv_batch.simps [simp del]

definition RecvFuture_poll ::
    "'a interference \<Rightarrow> async_subscriber \<Rightarrow> 'a mem \<Rightarrow> nat \<Rightarrow>
     'a poll \<times> async_subscriber \<times> 'a mem \<times> nat \<times> 'a interference" where
  "RecvFuture_poll es sub m wakes = AsyncSubscriber_poll_recv es sub m wakes"

section \<open>Threads that publish\<close>

text \<open>An interference step that appends \<open>vs\<close> to the log, whoever publishes them, and lists of such steps.\<close>

definition appends :: "nat \<Rightarrow> 'a list \<Rightarrow> ('a mem \<Rightarrow> 'a mem) \<Rightarrow> 'a list \<Rightarrow> bool" where
  "appends k log e vs \<longleftrightarrow> (\<forall>s m. at_log k log (s, m) \<longrightarrow> at_log k (log @ vs) (s, e m))"

inductive publishing :: "nat \<Rightarrow> 'a list \<Rightarrow> 'a interference \<Rightarrow> 'a list \<Rightarrow> bool" for k where
  Nothing: "publishing k log [] log"
| Publish: "appends k log e vs \<Longrightarrow> publishing k (log @ vs) es log' \<Longrightarrow> publishing k log (e # es) log'"

inductive_cases publishing_ConsE: "publishing k log (e # es) log'"

lemma appends_id [simp]: "appends k log id []"
  by (simp add: appends_def)

lemma appendsD: "appends k log e vs \<Longrightarrow> at_log k log (s, m) \<Longrightarrow> at_log k (log @ vs) (s, e m)"
  unfolding appends_def by blast

lemma interfere_publishing:
  assumes "at_log k log (s, m)" "publishing k log es log'" "interfere es m = (m', es')"
  shows "\<exists>vs. at_log k (log @ vs) (s, m') \<and> publishing k (log @ vs) es' log'"
  using assms
  by (cases es) (auto simp: elim!: publishing_ConsE intro: exI [of _ "[]"] dest: appendsD)

lemma sub_pos_simp [simp]: "sub_pos (s, m) = unat (sub_cursor s)"
  by (simp add: sub_pos_def)

text \<open>One attempt, in terms of the log.\<close>

lemma attempt_cases:
  assumes g: "at_log k log (s, m)" and t: "Subscriber_try_recv s m = (res, s', m')"
  shows "at_log k log (s', m') \<and>
    (case res of
       Inr v \<Rightarrow> unat (sub_cursor s) < unat (sub_cursor s') \<and> v = log ! (unat (sub_cursor s') - 1)
         \<and> sub_total_received s' = sub_total_received s + 1
     | Inl _ \<Rightarrow> unat (sub_cursor s) \<le> unat (sub_cursor s') \<and> sub_total_received s' = sub_total_received s)"
proof -
  obtain r h where m: "m = (r, h)" by (cases m)
  have g': "ring_log r log" "subscriber_at s r log" "log_fits log" "cap r = k"
    using g by (auto simp: at_log_def m)
  note ref = try_recv_refines [OF g'(1-3) t [unfolded m]]
  have "at_log k log (s', m')" using sub_recv.recv_good [OF g] t by simp
  then show ?thesis using ref(1,6) g'(4)
    by (auto simp: spec_recv_def counts_def split: if_splits sum.splits try_recv_error.splits)
qed

lemma poll_attempts_safe:
  assumes "at_log k log (s, m)" "publishing k log es log'" "poll_attempts n es s m = (res, s', m', es')"
  shows "\<exists>vs. at_log k (log @ vs) (s', m') \<and> publishing k (log @ vs) es' log' \<and>
    (case res of
       Some v \<Rightarrow> unat (sub_cursor s) < unat (sub_cursor s') \<and> v = (log @ vs) ! (unat (sub_cursor s') - 1)
         \<and> sub_total_received s' = sub_total_received s + 1
     | None \<Rightarrow> unat (sub_cursor s) \<le> unat (sub_cursor s') \<and> sub_total_received s' = sub_total_received s)"
  using assms
proof (induction n es s m arbitrary: log rule: poll_attempts.induct)
  case (1 es s m)
  then show ?case by (intro exI [of _ "[]"]) auto
next
  case (2 n es s m)
  obtain r1 s1 m1 where t: "Subscriber_try_recv s m = (r1, s1, m1)" by (cases "Subscriber_try_recv s m") auto
  note a = attempt_cases [OF 2(2) t]
  show ?case
  proof (cases r1)
    case (Inr v)
    then show ?thesis using 2(3,4) t a by (intro exI [of _ "[]"]) auto
  next
    case (Inl err)
    obtain m2 es1 where d: "interfere es m1 = (m2, es1)" by (cases "interfere es m1")
    obtain vs where vs: "at_log k (log @ vs) (s1, m2)" "publishing k (log @ vs) es1 log'"
      using interfere_publishing [OF _ 2(3) d] a Inl by auto
    have rest: "poll_attempts n es1 s1 m2 = (res, s', m', es')" using 2(4) t Inl d by simp
    obtain ws where "at_log k ((log @ vs) @ ws) (s', m')" "publishing k ((log @ vs) @ ws) es' log'"
      "case res of
       Some v \<Rightarrow> unat (sub_cursor s1) < unat (sub_cursor s') \<and> v = ((log @ vs) @ ws) ! (unat (sub_cursor s') - 1)
         \<and> sub_total_received s' = sub_total_received s1 + 1
     | None \<Rightarrow> unat (sub_cursor s1) \<le> unat (sub_cursor s') \<and> sub_total_received s' = sub_total_received s1"
      using 2(1) [OF t [symmetric] Inl refl refl d [symmetric] vs rest] by blast
    then show ?thesis using a Inl by (intro exI [of _ "vs @ ws"]) (auto split: option.splits)
  qed
qed

section \<open>Batches\<close>

text \<open>A batch stores the messages at consecutive positions and ends behind the last of them.\<close>

lemma batch_positions:
  assumes "at_log k log (s, m)" "Subscriber_recv_batch s m buf = (count, buf', s', m')" "length buf < 2 ^ 64"
  shows "\<exists>ps. sorted_wrt (<) ps \<and> (\<forall>p\<in>set ps. unat (sub_cursor s) \<le> p \<and> p < unat (sub_cursor s') \<and> p < length log) \<and>
      length ps = unat count \<and> buf' = map ((!) log) ps @ drop (unat count) buf \<and> at_log k log (s', m') \<and>
      unat (sub_cursor s) \<le> unat (sub_cursor s')"
proof -
  let ?o = "oldest_pos k log (unat (sub_cursor s))"
  let ?avail = "take (length buf) (drop ?o log)"
  have b: "unat count = length ?avail" "buf' = ?avail @ drop (length ?avail) buf" "at_log k log (s', m')"
      "unat (sub_cursor s') = (if ?avail = [] then unat (sub_cursor s) else ?o + length ?avail)"
    using recv_batch_spec [OF assms(1) assms(2) [unfolded Subscriber_recv_batch_def] assms(3)] by (auto simp: Let_def)
  let ?ps = "[?o ..< ?o + length ?avail]"
  have ps: "?avail = map ((!) log) ?ps" by (rule nth_equalityI) auto
  have o: "unat (sub_cursor s) \<le> ?o" by (simp add: oldest_pos_def)
  have "p < unat (sub_cursor s') \<and> p < length log" if "p \<in> set ?ps" for p
    using that b(4) by (cases "?avail = []") auto
  moreover have "unat (sub_cursor s) \<le> unat (sub_cursor s')" using b(4) o by (simp split: if_splits)
  ultimately show ?thesis using b(1,2,3) ps o by (intro exI [of _ ?ps]) auto
qed

text \<open>A message received on its own, then a batch.\<close>

lemma batch_first:
  assumes "at_log k log (s, m)" "at_log k (log @ xs) (s, m1)" "0 < unat (sub_cursor s)"
    and "Subscriber_recv_batch s m1 buf = (rest, buf', s', m')" "length buf < 2 ^ 64 - 1"
  shows "\<exists>qs. sorted_wrt (<) qs \<and> (\<forall>q\<in>set qs. unat (sub_cursor s) - 1 \<le> q \<and> q < unat (sub_cursor s')) \<and>
      length qs = unat (1 + rest) \<and> qs \<noteq> [] \<and>
      log ! (unat (sub_cursor s) - 1) # buf' = map ((!) (log @ xs)) qs @ drop (unat rest) buf \<and>
      at_log k (log @ xs) (s', m') \<and> unat (1 + rest) = Suc (unat rest)"
proof -
  obtain ps where ps: "sorted_wrt (<) ps"
      "\<forall>p\<in>set ps. unat (sub_cursor s) \<le> p \<and> p < unat (sub_cursor s') \<and> p < length (log @ xs)"
      "length ps = unat rest" "buf' = map ((!) (log @ xs)) ps @ drop (unat rest) buf" "at_log k (log @ xs) (s', m')"
      "unat (sub_cursor s) \<le> unat (sub_cursor s')"
    using batch_positions [OF assms(2,4)] assms(5) by auto
  have le: "unat rest \<le> length buf"
    using recv_batch_spec [OF assms(2) assms(4) [unfolded Subscriber_recv_batch_def]] assms(5) by (auto simp: Let_def)
  then have "unat (1 + rest) = Suc (unat rest)" using assms(5) by (simp add: add.commute [of 1] unat_u64_Suc)
  moreover have "unat (sub_cursor s) - 1 < length log"
    using assms(1,3) sub_recv.good_pos [OF assms(1)] by simp
  moreover have "\<forall>p\<in>set ps. unat (sub_cursor s) - 1 < p" using ps(2) assms(3) by fastforce
  ultimately show ?thesis using ps assms(3)
    by (intro exI [of _ "(unat (sub_cursor s) - 1) # ps"]) (auto simp: nth_append)
qed

section \<open>Waiting\<close>

lemma try_recv_at_end:
  assumes "at_log k log (s, m)" "unat (sub_cursor s) = length log"
  shows "Subscriber_try_recv s m = (Inl Empty, s, m)"
  using assms try_recv_empty by (cases m) (auto simp: at_log_def)

lemma try_recv_newest:
  assumes "at_log k (log @ [v]) (s, m)" "unat (sub_cursor s) = length log"
  shows "\<exists>s' m'. Subscriber_try_recv s m = (Inr v, s', m') \<and> unat (sub_cursor s') = length log + 1"
proof -
  have "0 < k" by (rule sub_recv.good_cap [OF assms(1)])
  then show ?thesis
    using assms(2) sub_recv.recv_spec [OF assms(1), of "fst (Subscriber_try_recv s m)" "snd (Subscriber_try_recv s m)"]
    by (cases "Subscriber_try_recv s m") (auto simp: spec_recv_def)
qed

lemma attempts_idle:
  assumes "at_log k log (s, m)" "unat (sub_cursor s) = length log" "n \<le> j"
  shows "poll_attempts n (replicate j id @ es) s m = (None, s, m, replicate (j - n) id @ es)"
  using assms(3)
proof (induction n arbitrary: j)
  case (Suc n)
  then show ?case using try_recv_at_end [OF assms(1,2)] by (cases j) auto
qed simp

lemma attempts_wake:
  assumes "at_log k log (s, m)" "unat (sub_cursor s) = length log" "appends k log e [v]"
  shows "j + 1 < n \<Longrightarrow> \<exists>s' m'. poll_attempts n (replicate j id @ e # es) s m = (Some v, s', m', es) \<and>
      unat (sub_cursor s') = length log + 1"
    and "j + 1 = n \<Longrightarrow> poll_attempts n (replicate j id @ e # es) s m = (None, s, e m, es)"
proof -
  have g: "at_log k (log @ [v]) (s, e m)" using appendsD [OF assms(3,1)] .
  show "\<exists>s' m'. poll_attempts n (replicate j id @ e # es) s m = (Some v, s', m', es) \<and>
      unat (sub_cursor s') = length log + 1" if "j + 1 < n"
    using that
  proof (induction j arbitrary: n)
    case 0
    then obtain n' where "n = Suc (Suc n')" by (auto simp: less_iff_Suc_add)
    then show ?case using try_recv_at_end [OF assms(1,2)] try_recv_newest [OF g assms(2)] by auto
  next
    case (Suc j)
    then show ?case using try_recv_at_end [OF assms(1,2)] by (cases n) auto
  qed
  show "poll_attempts n (replicate j id @ e # es) s m = (None, s, e m, es)" if "j + 1 = n"
    using that try_recv_at_end [OF assms(1,2)] by (induction j arbitrary: n) auto
qed

text \<open>One round of the executor.\<close>

lemma recv_round:
  "poll_attempts (unat (as_spin_budget a)) es (as_inner a) m = (Some v, s', m', es') \<Longrightarrow>
     AsyncSubscriber_recv es a m w = Some (v, a\<lparr>as_inner := s'\<rparr>, m', w, es')"
  "poll_attempts (unat (as_spin_budget a)) es (as_inner a) m = (None, s', m', e # es') \<Longrightarrow>
     AsyncSubscriber_recv es a m w = AsyncSubscriber_recv es' (a\<lparr>as_inner := s'\<rparr>) (e m') (w + 1)"
  "poll_attempts (unat (as_spin_budget a)) es (as_inner a) m = (None, s', m', []) \<Longrightarrow>
     AsyncSubscriber_recv es a m w = None"
  by (simp_all add: AsyncSubscriber_recv.simps [of es] AsyncSubscriber_poll_recv_def)

lemma recv_ready:
  assumes "at_log k (log @ [v]) (as_inner a, m)" "unat (sub_cursor (as_inner a)) = length log" "as_spin_budget a \<noteq> 0"
  shows "\<exists>a' m'. AsyncSubscriber_recv es a m w = Some (v, a', m', w, es) \<and> unat (sub_cursor (as_inner a')) = length log + 1"
proof -
  obtain n where "unat (as_spin_budget a) = Suc n" using assms(3) by (metis gr0_implies_Suc unat_gt_0)
  moreover obtain s' m' where t: "Subscriber_try_recv (as_inner a) m = (Inr v, s', m')"
    and c: "unat (sub_cursor s') = length log + 1" using try_recv_newest [OF assms(1,2)] by blast
  ultimately have "poll_attempts (unat (as_spin_budget a)) es (as_inner a) m = (Some v, s', m', es)" by simp
  from recv_round(1) [OF this, of w] show ?thesis using c by simp
qed

lemma recv_wakes_async:
  assumes "at_log k log (as_inner a, m)" "unat (sub_cursor (as_inner a)) = length log" "appends k log e [v]"
    and b: "0 < unat (as_spin_budget a)"
  shows "\<exists>a' m' es'. AsyncSubscriber_recv (replicate j id @ e # replicate (Suc j') id) a m w =
      Some (v, a', m', w + (j + 2) div (unat (as_spin_budget a) + 1), es') \<and>
      unat (sub_cursor (as_inner a')) = length log + 1"
proof (induction j arbitrary: w rule: less_induct)
  case (less j)
  let ?b = "unat (as_spin_budget a)"
  let ?es = "replicate j id @ e # replicate (Suc j') id"
  have same: "a\<lparr>as_inner := as_inner a\<rparr> = a" by simp
  have g: "at_log k (log @ [v]) (as_inner a, e m)" using appendsD [OF assms(3,1)] .
  have b0: "as_spin_budget a \<noteq> 0" using b by auto
  consider "j + 1 < ?b" | "j + 1 = ?b" | "j = ?b" | "?b < j" by linarith
  then show ?case
  proof cases
    case 1
    obtain s' m' where "poll_attempts ?b ?es (as_inner a) m = (Some v, s', m', replicate (Suc j') id)"
      and c: "unat (sub_cursor s') = length log + 1"
      using attempts_wake(1) [OF assms(1-3) 1] by blast
    from recv_round(1) [OF this(1), of w] have "AsyncSubscriber_recv ?es a m w =
      Some (v, a\<lparr>as_inner := s'\<rparr>, m', w + (j + 2) div (?b + 1), replicate (Suc j') id)" using 1 by simp
    moreover have "unat (sub_cursor (as_inner (a\<lparr>as_inner := s'\<rparr>))) = length log + 1" using c by simp
    ultimately show ?thesis by blast
  next
    case 2
    have "AsyncSubscriber_recv ?es a m w = AsyncSubscriber_recv (replicate j' id) a (e m) (w + 1)"
      using recv_round(2) [OF attempts_wake(2) [OF assms(1-3) 2, of "replicate (Suc j') id", unfolded replicate_Suc], of w]
      by (simp only: same id_apply replicate_Suc)
    moreover have "(j + 2) div (?b + 1) = 1" using 2 by simp
    ultimately show ?thesis using recv_ready [OF g assms(2) b0, of "replicate j' id" "w + 1"] by metis
  next
    case 3
    have "AsyncSubscriber_recv ?es a m w = AsyncSubscriber_recv (replicate (Suc j') id) a (e m) (w + 1)"
      using recv_round(2) [of a ?es m "as_inner a" m e "replicate (Suc j') id" w]
        attempts_idle [OF assms(1,2), of ?b j "e # replicate (Suc j') id"] 3 by (simp only: same) simp
    moreover have "(j + 2) div (?b + 1) = 1" using 3 b by (simp add: div_nat_eqI)
    ultimately show ?thesis using recv_ready [OF g assms(2) b0, of "replicate (Suc j') id" "w + 1"] by metis
  next
    case 4
    then obtain i where i: "j = i + (?b + 1)" by (metis add.commute add_Suc_right less_iff_Suc_add Suc_eq_plus1)
    have "AsyncSubscriber_recv ?es a m w = AsyncSubscriber_recv (replicate i id @ e # replicate (Suc j') id) a m (w + 1)"
    proof -
      have "poll_attempts ?b ?es (as_inner a) m = (None, as_inner a, m, id # replicate i id @ e # replicate (Suc j') id)"
        using attempts_idle [OF assms(1,2), of ?b j "e # replicate (Suc j') id"] i by simp
      from recv_round(2) [OF this, of w] show ?thesis by (simp only: same id_apply)
    qed
    moreover have "w + 1 + (i + 2) div (?b + 1) = w + (j + 2) div (?b + 1)"
      using div_add_self2 [of "?b + 1" "i + 2"] by (simp add: i algebra_simps)
    moreover have "i < j" using i by simp
    ultimately show ?thesis using less.IH [of i "w + 1"] by (simp only:)
  qed
qed

lemma recv_no_budget: "as_spin_budget a = 0 \<Longrightarrow> AsyncSubscriber_recv es a m w = None"
proof (induction es arbitrary: m w)
  case Nil
  then show ?case by (intro recv_round(3)) simp
next
  case (Cons e es)
  then have "poll_attempts (unat (as_spin_budget a)) (e # es) (as_inner a) m = (None, as_inner a, m, e # es)" by simp
  from recv_round(2) [OF this, of w] show ?case using Cons by simp
qed

section \<open>A concrete publisher\<close>

text \<open>The step of a publisher that publishes one message: the interference of the witnesses.\<close>

definition publish_now :: "'a \<Rightarrow> 'a mem \<Rightarrow> 'a mem" where
  "publish_now v = (\<lambda>(r, h). (snd (Publisher_publish_unchecked ((make_publisher r)\<lparr>pb_seq := sr_cursor r + 1\<rparr>) r v), h))"

lemma publish_now_appends: "log_fits (log @ [v]) \<Longrightarrow> appends k log (publish_now v) [v]"
  unfolding appends_def
proof (intro allI impI)
  fix s and m :: "'a mem"
  assume fits: "log_fits (log @ [v])" and g: "at_log k log (s, m)"
  obtain r h where m: "m = (r, h)" by (cases m)
  let ?p = "(make_publisher r)\<lparr>pb_seq := sr_cursor r + 1\<rparr>"
  obtain p' r' where pub: "Publisher_publish_unchecked ?p r v = (p', r')" by (metis prod.exhaust)
  have r: "ring_log r log" "subscriber_at s r log" "log_fits log" "cap r = k" using g by (auto simp: at_log_def m)
  have "unat (sr_cursor r + 1) = length log"
  proof (cases "log = []")
    case True
    then show ?thesis using r(1) by (simp add: ring_log_def)
  next
    case False
    then show ?thesis using r(1,3) by (subst unat_u64_Suc) (auto simp: ring_log_def log_fits_def neq_Nil_conv)
  qed
  then have p: "publisher_log ?p r log" by (simp add: publisher_log_def make_publisher_def)
  have "sr_index r' = sr_index r" using publish_unchecked_frame(1) [of ?p r v] pub by simp
  then show "at_log k (log @ [v]) (s, publish_now v m)"
    using ring_log_publish(1) [OF r(1) p r(3) pub] r fits pub
    by (auto simp: at_log_def publish_now_def m subscriber_at_def)
qed

section \<open>Batches of a whole receive\<close>

lemma poll_batch_in_order:
  assumes "at_log k log (as_inner a, m)" "publishing k log es log'" "length buf < 2 ^ 64"
    and "AsyncSubscriber_poll_recv_batch es a m buf wakes = (res, buf', a', m', wakes', es')"
  shows "\<exists>vs ps. at_log k (log @ vs) (as_inner a', m') \<and> publishing k (log @ vs) es' log' \<and> sorted_wrt (<) ps \<and>
    (\<forall>p\<in>set ps. unat (sub_cursor (as_inner a)) \<le> p \<and> p < unat (sub_cursor (as_inner a'))) \<and>
    buf' = map ((!) (log @ vs)) ps @ drop (length ps) buf \<and>
    (case res of
       Ready count \<Rightarrow> unat count = length ps \<and> wakes' = wakes \<and> (count = 0 \<longleftrightarrow> buf = []) \<and> (buf = [] \<longrightarrow> a' = a)
     | Pending \<Rightarrow> ps = [] \<and> buf \<noteq> [] \<and> wakes' = wakes + 1)"
proof (cases "buf = []")
  case True
  then show ?thesis using assms by (intro exI [of _ "[]"]) (auto simp: AsyncSubscriber_poll_recv_batch_def)
next
  case False
  obtain count buf1 s1 m1 where b: "Subscriber_recv_batch (as_inner a) m buf = (count, buf1, s1, m1)"
    by (metis prod_cases4)
  obtain ps where ps: "sorted_wrt (<) ps" "\<forall>p\<in>set ps. unat (sub_cursor (as_inner a)) \<le> p \<and> p < unat (sub_cursor s1) \<and> p < length log"
      "length ps = unat count" "buf1 = map ((!) log) ps @ drop (unat count) buf" "at_log k log (s1, m1)"
      "unat (sub_cursor (as_inner a)) \<le> unat (sub_cursor s1)"
    using batch_positions [OF assms(1) b assms(3)] by blast
  show ?thesis
  proof (cases "count = 0")
    case False
    then have "(res, buf', a', m', wakes', es') = (Ready count, buf1, a\<lparr>as_inner := s1\<rparr>, m1, wakes, es)"
      using assms(4) \<open>buf \<noteq> []\<close> b by (simp add: AsyncSubscriber_poll_recv_batch_def word_gt_0)
    then show ?thesis using ps assms(2) False \<open>buf \<noteq> []\<close> by (intro exI [of _ "[]"] exI [of _ ps]) auto
  next
    case True
    then have buf1: "buf1 = buf" using ps(3,4) by simp
    obtain m2 es1 where i1: "interfere es m1 = (m2, es1)" by (cases "interfere es m1")
    obtain vs where vs: "at_log k (log @ vs) (s1, m2)" "publishing k (log @ vs) es1 log'"
      using interfere_publishing [OF ps(5) assms(2) i1] by blast
    obtain got s2 m3 es2 where p: "poll_attempts (unat (as_spin_budget a)) es1 s1 m2 = (got, s2, m3, es2)"
      by (metis prod_cases4)
    obtain ws where ws: "at_log k ((log @ vs) @ ws) (s2, m3)" "publishing k ((log @ vs) @ ws) es2 log'"
      "case got of
       Some v \<Rightarrow> unat (sub_cursor s1) < unat (sub_cursor s2) \<and> v = ((log @ vs) @ ws) ! (unat (sub_cursor s2) - 1)
         \<and> sub_total_received s2 = sub_total_received s1 + 1
     | None \<Rightarrow> unat (sub_cursor s1) \<le> unat (sub_cursor s2) \<and> sub_total_received s2 = sub_total_received s1"
      using poll_attempts_safe [OF vs p] by blast
    show ?thesis
    proof (cases got)
      case None
      then have "(res, buf', a', m', wakes', es') = (Pending, buf, a\<lparr>as_inner := s2\<rparr>, m3, wakes + 1, es2)"
        using assms(4) \<open>buf \<noteq> []\<close> b True buf1 i1 p by (simp add: AsyncSubscriber_poll_recv_batch_def)
      then show ?thesis using ws(1,2) \<open>buf \<noteq> []\<close> by (intro exI [of _ "vs @ ws"] exI [of _ "[]"]) auto
    next
      case (Some v)
      obtain m4 es3 where i2: "interfere es2 m3 = (m4, es3)" by (cases "interfere es2 m3")
      obtain xs where xs: "at_log k (((log @ vs) @ ws) @ xs) (s2, m4)" "publishing k (((log @ vs) @ ws) @ xs) es3 log'"
        using interfere_publishing [OF ws(1,2) i2] by blast
      obtain rest buf2 s3 m5 where b2: "Subscriber_recv_batch s2 m4 (tl buf) = (rest, buf2, s3, m5)"
        by (metis prod_cases4)
      have out: "(res, buf', a', m', wakes', es') = (Ready (1 + rest), v # buf2, a\<lparr>as_inner := s3\<rparr>, m5, wakes, es3)"
        using assms(4) \<open>buf \<noteq> []\<close> b True buf1 i1 p Some i2 b2 by (simp add: AsyncSubscriber_poll_recv_batch_def)
      have c: "0 < unat (sub_cursor s2)" "unat (sub_cursor (as_inner a)) \<le> unat (sub_cursor s2) - 1"
          "v = ((log @ vs) @ ws) ! (unat (sub_cursor s2) - 1)"
        using ws(3) Some ps(6) by auto
      have "length (tl buf) < 2 ^ 64 - 1" using assms(3) \<open>buf \<noteq> []\<close> by (cases buf) auto
      from batch_first [OF ws(1) xs(1) c(1) b2 this] c(3) obtain qs where qs: "sorted_wrt (<) qs"
          "\<forall>q\<in>set qs. unat (sub_cursor s2) - 1 \<le> q \<and> q < unat (sub_cursor s3)" "length qs = unat (1 + rest)" "qs \<noteq> []"
          "v # buf2 = map ((!) (((log @ vs) @ ws) @ xs)) qs @ drop (unat rest) (tl buf)"
          "at_log k (((log @ vs) @ ws) @ xs) (s3, m5)" "unat (1 + rest) = Suc (unat rest)"
        by blast
      have "1 + rest \<noteq> 0" using qs(7) by (metis unat_0 nat.distinct(1))
      moreover have "\<forall>q\<in>set qs. unat (sub_cursor (as_inner a)) \<le> q \<and> q < unat (sub_cursor s3)" using qs(2) c(2) by fastforce
      moreover have "drop (unat rest) (tl buf) = drop (length qs) buf" using qs(3,7) by (simp add: drop_Suc)
      ultimately show ?thesis using qs(1,3,5,6) xs(2) out \<open>buf \<noteq> []\<close>
        by (intro exI [of _ "vs @ ws @ xs"] exI [of _ qs]) simp
    qed
  qed
qed

text \<open>The executor's loop around the batch poll: what the pending polls skip is behind the position.\<close>

lemma pending_batch_monotone:
  assumes "at_log k log (as_inner a, m)" "publishing k log es log'" "length buf < 2 ^ 64"
    and "AsyncSubscriber_poll_recv_batch es a m buf wakes = (Pending, buf', a', m', wakes', es')"
  shows "unat (sub_cursor (as_inner a)) \<le> unat (sub_cursor (as_inner a'))"
proof -
  have ne: "buf \<noteq> []"
  proof
    assume "buf = []"
    then show False using assms(4) by (simp add: AsyncSubscriber_poll_recv_batch_def)
  qed
  obtain count buf1 s1 m1 where b: "Subscriber_recv_batch (as_inner a) m buf = (count, buf1, s1, m1)"
    by (metis prod_cases4)
  have s1: "at_log k log (s1, m1)" "unat (sub_cursor (as_inner a)) \<le> unat (sub_cursor s1)"
    using batch_positions [OF assms(1) b assms(3)] by auto
  have c0: "\<not> count > 0"
  proof
    assume "count > 0"
    then show False using assms(4) ne b by (simp add: AsyncSubscriber_poll_recv_batch_def)
  qed
  obtain m2 es1 where i1: "interfere es m1 = (m2, es1)" by (cases "interfere es m1")
  obtain vs where vs: "at_log k (log @ vs) (s1, m2)" "publishing k (log @ vs) es1 log'"
    using interfere_publishing [OF s1(1) assms(2) i1] by blast
  obtain got s2 m3 es2 where p: "poll_attempts (unat (as_spin_budget a)) es1 s1 m2 = (got, s2, m3, es2)"
    by (metis prod_cases4)
  obtain ws where "case got of
       Some v \<Rightarrow> unat (sub_cursor s1) < unat (sub_cursor s2) \<and> v = ((log @ vs) @ ws) ! (unat (sub_cursor s2) - 1)
         \<and> sub_total_received s2 = sub_total_received s1 + 1
     | None \<Rightarrow> unat (sub_cursor s1) \<le> unat (sub_cursor s2) \<and> sub_total_received s2 = sub_total_received s1"
    using poll_attempts_safe [OF vs p] by blast
  then have "unat (sub_cursor s1) \<le> unat (sub_cursor s2)" by (cases got) simp_all
  moreover have "as_inner a' = s2"
  proof (cases got)
    case None
    then have "a' = a\<lparr>as_inner := s2\<rparr>" using assms(4) ne b c0 i1 p by (simp add: AsyncSubscriber_poll_recv_batch_def)
    then show ?thesis by simp
  next
    case (Some v)
    then show ?thesis using assms(4) ne b c0 i1 p by (simp add: AsyncSubscriber_poll_recv_batch_def split_beta)
  qed
  ultimately show ?thesis using s1(2) by simp
qed

lemma recv_batch_in_order:
  assumes "at_log k log (as_inner a, m)" "publishing k log es log'" "length buf < 2 ^ 64"
    and "AsyncSubscriber_recv_batch es a m buf wakes = Some (count, buf', a', m', wakes', es')"
  shows "\<exists>vs ps. at_log k (log @ vs) (as_inner a', m') \<and> publishing k (log @ vs) es' log' \<and> sorted_wrt (<) ps \<and>
    (\<forall>p\<in>set ps. unat (sub_cursor (as_inner a)) \<le> p \<and> p < unat (sub_cursor (as_inner a'))) \<and>
    buf' = map ((!) (log @ vs)) ps @ drop (length ps) buf \<and> unat count = length ps \<and> (count = 0 \<longleftrightarrow> buf = [])"
  using assms
proof (induction es a m buf wakes arbitrary: log rule: AsyncSubscriber_recv_batch.induct)
  case (1 es a m buf wakes)
  obtain res buf1 a1 m1 w1 es1 where p: "AsyncSubscriber_poll_recv_batch es a m buf wakes = (res, buf1, a1, m1, w1, es1)"
    by (metis prod_cases6)
  obtain vs ps where poll: "at_log k (log @ vs) (as_inner a1, m1)" "publishing k (log @ vs) es1 log'" "sorted_wrt (<) ps"
      "\<forall>p\<in>set ps. unat (sub_cursor (as_inner a)) \<le> p \<and> p < unat (sub_cursor (as_inner a1))"
      "buf1 = map ((!) (log @ vs)) ps @ drop (length ps) buf"
      "case res of
         Ready count \<Rightarrow> unat count = length ps \<and> w1 = wakes \<and> (count = 0 \<longleftrightarrow> buf = []) \<and> (buf = [] \<longrightarrow> a1 = a)
       | Pending \<Rightarrow> ps = [] \<and> buf \<noteq> [] \<and> w1 = wakes + 1"
    using poll_batch_in_order [OF "1.prems"(1-3) p] by blast
  note unfold = "1.prems"(4) [unfolded AsyncSubscriber_recv_batch.simps [of es] p]
  show ?case
  proof (cases res)
    case (Ready c)
    then have "count = c" "buf' = buf1" "a' = a1" "m' = m1" "es' = es1" using unfold by auto
    then show ?thesis using poll Ready by (intro exI [of _ vs] exI [of _ ps]) simp
  next
    case Pending
    then obtain e es2 where es1: "es1 = e # es2" using unfold by (cases es1) auto
    obtain ws where ws: "appends k (log @ vs) e ws" "publishing k ((log @ vs) @ ws) es2 log'"
      using poll(2) unfolding es1 by (elim publishing_ConsE)
    have buf1: "buf1 = buf" "buf \<noteq> []" using poll(5,6) Pending by auto
    have rest: "AsyncSubscriber_recv_batch es2 a1 (e m1) buf1 w1 = Some (count, buf', a', m', wakes', es')"
      using unfold Pending es1 by simp
    have le: "unat (sub_cursor (as_inner a)) \<le> unat (sub_cursor (as_inner a1))"
      using pending_batch_monotone [OF "1.prems"(1-3) p [unfolded Pending]] .
    have "length buf1 < 2 ^ 64" using "1.prems"(3) buf1 by simp
    from "1.IH" [OF p [symmetric] Pending refl refl refl refl es1 appendsD [OF ws(1) poll(1)] ws(2) this rest]
    obtain xs qs where ih: "at_log k (((log @ vs) @ ws) @ xs) (as_inner a', m')" "publishing k (((log @ vs) @ ws) @ xs) es' log'"
        "sorted_wrt (<) qs" "\<forall>q\<in>set qs. unat (sub_cursor (as_inner a1)) \<le> q \<and> q < unat (sub_cursor (as_inner a'))"
        "buf' = map ((!) (((log @ vs) @ ws) @ xs)) qs @ drop (length qs) buf1" "unat count = length qs" "count = 0 \<longleftrightarrow> buf1 = []"
      by blast
    then show ?thesis using le buf1 by (intro exI [of _ "vs @ ws @ xs"] exI [of _ qs]) auto
  qed
qed

section \<open>Accounting\<close>

text \<open>A subscriber's position less what it has received and what it has counted as lost: no receive changes it.\<close>

definition offset :: "subscriber \<Rightarrow> u64" where
  "offset s = sub_cursor s - sub_total_received s - sub_total_lagged s"

lemma try_recv_offset:
  assumes "Subscriber_try_recv s m = (res, s', m')"
  shows "offset s' = offset s \<and> sub_total_received s' = sub_total_received s + (case res of Inr v \<Rightarrow> 1 | Inl e \<Rightarrow> 0)"
  using assms
  by (auto simp: Subscriber_try_recv_def Subscriber_read_slot_def read_slot_overwritten_def take_message_def offset_def Let_def
      split: sum.splits option.splits if_splits)

lemma recv_batch_offset:
  "recv_batch_loop s m buf = (count, buf', s', m') \<Longrightarrow> offset s' = offset s \<and> sub_total_received s' = sub_total_received s + count"
proof (induction s m buf arbitrary: count buf' rule: recv_batch_loop.induct)
  case (2 s m x buf)
  obtain r1 s1 m1 where t: "Subscriber_try_recv s m = (r1, s1, m1)" by (metis prod_cases3)
  note one = try_recv_offset [OF t]
  consider (V) v where "r1 = Inr v" | (E) "r1 = Inl Empty" | (L) n where "r1 = Inl (Lagged n)"
    by (metis sumE try_recv_error.exhaust)
  then show ?case
  proof cases
    case V
    then obtain cnt b where "recv_batch_loop s1 m1 buf = (cnt, b, s', m')" "count = cnt + 1"
      using 2(3) t by (auto split: prod.splits)
    then show ?thesis using 2(2) [OF t [symmetric] V refl] one V by simp
  next
    case E
    then show ?thesis using 2(3) t one by simp
  next
    case (L n)
    obtain r2 s2 m2 where t2: "Subscriber_try_recv s1 m1 = (r2, s2, m2)" by (metis prod_cases3)
    note two = try_recv_offset [OF t2]
    show ?thesis
    proof (cases r2)
      case (Inl e)
      then show ?thesis using 2(3) t t2 L one two by simp
    next
      case (Inr v)
      then obtain cnt b where "recv_batch_loop s2 m2 buf = (cnt, b, s', m')" "count = cnt + 1"
        using 2(3) t t2 L by (auto split: prod.splits)
      then show ?thesis using 2(1) [OF t [symmetric] L refl refl t2 [symmetric] Inr refl] one two L Inr by simp
    qed
  qed
qed simp

lemma poll_attempts_offset:
  assumes "poll_attempts n es s m = (res, s', m', es')"
  shows "offset s' = offset s \<and> sub_total_received s' = sub_total_received s + (case res of Some v \<Rightarrow> 1 | None \<Rightarrow> 0)"
  using assms
proof (induction n es s m rule: poll_attempts.induct)
  case (2 n es s m)
  obtain r1 s1 m1 where t: "Subscriber_try_recv s m = (r1, s1, m1)" by (metis prod_cases3)
  obtain m2 es1 where d: "interfere es m1 = (m2, es1)" by (cases "interfere es m1")
  show ?case
  proof (cases r1)
    case (Inl e)
    then have "poll_attempts n es1 s1 m2 = (res, s', m', es')" using 2(2) t d by simp
    then show ?thesis using 2(1) [OF t [symmetric] Inl refl refl d [symmetric]] try_recv_offset [OF t] Inl by simp
  next
    case (Inr v)
    then show ?thesis using 2(2) t try_recv_offset [OF t] by auto
  qed
qed auto

lemma poll_batch_offset:
  assumes "AsyncSubscriber_poll_recv_batch es a m buf wakes = (res, buf', a', m', wakes', es')"
  shows "offset (as_inner a') = offset (as_inner a) \<and>
    sub_total_received (as_inner a') = sub_total_received (as_inner a) + (case res of Ready c \<Rightarrow> c | Pending \<Rightarrow> 0)"
proof (cases "buf = []")
  case True
  then show ?thesis using assms by (auto simp: AsyncSubscriber_poll_recv_batch_def)
next
  case False
  obtain count buf1 s1 m1 where b: "Subscriber_recv_batch (as_inner a) m buf = (count, buf1, s1, m1)" by (metis prod_cases4)
  note first = recv_batch_offset [OF b [unfolded Subscriber_recv_batch_def]]
  obtain m2 es1 where i1: "interfere es m1 = (m2, es1)" by (cases "interfere es m1")
  obtain got s2 m3 es2 where p: "poll_attempts (unat (as_spin_budget a)) es1 s1 m2 = (got, s2, m3, es2)" by (metis prod_cases4)
  note spin = poll_attempts_offset [OF p]
  obtain m4 es3 where i2: "interfere es2 m3 = (m4, es3)" by (cases "interfere es2 m3")
  obtain rest buf2 s3 m5 where b2: "Subscriber_recv_batch s2 m4 (tl buf1) = (rest, buf2, s3, m5)" by (metis prod_cases4)
  note second = recv_batch_offset [OF b2 [unfolded Subscriber_recv_batch_def]]
  show ?thesis using assms False b i1 p i2 b2 first spin second
    by (cases got; cases "count = 0") (auto simp: AsyncSubscriber_poll_recv_batch_def word_gt_0)
qed

lemma recv_batch_async_offset:
  assumes "AsyncSubscriber_recv_batch es a m buf wakes = Some (count, buf', a', m', wakes', es')"
  shows "offset (as_inner a') = offset (as_inner a) \<and> sub_total_received (as_inner a') = sub_total_received (as_inner a) + count"
  using assms
proof (induction es a m buf wakes rule: AsyncSubscriber_recv_batch.induct)
  case (1 es a m buf wakes)
  obtain res buf1 a1 m1 w1 es1 where p: "AsyncSubscriber_poll_recv_batch es a m buf wakes = (res, buf1, a1, m1, w1, es1)"
    by (metis prod_cases6)
  note unfold = "1.prems" [unfolded AsyncSubscriber_recv_batch.simps [of es] p]
  show ?case
  proof (cases res)
    case (Ready c)
    then show ?thesis using unfold poll_batch_offset [OF p] by auto
  next
    case Pending
    then obtain e es2 where es1: "es1 = e # es2" using unfold by (cases es1) auto
    then have "AsyncSubscriber_recv_batch es2 a1 (e m1) buf1 w1 = Some (count, buf', a', m', wakes', es')" using unfold Pending by simp
    then show ?thesis
      using "1.IH" [OF p [symmetric] Pending refl refl refl refl es1] poll_batch_offset [OF p] Pending by simp
  qed
qed

text \<open>The positions a receive moves over are those it has stored and those it has counted as lost.\<close>

lemma offset_positions:
  assumes "offset s' = offset s" "sub_total_received s' = sub_total_received s + c" "unat c = length ps"
    and "sorted_wrt (<) ps" "\<forall>p\<in>set ps. unat (sub_cursor s) \<le> p \<and> p < unat (sub_cursor s')"
    and "unat (sub_cursor s) \<le> unat (sub_cursor s')"
  shows "unat (sub_cursor s') = unat (sub_cursor s) + length ps + unat (sub_total_lagged s' - sub_total_lagged s)"
proof -
  have "distinct ps" using assms(4) by (simp add: strict_sorted_iff)
  moreover have "set ps \<subseteq> {unat (sub_cursor s) ..< unat (sub_cursor s')}" using assms(5) by auto
  ultimately have "length ps \<le> unat (sub_cursor s') - unat (sub_cursor s)"
    using card_mono [of "{unat (sub_cursor s) ..< unat (sub_cursor s')}" "set ps"] by (simp add: distinct_card)
  moreover note short = this
  moreover have "unat (sub_cursor s' - sub_cursor s) = unat (sub_cursor s') - unat (sub_cursor s)"
    using assms(6) by (rule unat_u64_diff)
  ultimately have "unat (sub_cursor s' - sub_cursor s - c) = unat (sub_cursor s') - unat (sub_cursor s) - length ps"
    using unat_u64_diff [of c "sub_cursor s' - sub_cursor s"] assms(3) by simp
  moreover have "sub_total_lagged s' - sub_total_lagged s = sub_cursor s' - sub_cursor s - c"
    using assms(1,2) by (simp add: offset_def algebra_simps)
  ultimately show ?thesis using short assms(6) by simp
qed

text \<open>A batch that has been stored: the messages at increasing positions of the log, from the subscriber's old
  position to the new one, at the front of the buffer; every position in between that was not stored has been counted
  as lost.\<close>

definition stored_batch :: "'a list \<Rightarrow> subscriber \<Rightarrow> subscriber \<Rightarrow> 'a list \<Rightarrow> 'a list \<Rightarrow> nat list \<Rightarrow> bool" where
  "stored_batch log s s' buf buf' ps \<longleftrightarrow>
     sorted_wrt (<) ps \<and> (\<forall>p\<in>set ps. unat (sub_cursor s) \<le> p \<and> p < unat (sub_cursor s')) \<and>
     buf' = map ((!) log) ps @ drop (length ps) buf \<and>
     unat (sub_cursor s') = unat (sub_cursor s) + length ps + unat (sub_total_lagged s' - sub_total_lagged s)"

lemma poll_batch_stored:
  assumes "at_log k log (as_inner a, m)" "publishing k log es log'" "length buf < 2 ^ 64"
    and p: "AsyncSubscriber_poll_recv_batch es a m buf wakes = (res, buf', a', m', wakes', es')"
  shows "\<exists>vs ps. at_log k (log @ vs) (as_inner a', m') \<and> publishing k (log @ vs) es' log' \<and>
    stored_batch (log @ vs) (as_inner a) (as_inner a') buf buf' ps \<and>
    (case res of
       Ready count \<Rightarrow> unat count = length ps \<and> wakes' = wakes \<and> (count = 0 \<longleftrightarrow> buf = []) \<and> (buf = [] \<longrightarrow> a' = a)
     | Pending \<Rightarrow> ps = [] \<and> buf \<noteq> [] \<and> wakes' = wakes + 1)"
proof -
  obtain vs ps where poll: "at_log k (log @ vs) (as_inner a', m')" "publishing k (log @ vs) es' log'" "sorted_wrt (<) ps"
      "\<forall>p\<in>set ps. unat (sub_cursor (as_inner a)) \<le> p \<and> p < unat (sub_cursor (as_inner a'))"
      "buf' = map ((!) (log @ vs)) ps @ drop (length ps) buf"
      "case res of
         Ready count \<Rightarrow> unat count = length ps \<and> wakes' = wakes \<and> (count = 0 \<longleftrightarrow> buf = []) \<and> (buf = [] \<longrightarrow> a' = a)
       | Pending \<Rightarrow> ps = [] \<and> buf \<noteq> [] \<and> wakes' = wakes + 1"
    using poll_batch_in_order [OF assms] by blast
  let ?c = "case res of Ready c \<Rightarrow> c | Pending \<Rightarrow> 0"
  have c: "unat ?c = length ps" using poll(6) by (auto split: poll.splits)
  have "unat (sub_cursor (as_inner a)) \<le> unat (sub_cursor (as_inner a'))"
  proof (cases res)
    case Pending
    then show ?thesis using pending_batch_monotone [OF assms(1-3)] p by simp
  next
    case (Ready n)
    then show ?thesis using poll(4,6) by (cases ps) (auto simp: unat_eq_zero)
  qed
  from offset_positions [OF _ _ c poll(3,4) this] poll_batch_offset [OF p]
  show ?thesis using poll unfolding stored_batch_def by blast
qed

lemma poll_batch_pending:
  assumes g: "at_log k log (as_inner a, m)" and len: "length buf < 2 ^ 64"
    and p: "AsyncSubscriber_poll_recv_batch es a m buf wakes = (Pending, buf', a', m', wakes', es')"
  shows "buf \<noteq> [] \<and> unat (sub_cursor (as_inner a)) = length log"
proof -
  have ne: "buf \<noteq> []" using p by (auto simp: AsyncSubscriber_poll_recv_batch_def)
  obtain count buf1 s1 m1 where b: "Subscriber_recv_batch (as_inner a) m buf = (count, buf1, s1, m1)" by (metis prod_cases4)
  have "count = 0"
  proof (rule ccontr)
    assume "count \<noteq> 0"
    then show False using p ne b by (simp add: AsyncSubscriber_poll_recv_batch_def word_gt_0)
  qed
  moreover have "unat count = length (take (length buf) (drop (oldest_pos k log (unat (sub_cursor (as_inner a)))) log))"
    using recv_batch_spec [OF g b [unfolded Subscriber_recv_batch_def] len] by (simp add: Let_def)
  ultimately have "length log \<le> oldest_pos k log (unat (sub_cursor (as_inner a)))" using ne by (simp add: min_def split: if_splits)
  then have "length log \<le> unat (sub_cursor (as_inner a))"
    using sub_recv.good_cap [OF g] sub_recv.good_pos [OF g] by (cases log) (auto simp: oldest_pos_def max_def split: if_splits)
  then show ?thesis using ne sub_recv.good_pos [OF g] by simp
qed

lemma recv_batch_stored:
  assumes "at_log k log (as_inner a, m)" "publishing k log es log'" "length buf < 2 ^ 64"
    and r: "AsyncSubscriber_recv_batch es a m buf wakes = Some (count, buf', a', m', wakes', es')"
  shows "\<exists>vs ps. at_log k (log @ vs) (as_inner a', m') \<and> publishing k (log @ vs) es' log' \<and>
    stored_batch (log @ vs) (as_inner a) (as_inner a') buf buf' ps \<and> unat count = length ps \<and> (count = 0 \<longleftrightarrow> buf = [])"
proof -
  obtain vs ps where out: "at_log k (log @ vs) (as_inner a', m')" "publishing k (log @ vs) es' log'" "sorted_wrt (<) ps"
      "\<forall>p\<in>set ps. unat (sub_cursor (as_inner a)) \<le> p \<and> p < unat (sub_cursor (as_inner a'))"
      "buf' = map ((!) (log @ vs)) ps @ drop (length ps) buf" "unat count = length ps" "count = 0 \<longleftrightarrow> buf = []"
    using recv_batch_in_order [OF assms] by blast
  have "unat (sub_cursor (as_inner a)) \<le> unat (sub_cursor (as_inner a'))"
  proof (cases ps)
    case Nil
    then have "buf = []" using out(6,7) by (simp add: unat_eq_zero)
    then show ?thesis using r by (simp add: AsyncSubscriber_recv_batch.simps [of es] AsyncSubscriber_poll_recv_batch_def)
  qed (use out(4) in auto)
  from offset_positions [OF _ _ out(6,3,4) this] recv_batch_async_offset [OF r]
  show ?thesis using out unfolding stored_batch_def by blast
qed

section \<open>Properties\<close>

text \<open>C23: An asynchronous \<^verbatim>\<open>recv\<close> that waits at the end of the log returns the next message published, however long
  that takes, and moves past it; the task has then been woken exactly once per poll that came back pending, so that
  no wake-up is lost.  The exception is a spin budget of zero, which the constructors accept: then no poll ever
  looks at the ring and \<^verbatim>\<open>recv\<close> never returns.\<close>

theorem async_recv_returns:
  assumes "at_log k log (as_inner a, m)" "unat (sub_cursor (as_inner a)) = length log" "appends k log e [v]"
  shows "case AsyncSubscriber_recv (replicate j id @ e # replicate (Suc j') id) a m wakes of
      Some (v', a', m', wakes', es') \<Rightarrow> as_spin_budget a \<noteq> 0 \<and> v' = v \<and> unat (sub_cursor (as_inner a')) = length log + 1
        \<and> wakes' = wakes + (j + 2) div (unat (as_spin_budget a) + 1)
    | None \<Rightarrow> as_spin_budget a = 0"
proof (cases "as_spin_budget a = 0")
  case True
  then show ?thesis by (simp only: recv_no_budget option.case)
next
  case False
  then have "0 < unat (as_spin_budget a)" by (simp add: unat_gt_0)
  then obtain a' m' es' where "AsyncSubscriber_recv (replicate j id @ e # replicate (Suc j') id) a m wakes =
      Some (v, a', m', wakes + (j + 2) div (unat (as_spin_budget a) + 1), es')"
      "unat (sub_cursor (as_inner a')) = length log + 1"
    using recv_wakes_async [OF assms] by blast
  then show ?thesis using False by simp
qed

theorem async_recv_returns_witness:
  "case AsyncSubscriber_recv (replicate 1000 id @ publish_now 6 # replicate (Suc 0) id)
       (AsyncSubscriber_new (demo_sub 1)) (demo_ring [5], []) 0 of
     Some (v, a', m', wakes', es') \<Rightarrow> v = 6 \<and> wakes' = 15
   | None \<Rightarrow> False"
proof -
  have g: "at_log 4 [5] (as_inner (AsyncSubscriber_new (demo_sub 1)), (demo_ring [5], []))"
    using demo_at_log [of "[5]" 1 "[]"] by (simp add: AsyncSubscriber_new_def log_fits_def)
  have "unat (sub_cursor (as_inner (AsyncSubscriber_new (demo_sub 1)))) = length [5 :: u64]"
    by (simp add: AsyncSubscriber_new_def demo_sub_def)
  from async_recv_returns [OF g this publish_now_appends, where v = 6 and j = 1000 and j' = 0 and wakes = 0] show ?thesis
    by (auto simp: AsyncSubscriber_new_def DEFAULT_SPIN_BUDGET_def log_fits_def split: option.splits)
qed



end
