(* ===== verification/Metrics.thy ===== *)
theory Metrics
  imports Subscriber
begin

text \<open>
  The observability wrappers of \<^verbatim>\<open>src/photon-ring-metrics/src/lib.rs\<close>: snapshots, deltas and their text form.

  The floating-point operations (the ratio of a subscriber, the multiplication by 100 and the formatting with two
  decimals) are arguments; integers are printed in decimal, as the standard library does.
\<close>

section \<open>Snapshots\<close>

record 'f subscriber_snapshot =
  ss_total_received :: u64
  ss_total_lagged :: u64
  ss_receive_ratio :: 'f
  ss_pending :: u64

record publisher_snapshot =
  ps_published :: u64
  ps_capacity :: u64

record subscriber_metrics =
  sm_prev_received :: u64
  sm_prev_lagged :: u64

definition SubscriberMetrics_new :: "subscriber \<Rightarrow> subscriber_metrics" where
  "SubscriberMetrics_new sub = \<lparr>sm_prev_received = sub_total_received sub, sm_prev_lagged = sub_total_lagged sub\<rparr>"

definition SubscriberMetrics_snapshot :: "(subscriber \<Rightarrow> 'f) \<Rightarrow> subscriber \<Rightarrow> 'a shared_ring \<Rightarrow> 'f subscriber_snapshot" where
  "SubscriberMetrics_snapshot ratio sub r =
     \<lparr>ss_total_received = sub_total_received sub, ss_total_lagged = sub_total_lagged sub,
      ss_receive_ratio = ratio sub, ss_pending = Subscriber_pending sub r\<rparr>"

definition SubscriberMetrics_delta ::
    "(subscriber \<Rightarrow> 'f) \<Rightarrow> subscriber_metrics \<Rightarrow> subscriber \<Rightarrow> 'a shared_ring \<Rightarrow> 'f subscriber_snapshot \<times> subscriber_metrics" where
  "SubscriberMetrics_delta ratio mt sub r =
     (let current = SubscriberMetrics_snapshot ratio sub r;
          delta = \<lparr>ss_total_received = ss_total_received current - sm_prev_received mt,
                   ss_total_lagged = ss_total_lagged current - sm_prev_lagged mt,
                   ss_receive_ratio = ss_receive_ratio current, ss_pending = ss_pending current\<rparr>
      in (delta, mt\<lparr>sm_prev_received := ss_total_received current, sm_prev_lagged := ss_total_lagged current\<rparr>))"

definition PublisherMetrics_snapshot :: "publisher \<Rightarrow> 'a shared_ring \<Rightarrow> publisher_snapshot" where
  "PublisherMetrics_snapshot p r = \<lparr>ps_published = Publisher_published p, ps_capacity = SharedRing_capacity r\<rparr>"

section \<open>Text form\<close>

fun show_nat :: "nat \<Rightarrow> string" where
  "show_nat n = (if n < 10 then [char_of (48 + n)] else show_nat (n div 10) @ [char_of (48 + n mod 10)])"

declare show_nat.simps [simp del]

definition show_u64 :: "u64 \<Rightarrow> string" where
  "show_u64 n = show_nat (unat n)"

definition SubscriberSnapshot_fmt :: "('f \<Rightarrow> 'f) \<Rightarrow> ('f \<Rightarrow> string) \<Rightarrow> 'f subscriber_snapshot \<Rightarrow> string" where
  "SubscriberSnapshot_fmt times_100 show_2 s =
     ''recv='' @ show_u64 (ss_total_received s) @ '' lag='' @ show_u64 (ss_total_lagged s) @
     '' ratio='' @ show_2 (times_100 (ss_receive_ratio s)) @ ''% pending='' @ show_u64 (ss_pending s)"

definition PublisherSnapshot_fmt :: "publisher_snapshot \<Rightarrow> string" where
  "PublisherSnapshot_fmt s = ''published='' @ show_u64 (ps_published s) @ '' capacity='' @ show_u64 (ps_capacity s)"

section \<open>A metered subscriber\<close>

text \<open>A consumer that receives \<open>n\<close> times between two deltas, while other threads act before every receive.\<close>

fun receives :: "nat \<Rightarrow> 'a interference \<Rightarrow> subscriber \<Rightarrow> 'a mem \<Rightarrow> subscriber \<times> 'a mem" where
  "receives 0 es s m = (s, m)"
| "receives (Suc n) es s m =
     (let (m1, es1) = interfere es m; (res, s', m') = Subscriber_try_recv s m1 in receives n es1 s' m')"

fun metered ::
    "(subscriber \<Rightarrow> 'f) \<Rightarrow> subscriber_metrics \<Rightarrow> (nat \<times> 'a interference) list \<Rightarrow> subscriber \<Rightarrow> 'a mem \<Rightarrow>
     'f subscriber_snapshot list \<times> subscriber" where
  "metered ratio mt [] s m = ([], s)"
| "metered ratio mt ((n, es) # rounds) s m =
     (let (s', m') = receives n es s m;
          (delta, mt') = SubscriberMetrics_delta ratio mt s' (fst m');
          (deltas, s'') = metered ratio mt' rounds s' m'
      in (delta # deltas, s''))"

section \<open>Accounting\<close>

lemma u64_account:
  fixes c c' r r' l l' :: u64
  assumes "c' - r' - l' = c - r - l"
  shows "(r' - r) + (l' - l) = c' - c"
proof -
  have "c' = c - r - l + l' + r'" using assms by (metis diff_add_cancel)
  then show ?thesis by simp
qed

lemma try_recv_account:
  assumes "Subscriber_try_recv s m = (res, s', m')"
  shows "sub_cursor s' - sub_total_received s' - sub_total_lagged s' = sub_cursor s - sub_total_received s - sub_total_lagged s"
  using assms
  by (auto simp: Subscriber_try_recv_def Subscriber_read_slot_def read_slot_overwritten_def take_message_def Let_def
      split: sum.splits option.splits if_splits)

lemma receives_account:
  "receives n es s m = (s', m') \<Longrightarrow>
   sub_cursor s' - sub_total_received s' - sub_total_lagged s' = sub_cursor s - sub_total_received s - sub_total_lagged s"
proof (induction n arbitrary: es s m)
  case (Suc n)
  obtain m1 es1 where i: "interfere es m = (m1, es1)" by (cases "interfere es m")
  obtain res s1 m2 where t: "Subscriber_try_recv s m1 = (res, s1, m2)" by (cases "Subscriber_try_recv s m1") auto
  show ?case using Suc.IH [of es1 s1 m2] Suc.prems try_recv_account [OF t] by (simp add: i t)
qed simp

lemma metered_account:
  assumes "metered ratio mt rounds s m = (deltas, s')" "rounds \<noteq> []"
  shows "sum_list (map ss_total_received deltas) = sub_total_received s' - sm_prev_received mt \<and>
    sum_list (map ss_total_lagged deltas) = sub_total_lagged s' - sm_prev_lagged mt \<and>
    sub_cursor s' - sub_total_received s' - sub_total_lagged s' = sub_cursor s - sub_total_received s - sub_total_lagged s"
  using assms
proof (induction ratio mt rounds s m arbitrary: deltas rule: metered.induct)
  case (2 ratio mt n es rounds s m)
  obtain s1 m1 where r: "receives n es s m = (s1, m1)" by (cases "receives n es s m")
  obtain d mt1 where d: "SubscriberMetrics_delta ratio mt s1 (fst m1) = (d, mt1)"
    by (cases "SubscriberMetrics_delta ratio mt s1 (fst m1)")
  obtain ds where ds: "metered ratio mt1 rounds s1 m1 = (ds, s')" "deltas = d # ds"
    using "2.prems"(1) by (auto simp: r d split: prod.splits)
  have delta: "ss_total_received d = sub_total_received s1 - sm_prev_received mt"
      "ss_total_lagged d = sub_total_lagged s1 - sm_prev_lagged mt"
      "sm_prev_received mt1 = sub_total_received s1" "sm_prev_lagged mt1 = sub_total_lagged s1"
    using d by (auto simp: SubscriberMetrics_delta_def SubscriberMetrics_snapshot_def Let_def)
  note acc = receives_account [OF r]
  show ?case
  proof (cases "rounds = []")
    case True
    then show ?thesis using ds delta acc by auto
  next
    case False
    then have ih: "sum_list (map ss_total_received ds) = sub_total_received s' - sm_prev_received mt1"
        "sum_list (map ss_total_lagged ds) = sub_total_lagged s' - sm_prev_lagged mt1"
        "sub_cursor s' - sub_total_received s' - sub_total_lagged s' = sub_cursor s1 - sub_total_received s1 - sub_total_lagged s1"
      using "2.IH" [OF r [symmetric] refl d [symmetric] refl ds(1)] by auto
    show ?thesis using ih(1,2) trans [OF ih(3) acc] ds(2) delta by simp
  qed
qed simp

section \<open>Decimal text\<close>

definition read_nat :: "string \<Rightarrow> nat" where
  "read_nat s = foldl (\<lambda>n c. 10 * n + (of_char c - 48)) 0 s"

lemma read_show: "read_nat (show_nat n) = n"
proof (induction n rule: show_nat.induct)
  case (1 n)
  show ?case
  proof (cases "n < 10")
    case True
    then show ?thesis by (simp add: show_nat.simps [of n] read_nat_def)
  next
    case False
    then have "48 + n mod 10 < 256" by simp
    then show ?thesis using False 1 by (simp add: show_nat.simps [of n] read_nat_def)
  qed
qed

lemma digit_no_space: "d < 10 \<Longrightarrow> char_of (48 + d :: nat) \<noteq> CHR '' ''"
proof
  assume d: "d < 10" and "char_of (48 + d) = CHR '' ''"
  then have "of_char (char_of (48 + d)) = (of_char CHR '' '' :: nat)" by (simp only:)
  moreover have "of_char (char_of (48 + d)) = 48 + d" using d by (simp only: of_char_of) simp
  moreover have "(of_char CHR '' '' :: nat) = 32" by simp
  ultimately show False by linarith
qed

lemma show_nat_no_space: "CHR '' '' \<notin> set (show_nat n)"
proof (induction n rule: show_nat.induct)
  case (1 n)
  show ?case
  proof (cases "n < 10")
    case True
    then show ?thesis using digit_no_space [OF True] by (simp only: show_nat.simps [of n] if_True) auto
  next
    case False
    then show ?thesis using 1 digit_no_space [of "n mod 10"] by (simp only: show_nat.simps [of n] if_False) auto
  qed
qed

lemma show_u64_inj: "show_u64 a = show_u64 b \<longleftrightarrow> a = b"
  unfolding show_u64_def by (metis read_show word_unat_eq_iff)

text \<open>A text form that ends at a space determines the number in front of it.\<close>

lemma show_u64_field:
  assumes "show_u64 a @ CHR '' '' # x = show_u64 b @ CHR '' '' # y"
  shows "a = b \<and> x = y"
proof -
  have "takeWhile (\<lambda>c. c \<noteq> CHR '' '') (show_u64 n @ CHR '' '' # z) = show_u64 n" for n z
    using show_nat_no_space [of "unat n"] by (subst takeWhile_append2) (auto simp: show_u64_def)
  then have "show_u64 a = show_u64 b" using assms by metis
  then show ?thesis using assms show_u64_inj by auto
qed

lemma PublisherSnapshot_fmt_inj:
  assumes "PublisherSnapshot_fmt s = PublisherSnapshot_fmt t"
  shows "s = (t :: publisher_snapshot)"
proof -
  have "show_u64 (ps_published s) @ CHR '' '' # ''capacity='' @ show_u64 (ps_capacity s) =
        show_u64 (ps_published t) @ CHR '' '' # ''capacity='' @ show_u64 (ps_capacity t)"
    using assms by (simp add: PublisherSnapshot_fmt_def)
  from show_u64_field [OF this] show ?thesis using show_u64_inj by auto
qed

section \<open>Property\<close>

text \<open>The deltas of a subscriber account for everything it did: whatever other threads do in between, the
  received counts of all deltas since the baseline add up to the messages received, the lagged counts to the messages
  lost, and both together to the distance the cursor has moved.\<close>

theorem metrics_deltas_account:
  assumes "metered ratio (SubscriberMetrics_new s) rounds s m = (deltas, s')" "rounds \<noteq> []"
  shows "sum_list (map ss_total_received deltas) = sub_total_received s' - sub_total_received s \<and>
    sum_list (map ss_total_lagged deltas) = sub_total_lagged s' - sub_total_lagged s \<and>
    sum_list (map (\<lambda>d. ss_total_received d + ss_total_lagged d) deltas) = sub_cursor s' - sub_cursor s"
proof -
  have base: "sm_prev_received (SubscriberMetrics_new s) = sub_total_received s"
      "sm_prev_lagged (SubscriberMetrics_new s) = sub_total_lagged s"
    by (simp_all add: SubscriberMetrics_new_def)
  note acc = metered_account [OF assms, unfolded base]
  have "sum_list (map (\<lambda>d. ss_total_received d + ss_total_lagged d) deltas) =
      sum_list (map ss_total_received deltas) + sum_list (map ss_total_lagged deltas)"
    by (simp add: sum_list_addf)
  then show ?thesis using acc u64_account by simp
qed

theorem metrics_deltas_account_witness:
  "\<exists>deltas s'. metered (\<lambda>_. ()) (SubscriberMetrics_new \<lparr>sub_index = projr (RingIndex_new 4), sub_cursor = 0, sub_tracker = None,
         sub_total_lagged = 3, sub_total_received = 9\<rparr>) [(3, [id]), (2, [])]
       \<lparr>sub_index = projr (RingIndex_new 4), sub_cursor = 0, sub_tracker = None, sub_total_lagged = 3, sub_total_received = 9\<rparr>
       (snd (publish_batch_lossy (fst (projr (channel (0 :: u64) 4))) (snd (projr (channel (0 :: u64) 4))) [1, 2, 3, 4, 5, 6]), [])
       = (deltas, s')
     \<and> sum_list (map ss_total_received deltas) = sub_total_received s' - 9"
proof -
  let ?s = "\<lparr>sub_index = projr (RingIndex_new 4), sub_cursor = 0, sub_tracker = None, sub_total_lagged = 3, sub_total_received = 9\<rparr>"
  let ?m = "(snd (publish_batch_lossy (fst (projr (channel (0 :: u64) 4))) (snd (projr (channel (0 :: u64) 4))) [1, 2, 3, 4, 5, 6]), [])"
  obtain deltas s' where x: "metered (\<lambda>_. ()) (SubscriberMetrics_new ?s) [(3, [id]), (2, [])] ?s ?m = (deltas, s')"
    by (metis prod.exhaust)
  from metrics_deltas_account [OF this] show ?thesis using x by auto
qed

end
