(* ===== verification/Platform.thy ===== *)
theory Platform
  imports Publisher Wait
begin

text \<open>
  The parts of the crate that talk to the platform: memory control (\<^verbatim>\<open>src/src/mem.rs\<close>, with
  \<^verbatim>\<open>Publisher::mlock\<close> and \<^verbatim>\<open>Publisher::prefault\<close>), core affinity (\<^verbatim>\<open>src/src/affinity.rs\<close>) and the prefetch of the
  next slot (\<^verbatim>\<open>prefetch_write_next\<close> in \<^verbatim>\<open>src/src/channel/mod.rs\<close>).

  System calls and the functions of \<^verbatim>\<open>libc\<close> and \<^verbatim>\<open>core_affinity2\<close> are arguments: they take the call's
  arguments and return its result.  An address is a natural number; the address and the slot size of a ring,
  which the allocator and the compiler choose, are arguments too.
\<close>

section \<open>Memory control\<close>

datatype prot = PROT_READ | PROT_WRITE
datatype map_flag = MAP_PRIVATE | MAP_ANONYMOUS | MAP_HUGETLB

record mmap_call =
  mm_addr :: nat
  mm_len :: usize
  mm_prot :: "prot list"
  mm_flags :: "map_flag list"
  mm_fd :: int
  mm_offset :: int

text \<open>\<open>None\<close> is \<^verbatim>\<open>MAP_FAILED\<close>, and 0 the null pointer.\<close>

definition mmap_huge_pages :: "(mmap_call \<Rightarrow> nat option) \<Rightarrow> usize \<Rightarrow> nat" where
  "mmap_huge_pages mmap sz =
     (case mmap \<lparr>mm_addr = 0, mm_len = sz, mm_prot = [PROT_READ, PROT_WRITE],
                 mm_flags = [MAP_PRIVATE, MAP_ANONYMOUS, MAP_HUGETLB], mm_fd = - 1, mm_offset = 0\<rparr> of
        None \<Rightarrow> 0
      | Some ptr \<Rightarrow> ptr)"

definition mlock_pages :: "(nat \<Rightarrow> usize \<Rightarrow> int) \<Rightarrow> nat \<Rightarrow> usize \<Rightarrow> bool" where
  "mlock_pages mlock ptr sz = (mlock ptr sz = 0)"

type_synonym byte_mem = "nat \<Rightarrow> u8"

function prefault_from :: "nat \<Rightarrow> nat \<Rightarrow> nat \<Rightarrow> byte_mem \<Rightarrow> byte_mem" where
  "prefault_from offset ptr sz mem =
     (if offset < sz then prefault_from (offset + 4096) ptr sz (mem(ptr + offset := 0)) else mem)"
  by pat_completeness auto
termination
  by (relation "measure (\<lambda>(offset, ptr, sz, mem). sz - offset)") auto

declare prefault_from.simps [simp del]

definition prefault_pages :: "nat \<Rightarrow> usize \<Rightarrow> byte_mem \<Rightarrow> byte_mem" where
  "prefault_pages ptr sz mem = prefault_from 0 ptr (unat sz) mem"

definition Publisher_mlock :: "(nat \<Rightarrow> usize \<Rightarrow> int) \<Rightarrow> nat \<Rightarrow> nat \<Rightarrow> 'a shared_ring \<Rightarrow> bool" where
  "Publisher_mlock mlock slots_ptr size_of_slot r = mlock_pages mlock slots_ptr (SharedRing_slots_byte_len size_of_slot r)"

definition Publisher_prefault ::
    "nat \<Rightarrow> nat \<Rightarrow> publisher \<Rightarrow> 'a shared_ring \<Rightarrow> byte_mem \<Rightarrow> byte_mem may_panic" where
  "Publisher_prefault slots_ptr size_of_slot p r mem =
     (if pb_seq p \<noteq> 0 then Inl PrefaultAfterPublish
      else Inr (prefault_pages slots_ptr (SharedRing_slots_byte_len size_of_slot r) mem))"

text \<open>The arguments of \<^verbatim>\<open>set_mempolicy\<close>; \<open>None\<close> is the null mask.\<close>

record mempolicy_call =
  mp_mode :: int
  mp_nodemask :: "u64 option"
  mp_maxnode :: u64

definition set_numa_preferred :: "(mempolicy_call \<Rightarrow> int) \<Rightarrow> usize \<Rightarrow> bool" where
  "set_numa_preferred syscall node =
     (let max_node = 8 * 8
      in if node \<ge> max_node then False
         else syscall \<lparr>mp_mode = 1, mp_nodemask = Some (push_bit (unat node mod 64) 1), mp_maxnode = max_node\<rparr> = 0)"

definition reset_numa_policy :: "(mempolicy_call \<Rightarrow> int) \<Rightarrow> bool" where
  "reset_numa_policy syscall = (syscall \<lparr>mp_mode = 0, mp_nodemask = None, mp_maxnode = 0\<rparr> = 0)"

section \<open>Core affinity\<close>

definition pin_to_core :: "('c \<Rightarrow> bool) \<Rightarrow> 'c \<Rightarrow> bool" where
  "pin_to_core set_affinity core_id = set_affinity core_id"

definition available_cores :: "'c list option \<Rightarrow> 'c list" where
  "available_cores get_core_ids = (case get_core_ids of Some cores \<Rightarrow> cores | None \<Rightarrow> [])"

definition pin_to_core_id :: "('c \<Rightarrow> bool) \<Rightarrow> 'c list option \<Rightarrow> usize \<Rightarrow> bool" where
  "pin_to_core_id set_affinity get_core_ids index =
     (let cores = available_cores get_core_ids
      in if unat index < length cores then pin_to_core set_affinity (cores ! unat index) else False)"

definition core_count :: "'c list option \<Rightarrow> usize" where
  "core_count get_core_ids = of_nat (length (available_cores get_core_ids))"

section \<open>Prefetching\<close>

datatype prefetch = PREFETCHW nat | PREFETCHT0 nat | PRFM_PSTL1KEEP nat

primrec prefetch_addr :: "prefetch \<Rightarrow> nat" where
  "prefetch_addr (PREFETCHW a) = a"
| "prefetch_addr (PREFETCHT0 a) = a"
| "prefetch_addr (PRFM_PSTL1KEEP a) = a"

definition prefetch_write_next :: "target_arch \<Rightarrow> bool \<Rightarrow> nat \<Rightarrow> nat \<Rightarrow> u64 \<Rightarrow> prefetch list" where
  "prefetch_write_next arch prfchw size_of_slot slots_ptr next_idx =
     (let ptr = slots_ptr + unat next_idx * size_of_slot;
          lines = (size_of_slot + 63) div 64;
          x86 = map (\<lambda>i. if prfchw then PREFETCHW (ptr + i * 64) else PREFETCHT0 (ptr + i * 64)) [0 ..< lines]
      in case arch of
           X86_64 \<Rightarrow> x86
         | X86 \<Rightarrow> x86
         | Aarch64 \<Rightarrow> map (\<lambda>i. PRFM_PSTL1KEEP (ptr + i * 64)) [0 ..< lines]
         | OtherArch \<Rightarrow> [])"

section \<open>What prefaulting writes\<close>

lemma prefault_from_spec:
  "prefault_from offset ptr sz mem a =
     (if ptr + offset \<le> a \<and> a < ptr + sz \<and> 4096 dvd a - ptr - offset then 0 else mem a)"
proof (induction offset ptr sz mem rule: prefault_from.induct)
  case (1 offset ptr sz mem)
  show ?case
  proof (cases "offset < sz")
    case False
    then show ?thesis by (auto simp: prefault_from.simps [of offset])
  next
    case True
    have split: "4096 dvd a - ptr - offset \<longleftrightarrow> a = ptr + offset \<or> ptr + (offset + 4096) \<le> a \<and> 4096 dvd a - ptr - (offset + 4096)"
      if "ptr + offset \<le> a"
    proof (cases "a < ptr + offset + 4096")
      case True
      then have "a - ptr - offset < 4096" using that by linarith
      then show ?thesis using that by (auto dest: dvd_imp_le)
    next
      case False
      then have "a - ptr - offset = (a - ptr - (offset + 4096)) + 4096" using that by linarith
      then have "4096 dvd a - ptr - offset \<longleftrightarrow> 4096 dvd a - ptr - (offset + 4096)" by (simp only: dvd_add_triv_right_iff)
      then show ?thesis using False by simp
    qed
    have "prefault_from offset ptr sz mem a = prefault_from (offset + 4096) ptr sz (mem(ptr + offset := 0)) a"
      using True by (simp only: prefault_from.simps [of offset] if_True)
    also have "\<dots> = (if ptr + (offset + 4096) \<le> a \<and> a < ptr + sz \<and> 4096 dvd a - ptr - (offset + 4096) then 0
        else if a = ptr + offset then 0 else mem a)"
      unfolding 1 [OF True] by (simp only: fun_upd_apply)
    also have "\<dots> = (if ptr + offset \<le> a \<and> a < ptr + sz \<and> 4096 dvd a - ptr - offset then 0 else mem a)"
    proof (cases "ptr + offset \<le> a")
      case le: True
      show ?thesis unfolding split [OF le] using True le by auto
    next
      case False
      then show ?thesis by auto
    qed
    finally show ?thesis .
  qed
qed

lemma prefault_pages_spec:
  "prefault_pages ptr sz mem a = (if ptr \<le> a \<and> a < ptr + unat sz \<and> 4096 dvd a - ptr then 0 else mem a)"
  by (simp add: prefault_pages_def prefault_from_spec)

text \<open>The pages that a write at a multiple of the page size from \<open>ptr\<close> reaches.\<close>

lemma touched_page:
  fixes ptr sz p :: nat
  shows "(\<exists>a. ptr \<le> a \<and> a < ptr + sz \<and> 4096 dvd a - ptr \<and> a div 4096 = p) \<longleftrightarrow>
     ptr div 4096 \<le> p \<and> (p - ptr div 4096) * 4096 < sz"
proof
  assume "\<exists>a. ptr \<le> a \<and> a < ptr + sz \<and> 4096 dvd a - ptr \<and> a div 4096 = p"
  then obtain a i where "ptr \<le> a" "a < ptr + sz" "a - ptr = 4096 * i" "a div 4096 = p" by (auto elim: dvdE)
  moreover from this have "a = ptr + i * 4096" by linarith
  ultimately show "ptr div 4096 \<le> p \<and> (p - ptr div 4096) * 4096 < sz" by auto
next
  assume p: "ptr div 4096 \<le> p \<and> (p - ptr div 4096) * 4096 < sz"
  let ?a = "ptr + (p - ptr div 4096) * 4096"
  have "?a div 4096 = p" using p by simp
  then show "\<exists>a. ptr \<le> a \<and> a < ptr + sz \<and> 4096 dvd a - ptr \<and> a div 4096 = p"
    using p by (intro exI [of _ ?a]) auto
qed

lemma last_page:
  fixes ptr sz :: nat
  assumes "0 < sz"
  shows "((ptr + sz - 1) div 4096 - ptr div 4096) * 4096 < sz \<longleftrightarrow> ptr mod 4096 + sz \<le> (sz + 4095) div 4096 * 4096"
proof -
  define q r where "q = ptr div 4096" and "r = ptr mod 4096"
  have ptr: "ptr = q * 4096 + r" "r < 4096" by (simp_all add: q_def r_def)
  obtain n t where n: "sz = n * 4096 + t" "t < 4096" by (metis div_mult_mod_eq mod_less_divisor zero_less_numeral)
  have "(ptr + sz - 1) div 4096 = q + (r + sz - 1) div 4096"
    using assms ptr(1) by (simp add: add.assoc)
  moreover have "(r + sz - 1) div 4096 * 4096 < sz \<longleftrightarrow> r + sz \<le> (sz + 4095) div 4096 * 4096"
  proof (cases "t = 0")
    case True
    then obtain n' where n': "n = Suc n'" using assms n by (cases n) auto
    have "(sz + 4095) div 4096 = n" using n(1) True by simp
    moreover have "(r + sz - 1) div 4096 = (if r = 0 then n' else n)"
      using n(1) True n' ptr(2) by (auto simp: div_nat_eqI)
    ultimately show ?thesis using n(1) True n' by auto
  next
    case False
    have "(sz + 4095) div 4096 = n + 1" using n False by (simp add: div_nat_eqI)
    moreover have "(r + sz - 1) div 4096 = n + (if r + t \<le> 4096 then 0 else 1)"
      using n False ptr(2) by (auto simp: div_nat_eqI)
    ultimately show ?thesis using n False by auto
  qed
  ultimately show ?thesis by (simp add: q_def r_def)
qed

section \<open>Masks, cores and cache lines\<close>

lemma numa_mask:
  assumes "unat node < 64"
  shows "bit (push_bit (unat node mod 64) 1 :: u64) i \<longleftrightarrow> i = unat node"
  using assms by (auto simp: bit_simps)

lemma numa_out_of_range: "64 \<le> unat node \<Longrightarrow> \<not> set_numa_preferred syscall node"
  by (simp add: set_numa_preferred_def word_le_nat_alt)

lemma pin_to_core_id_iff:
  "pin_to_core_id set_affinity get_core_ids index \<longleftrightarrow>
     (\<exists>cores. get_core_ids = Some cores \<and> unat index < length cores \<and> set_affinity (cores ! unat index))"
  by (auto simp: pin_to_core_id_def available_cores_def pin_to_core_def Let_def split: option.splits)

text \<open>Every byte of the slot lies in a prefetched line, and no line outside the slot is prefetched.\<close>

lemma prefetch_covers_slot:
  assumes "64 dvd slots_ptr" "64 dvd size_of_slot" "arch \<noteq> OtherArch"
    and ptr_def: "ptr = slots_ptr + unat next_idx * size_of_slot"
  shows "(\<lambda>f. prefetch_addr f div 64) ` set (prefetch_write_next arch prfchw size_of_slot slots_ptr next_idx) =
    (\<lambda>a. a div 64) ` {ptr ..< ptr + size_of_slot}"
proof -
  obtain s where s: "size_of_slot = s * 64" using assms(2) by (metis dvd_def mult.commute)
  obtain q where q: "ptr = q * 64" using assms(1,2) by (metis ptr_def dvd_add dvd_mult dvd_def mult.commute)
  have "prefetch_addr ` set (prefetch_write_next arch prfchw size_of_slot slots_ptr next_idx) = (\<lambda>i. ptr + i * 64) ` {0 ..< s}"
    using assms(3) s by (cases arch) (auto simp: prefetch_write_next_def ptr_def Let_def image_image)
  then have "(\<lambda>f. prefetch_addr f div 64) ` set (prefetch_write_next arch prfchw size_of_slot slots_ptr next_idx) = (\<lambda>i. q + i) ` {0 ..< s}"
    using q by (simp add: image_image [symmetric, of "\<lambda>a. a div 64" prefetch_addr]) (simp add: image_image)
  also have "\<dots> = (\<lambda>a. a div 64) ` {ptr ..< ptr + size_of_slot}"
  proof (intro set_eqI iffI)
    fix x assume "x \<in> (\<lambda>i. q + i) ` {0 ..< s}"
    then have "x = (x * 64) div 64" "x * 64 \<in> {ptr ..< ptr + size_of_slot}" using q s by auto
    then show "x \<in> (\<lambda>a. a div 64) ` {ptr ..< ptr + size_of_slot}" by blast
  next
    fix x assume "x \<in> (\<lambda>a. a div 64) ` {ptr ..< ptr + size_of_slot}"
    then obtain a where "x = a div 64" "q * 64 \<le> a" "a < (q + s) * 64" using q s by (auto simp: algebra_simps)
    then have "q \<le> x" "x < q + s" by (auto simp: less_mult_imp_div_less div_le_mono less_eq_div_iff_mult_less_eq)
    then show "x \<in> (\<lambda>i. q + i) ` {0 ..< s}" by (intro image_eqI [of _ _ "x - q"]) auto
  qed
  finally show ?thesis .
qed

section \<open>Property\<close>

text \<open>C40: \<^verbatim>\<open>Publisher::prefault\<close> panics exactly when something has been published.  Otherwise it writes a zero byte
  at every multiple of 4096 bytes from the start of the slot array, stays inside the array and changes nothing else.
  Every 4 KiB page that meets the array is touched this way exactly when the array fits into as many pages as its
  size needs: an array that starts inside a page and reaches into one page more leaves its last page untouched.\<close>

theorem prefault_writes:
  assumes len: "len = unat (SharedRing_slots_byte_len size_of_slot r)" and "0 < len"
  shows "Publisher_prefault ptr size_of_slot p r mem =
      (if pb_seq p = 0 then Inr (\<lambda>a. if a \<in> {a. ptr \<le> a \<and> a < ptr + len \<and> 4096 dvd a - ptr} then 0 else mem a)
       else Inl PrefaultAfterPublish)
    \<and> ((\<forall>page\<in>(\<lambda>a. a div 4096) ` {ptr ..< ptr + len}.
          page \<in> (\<lambda>a. a div 4096) ` {a. ptr \<le> a \<and> a < ptr + len \<and> 4096 dvd a - ptr}) \<longleftrightarrow>
       ptr mod 4096 + len \<le> (len + 4095) div 4096 * 4096)"
proof
  show "Publisher_prefault ptr size_of_slot p r mem =
      (if pb_seq p = 0 then Inr (\<lambda>a. if a \<in> {a. ptr \<le> a \<and> a < ptr + len \<and> 4096 dvd a - ptr} then 0 else mem a)
       else Inl PrefaultAfterPublish)"
    by (simp add: Publisher_prefault_def prefault_pages_spec [abs_def] len)
  have touched: "page \<in> (\<lambda>a. a div 4096) ` {a. ptr \<le> a \<and> a < ptr + len \<and> 4096 dvd a - ptr} \<longleftrightarrow>
      ptr div 4096 \<le> page \<and> (page - ptr div 4096) * 4096 < len" for page
    using touched_page [of ptr len page] by (auto simp: image_iff)
  let ?last = "(ptr + len - 1) div 4096"
  have "(\<forall>page\<in>(\<lambda>a. a div 4096) ` {ptr ..< ptr + len}. (page - ptr div 4096) * 4096 < len) \<longleftrightarrow>
      (?last - ptr div 4096) * 4096 < len"
  proof
    assume "\<forall>page\<in>(\<lambda>a. a div 4096) ` {ptr ..< ptr + len}. (page - ptr div 4096) * 4096 < len"
    then show "(?last - ptr div 4096) * 4096 < len" using assms(2) by auto
  next
    assume l: "(?last - ptr div 4096) * 4096 < len"
    have "(a div 4096 - ptr div 4096) * 4096 < len" if "ptr \<le> a" "a < ptr + len" for a
    proof -
      have "a div 4096 \<le> ?last" using that by (intro div_le_mono) simp
      then have "(a div 4096 - ptr div 4096) * 4096 \<le> (?last - ptr div 4096) * 4096"
        by (intro mult_le_mono1 diff_le_mono)
      then show ?thesis using l by linarith
    qed
    then show "\<forall>page\<in>(\<lambda>a. a div 4096) ` {ptr ..< ptr + len}. (page - ptr div 4096) * 4096 < len" by auto
  qed
  moreover have "ptr div 4096 \<le> page" if "page \<in> (\<lambda>a. a div 4096) ` {ptr ..< ptr + len}" for page
    using that by (auto intro: div_le_mono)
  ultimately show "(\<forall>page\<in>(\<lambda>a. a div 4096) ` {ptr ..< ptr + len}.
          page \<in> (\<lambda>a. a div 4096) ` {a. ptr \<le> a \<and> a < ptr + len \<and> 4096 dvd a - ptr}) \<longleftrightarrow>
       ptr mod 4096 + len \<le> (len + 4095) div 4096 * 4096"
    unfolding touched last_page [OF assms(2)] by blast
qed

theorem prefault_writes_witness:
  "let r = snd (projr (channel (0 :: u64) 64)); p = fst (projr (channel (0 :: u64) 64))
   in unat (SharedRing_slots_byte_len 64 r) = 4096
    \<and> projr (Publisher_prefault 4160 64 p r (\<lambda>_. 7)) 4160 = 0 \<and> projr (Publisher_prefault 4160 64 p r (\<lambda>_. 7)) 8192 = 7"
proof -
  obtain p r where pr: "channel (0 :: u64) 64 = Inr (p, r)" "length (sr_slots r) = 64" "pb_seq p = 0"
    by (simp add: channel_def SharedRing_new_def RingIndex_new_def make_publisher_def Let_def)
  have len: "unat (SharedRing_slots_byte_len 64 r) = 4096" using pr(2) by (simp add: SharedRing_slots_byte_len_def)
  show ?thesis using prefault_writes [OF len [symmetric], of 4160 p "\<lambda>_. 7"] pr len by simp
qed

end
